(* ===== verification/Net_Prelude.thy ===== *)
theory Net_Prelude
  imports Main "HOL-Library.Word"
begin

unbundle bit_operations_syntax

text \<open>
  Shared vocabulary of the development: the machine types of an x86-64 Linux build
  (\<open>size_t\<close> and \<open>off_t\<close> are 64 bits wide, \<open>tcp_seq\<close> is \<open>uint32_t\<close>), the
  exceptions of \<open>src/proto.h\<close> as values, byte-addressed memory with \<open>memcpy\<close>, the
  little-endian byte images of integers, and the generic lemmas on words, lists and memory
  that the component theories use.
\<close>

section \<open>Machine types\<close>

type_synonym u8 = "8 word"
type_synonym u16 = "16 word"
type_synonym u32 = "32 word"
type_synonym u64 = "64 word"
type_synonym size_t = "64 word"
type_synonym off_t = "64 word"
type_synonym tcp_seq = "32 word"

named_theorems word_nat_simps \<open>reading word operations as natural numbers\<close>
named_theorems mem_simps \<open>reads after writes in byte memory\<close>

text \<open>Implicit conversions of the C++ code: widening \<open>tcp_seq\<close> to \<open>size_t\<close>, truncating back.\<close>

definition seq_to_size :: "tcp_seq \<Rightarrow> size_t" where
  "seq_to_size s = ucast s"

definition size_to_seq :: "size_t \<Rightarrow> tcp_seq" where
  "size_to_seq n = ucast n"

section \<open>Exceptions\<close>

text \<open>
  \<open>class fuck\<close>, \<open>class timeout\<close> and \<open>class drop\<close> of \<open>src/proto.h\<close>, and the \<open>std::runtime_error\<close>
  that \<open>socket_base\<close> throws. \<open>Fault\<close> is not an exception
  of the program: it marks an access outside an array, which the C++ code leaves undefined, so
  that memory safety is a statement that \<open>Fault\<close> is never the result.
\<close>

datatype tcp_exn = Fuck string | Timeout | Drop | Runtime_error string | Fault

type_synonym 'a res = "tcp_exn + 'a"

section \<open>Byte memory\<close>

type_synonym bmem = "nat \<Rightarrow> u8"

definition mem_read :: "bmem \<Rightarrow> nat \<Rightarrow> nat \<Rightarrow> u8 list" where
  "mem_read m a n = map m [a..<a + n]"

text \<open>\<open>memcpy(m + a, bs, length bs)\<close>.\<close>

definition mem_write :: "bmem \<Rightarrow> nat \<Rightarrow> u8 list \<Rightarrow> bmem" where
  "mem_write m a bs = (\<lambda>i. if a \<le> i \<and> i < a + length bs then bs ! (i - a) else m i)"

text \<open>The bytes \<open>bs\<close> stand at address \<open>a\<close>.\<close>

definition mem_holds :: "bmem \<Rightarrow> nat \<Rightarrow> u8 list \<Rightarrow> bool" where
  "mem_holds m a bs \<longleftrightarrow> mem_read m a (length bs) = bs"

section \<open>Little-endian images\<close>

fun nat_to_le :: "nat \<Rightarrow> nat \<Rightarrow> u8 list" where
  "nat_to_le 0 v = []"
| "nat_to_le (Suc n) v = word_of_nat (v mod 256) # nat_to_le n (v div 256)"

fun le_to_nat :: "u8 list \<Rightarrow> nat" where
  "le_to_nat [] = 0"
| "le_to_nat (b # bs) = unat b + 256 * le_to_nat bs"

section \<open>Words read as natural numbers\<close>

lemma unat_plus_no_wrap [word_nat_simps]:
  fixes a b :: "'a::len word"
  shows "unat a + unat b < 2 ^ LENGTH('a) \<Longrightarrow> unat (a + b) = unat a + unat b"
  by (simp add: unat_add_lem)

lemma unat_minus_no_wrap [word_nat_simps]:
  fixes a b :: "'a::len word"
  shows "unat b \<le> unat a \<Longrightarrow> unat (a - b) = unat a - unat b"
  by (simp add: unat_sub word_le_nat_alt)

lemma unat_u64_bound: "unat (x :: u64) < 18446744073709551616"
  using unsigned_less [of x] by simp

lemma unat_u32_bound: "unat (x :: u32) < 4294967296"
  using unsigned_less [of x] by simp

lemma unat_u16_bound: "unat (x :: u16) < 65536"
  using unsigned_less [of x] by simp

lemma unat_u8_bound: "unat (x :: u8) < 256"
  using unsigned_less [of x] by simp

lemma unat_seq_to_size [word_nat_simps, simp]: "unat (seq_to_size s) = unat s"
proof -
  have "unat s < 2 ^ 64"
    by (rule less_trans [OF unat_u32_bound [of s]]) simp
  then show ?thesis by (simp add: seq_to_size_def unsigned_ucast_eq take_bit_nat_eq_self)
qed

lemma unat_size_to_seq [word_nat_simps]: "unat (size_to_seq n) = unat n mod 4294967296"
  by (simp add: size_to_seq_def unsigned_ucast_eq take_bit_eq_mod)

lemma size_to_seq_id [simp]: "size_to_seq (seq_to_size s) = s"
  using unat_u32_bound [of s] by (simp add: word_unat_eq_iff unat_size_to_seq)

lemma size_to_seq_add: "size_to_seq (a + b) = size_to_seq a + size_to_seq b"
  by (simp add: word_unat_eq_iff unat_size_to_seq unat_word_ariths mod_simps mod_mod_cancel)

lemma size_to_seq_1 [simp]: "size_to_seq 1 = 1" and size_to_seq_0 [simp]: "size_to_seq 0 = 0"
  by (simp_all add: word_unat_eq_iff unat_size_to_seq)

lemma size_to_seq_diff: "size_to_seq (a - b) = size_to_seq a - size_to_seq b"
  using size_to_seq_add [of "a - b" b] by (simp add: eq_diff_eq)

lemma unat_word_of_nat_u64: "n < 18446744073709551616 \<Longrightarrow> unat (word_of_nat n :: u64) = n"
  by (simp add: unat_of_nat)

lemma unat_word_of_int_u64:
  assumes "0 \<le> k" and "k < 18446744073709551616"
  shows "unat (word_of_int k :: u64) = nat k"
proof -
  obtain n where n: "k = int n" using assms(1) by (metis nonneg_int_cases)
  then have "n < 18446744073709551616" using assms(2) by linarith
  then show ?thesis unfolding n by (simp add: unat_word_of_nat_u64)
qed

lemma word_of_nat_unat: "word_of_nat (unat (w :: 'a::len word)) = w"
  by simp

lemma signed_take_bit_63_self:
  "- 9223372036854775808 \<le> k \<Longrightarrow> k < 9223372036854775808 \<Longrightarrow> signed_take_bit 63 k = (k :: int)"
  by (intro signed_take_bit_int_eq_self) simp_all

lemma sint_small:
  assumes "unat (a :: u64) < 9223372036854775808"
  shows "sint a = int (unat a)"
proof -
  have "signed_take_bit 63 (int (unat a)) = int (unat a)"
    by (rule signed_take_bit_63_self) (use assms in linarith)+
  then show ?thesis by (simp add: sint_uint)
qed

lemma sint_diff_small:
  fixes a b :: u64
  assumes "unat a < 4611686018427387904" and "unat b < 4611686018427387904"
  shows "sint (a - b) = int (unat a) - int (unat b)"
proof -
  have s: "sint a = int (unat a)" "sint b = int (unat b)"
    using assms by (intro sint_small; linarith)+
  have "signed_take_bit 63 (int (unat a) - int (unat b)) = int (unat a) - int (unat b)"
    by (rule signed_take_bit_63_self) (use assms in linarith)+
  with s show ?thesis by (simp add: sint_word_diff)
qed

section \<open>Lemmas on byte memory\<close>

lemma length_mem_read [simp]: "length (mem_read m a n) = n"
  by (simp add: mem_read_def)

lemma mem_read_0 [simp]: "mem_read m a 0 = []"
  by (simp add: mem_read_def)

lemma nth_mem_read [simp]: "i < n \<Longrightarrow> mem_read m a n ! i = m (a + i)"
  by (simp add: mem_read_def)

lemma mem_write_Nil [simp]: "mem_write m a [] = m"
  by (rule ext) (auto simp: mem_write_def)

lemma mem_read_write_same [mem_simps, simp]:
  "mem_read (mem_write m a bs) a (length bs) = bs"
  by (rule nth_equalityI) (auto simp: mem_write_def)

lemma mem_read_write_prefix [mem_simps]:
  "n \<le> length bs \<Longrightarrow> mem_read (mem_write m a bs) a n = take n bs"
  by (rule nth_equalityI) (auto simp: mem_write_def)

lemma mem_read_write_disjoint [mem_simps]:
  "b + n \<le> a \<or> a + length bs \<le> b \<Longrightarrow> mem_read (mem_write m a bs) b n = mem_read m b n"
  by (rule nth_equalityI) (auto simp: mem_write_def)

lemma mem_read_append: "mem_read m a (n + k) = mem_read m a n @ mem_read m (a + n) k"
proof -
  have "[a..<a + (n + k)] = [a..<a + n] @ [a + n..<a + n + k]"
    by (metis add.assoc le_add1 upt_add_eq_append)
  then show ?thesis by (simp add: mem_read_def)
qed

lemma take_mem_read [simp]: "k \<le> n \<Longrightarrow> take k (mem_read m a n) = mem_read m a k"
  by (simp add: mem_read_def take_map)

lemma drop_mem_read: "k \<le> n \<Longrightarrow> drop k (mem_read m a n) = mem_read m (a + k) (n - k)"
  by (simp add: mem_read_def drop_map)

lemma mem_write_append:
  "mem_write m a (xs @ ys) = mem_write (mem_write m a xs) (a + length xs) ys"
  by (rule ext) (auto simp: mem_write_def nth_append)

lemma mem_write_outside: "i < a \<or> a + length bs \<le> i \<Longrightarrow> mem_write m a bs i = m i"
  by (auto simp: mem_write_def)

lemma mem_holds_Nil [simp]: "mem_holds m a []"
  by (simp add: mem_holds_def)

lemma mem_holds_append [simp]:
  "mem_holds m a (xs @ ys) \<longleftrightarrow> mem_holds m a xs \<and> mem_holds m (a + length xs) ys"
  by (simp add: mem_holds_def mem_read_append append_eq_append_conv)

lemma mem_holds_Cons [simp]: "mem_holds m a (b # bs) \<longleftrightarrow> m a = b \<and> mem_holds m (Suc a) bs"
  using mem_read_append [of m a 1 "length bs"] by (simp add: mem_holds_def mem_read_def)

lemma mem_holds_write: "mem_holds (mem_write m a bs) a bs"
  by (simp add: mem_holds_def)

lemma mem_holds_write_disjoint [mem_simps]:
  "b + length xs \<le> a \<or> a + length bs \<le> b \<Longrightarrow> mem_holds (mem_write m a bs) b xs = mem_holds m b xs"
  by (simp add: mem_holds_def mem_read_write_disjoint)

section \<open>Lemmas on little-endian images\<close>

lemma length_nat_to_le [simp]: "length (nat_to_le n v) = n"
  by (induction n arbitrary: v) auto

lemma le_to_nat_bound: "le_to_nat bs < 256 ^ length bs"
proof (induction bs)
  case (Cons b bs)
  have "unat b \<le> 255" using unat_u8_bound [of b] by linarith
  moreover have "le_to_nat bs + 1 \<le> 256 ^ length bs" using Cons.IH by simp
  ultimately show ?case by simp
qed simp

lemma le_to_nat_to_le: "le_to_nat (nat_to_le n v) = v mod 256 ^ n"
proof (induction n arbitrary: v)
  case (Suc n)
  have "unat (word_of_nat (v mod 256) :: u8) = v mod 256"
    by (simp add: unat_of_nat)
  then show ?case
    using Suc.IH by (simp add: mod_mult2_eq)
qed simp

lemma nat_to_le_to_nat: "nat_to_le (length bs) (le_to_nat bs) = bs"
proof (induction bs)
  case (Cons b bs)
  have d: "(unat b + 256 * le_to_nat bs) div 256 = le_to_nat bs"
    using unat_u8_bound [of b] by simp
  have m: "(unat b + 256 * le_to_nat bs) mod 256 = unat b"
    using unat_u8_bound [of b] by simp
  have "unat b mod 256 = unat b" using unat_u8_bound [of b] by simp
  with Cons.IH show ?case by (simp add: d m)
qed simp

section \<open>Interfaces\<close>

text \<open>
  A byte store with ranged reads and writes. The buffers of both directions use it through these
  laws; \<open>rd_wr_end\<close> is the one the queues need: writing at the end of a region extends it.
\<close>

locale byte_store =
  fixes rd :: "'m \<Rightarrow> nat \<Rightarrow> nat \<Rightarrow> u8 list"
    and wr :: "'m \<Rightarrow> nat \<Rightarrow> u8 list \<Rightarrow> 'm"
  assumes rd_wr_same: "rd (wr m a bs) a (length bs) = bs"
    and rd_wr_disjoint: "b + n \<le> a \<or> a + length bs \<le> b \<Longrightarrow> rd (wr m a bs) b n = rd m b n"
    and rd_split: "rd m a (n + k) = rd m a n @ rd m (a + n) k"
    and rd_length: "length (rd m a n) = n"
begin

lemma rd_wr_end: "rd (wr m (a + k) bs) a (k + length bs) = rd m a k @ bs"
  by (simp add: rd_split rd_wr_same rd_wr_disjoint)

lemma rd_suffix: "k \<le> n \<Longrightarrow> rd m (a + k) (n - k) = drop k (rd m a n)"
  using rd_split [of m a k "n - k"] rd_length [of m a k] by simp

lemma rd_prefix: "k \<le> n \<Longrightarrow> rd m a k = take k (rd m a n)"
  using rd_split [of m a k "n - k"] rd_length [of m a k] by simp

end

interpretation bm: byte_store mem_read mem_write
  by unfold_locales (simp_all add: mem_read_write_disjoint mem_read_append)

text \<open>
  A transition system with an invariant: what holds at the start and is kept by every step holds
  in every state that the steps reach.
\<close>

locale inv_system =
  fixes start :: "'s \<Rightarrow> bool"
    and step :: "'s \<Rightarrow> 's \<Rightarrow> bool"
    and inv :: "'s \<Rightarrow> bool"
  assumes start_inv: "start s \<Longrightarrow> inv s"
    and step_inv: "inv s \<Longrightarrow> step s t \<Longrightarrow> inv t"
begin

lemma steps_inv: "step\<^sup>*\<^sup>* s t \<Longrightarrow> inv s \<Longrightarrow> inv t"
  by (induction rule: rtranclp_induct) (auto intro: step_inv)

lemma reachable_inv: "start s \<Longrightarrow> step\<^sup>*\<^sup>* s t \<Longrightarrow> inv t"
  by (blast intro: steps_inv start_inv)

end

text \<open>
  A system that comes to its end: besides the invariant there is a well-founded relation in which
  every step goes down. Then there is no infinite run, and every run can be finished.
\<close>

locale ending_system = inv_system start step inv
  for start :: "'s \<Rightarrow> bool" and step :: "'s \<Rightarrow> 's \<Rightarrow> bool" and inv :: "'s \<Rightarrow> bool" +
  fixes less :: "('s \<times> 's) set"
  assumes wf_less: "wf less"
    and step_less: "inv s \<Longrightarrow> step s t \<Longrightarrow> (t, s) \<in> less"
begin

lemma no_infinite_run:
  assumes "start (f 0)"
  shows "\<exists>i. \<not> step (f i) (f (Suc i))"
proof (rule ccontr)
  assume "\<nexists>i. \<not> step (f i) (f (Suc i))"
  then have st: "step (f i) (f (Suc i))" for i by blast
  have "inv (f i)" for i by (induction i) (use assms start_inv step_inv st in blast)+
  then have "(f (Suc i), f i) \<in> less" for i using st step_less by blast
  with wf_less show False by (auto simp: wf_iff_no_infinite_down_chain)
qed

lemma run_ends: "inv s \<Longrightarrow> \<exists>u. step\<^sup>*\<^sup>* s u \<and> (\<forall>v. \<not> step u v)"
proof (induction s rule: wf_induct_rule [OF wf_less])
  case (1 s)
  show ?case
  proof (cases "\<exists>t. step s t")
    case True
    then obtain t where t: "step s t" by blast
    with 1 obtain u where "step\<^sup>*\<^sup>* t u" "\<forall>v. \<not> step u v" using step_inv step_less by blast
    with t show ?thesis by (blast intro: converse_rtranclp_into_rtranclp)
  qed blast
qed

end

text \<open>
  A system that can always recover: from every state of the invariant that is not yet at the goal, some
  steps lead nearer to it. Then the goal can be reached from everywhere.
\<close>

locale recoverable = inv_system start step inv
  for start :: "'s \<Rightarrow> bool" and step :: "'s \<Rightarrow> 's \<Rightarrow> bool" and inv :: "'s \<Rightarrow> bool" +
  fixes goal :: "'s \<Rightarrow> bool" and less :: "('s \<times> 's) set"
  assumes wf_less: "wf less"
    and nearer: "inv s \<Longrightarrow> \<not> goal s \<Longrightarrow> \<exists>t. step\<^sup>*\<^sup>* s t \<and> (t, s) \<in> less"
begin

lemma reaches_goal: "inv s \<Longrightarrow> \<exists>t. step\<^sup>*\<^sup>* s t \<and> inv t \<and> goal t"
proof (induction s rule: wf_induct_rule [OF wf_less])
  case (1 s)
  show ?case
  proof (cases "goal s")
    case True
    with 1 show ?thesis by blast
  next
    case False
    then obtain t where t: "step\<^sup>*\<^sup>* s t" "(t, s) \<in> less" using 1 nearer by blast
    with 1 obtain u where "step\<^sup>*\<^sup>* t u" "inv u" "goal u" using steps_inv by blast
    with t show ?thesis by (blast intro: rtranclp_trans)
  qed
qed

end

end
