(* ===== verification/Proto_Msg.thy ===== *)
theory Proto_Msg
  imports Net_Prelude
begin

text \<open>
  The wire format: \<open>src/proto.h\<close> (socket identity, packet structures, queue attributes) and the
  class \<open>msg\<close> of \<open>src/transfer.h\<close> with the two transfer routines of \<open>src/transfer.cpp\<close>. The
  structures are packed, so a message has one byte image; \<open>load_msg\<close> reads a message back from
  memory, which is what the constructor \<open>msg(void *inplace)\<close> and the getters do. Host byte order
  is little-endian, as on the x86-64 target.
\<close>

section \<open>Data\<close>

record sockaddr_in =
  sin_family :: u16
  sin_addr :: u32
  sin_port :: u16

record socket_identify =
  in_addr :: sockaddr_in
  out_addr :: sockaddr_in

definition zero_sockaddr :: sockaddr_in where
  "zero_sockaddr = \<lparr>sin_family = 0, sin_addr = 0, sin_port = 0\<rparr>"

text \<open>\<open>socket_identify(const sockaddr_in &in)\<close>: the remote side is cleared.\<close>

definition socket_identify_of :: "sockaddr_in \<Rightarrow> socket_identify" where
  "socket_identify_of a = \<lparr>in_addr = a, out_addr = zero_sockaddr\<rparr>"

text \<open>\<open>struct iphdr\<close> and \<open>struct tcphdr\<close> of the system headers. \<open>th_flags\<close> is the flag byte of
  the header's union: bit 0 \<open>fin\<close>, 1 \<open>syn\<close>, 2 \<open>rst\<close>, 3 \<open>psh\<close>, 4 \<open>ack\<close>, 5 \<open>urg\<close>.\<close>

record iphdr =
  ihl_version :: u8
  tos :: u8
  tot_len :: u16
  ip_id :: u16
  frag_off :: u16
  ttl :: u8
  protocol :: u8
  ip_check :: u16
  saddr :: u32
  daddr :: u32

record tcphdr =
  th_source :: u16
  th_dest :: u16
  th_seq :: tcp_seq
  th_ack_seq :: tcp_seq
  th_off_x2 :: u8
  th_flags :: u8
  th_window :: u16
  th_check :: u16
  th_urg :: u16

record TCPHDR =
  hdr :: tcphdr
  sender_timestamp :: u64
  recv_timestamp :: u64

record TCP_PACKET =
  iph :: iphdr
  tcph :: TCPHDR
  pbuf :: "u8 list"

record msg =
  buf_len :: size_t
  data_len :: size_t
  packet :: TCP_PACKET

definition sizeof_iphdr :: nat where "sizeof_iphdr = 20"
definition sizeof_TCPHDR :: nat where "sizeof_TCPHDR = 36"
definition sizeof_TCP_PACKET :: nat where "sizeof_TCP_PACKET = sizeof_iphdr + sizeof_TCPHDR"
definition sizeof_raw_msg_t :: nat where "sizeof_raw_msg_t = 16 + sizeof_TCP_PACKET"

lemmas sizeof_defs = sizeof_iphdr_def sizeof_TCPHDR_def sizeof_TCP_PACKET_def sizeof_raw_msg_t_def

record mq_attr =
  mq_flags :: int
  mq_maxmsg :: int
  mq_msgsize :: int
  mq_curmsgs :: int

definition default_mq_attr :: mq_attr where
  "default_mq_attr = \<lparr>mq_flags = 0, mq_maxmsg = 100, mq_msgsize = 100, mq_curmsgs = 0\<rparr>"

definition default_tcp_mq_attr :: mq_attr where
  "default_tcp_mq_attr =
     \<lparr>mq_flags = 0, mq_maxmsg = 100, mq_msgsize = 65534 + int sizeof_TCP_PACKET, mq_curmsgs = 0\<rparr>"

text \<open>\<open>mtu - sizeof(TCP_PACKET)\<close>: the \<open>int\<close> is converted to \<open>size_t\<close> first.\<close>

definition max_packet_data_size :: "int \<Rightarrow> size_t" where
  "max_packet_data_size mtu = word_of_int mtu - word_of_nat sizeof_TCP_PACKET"

section \<open>Byte images\<close>

definition le16 :: "u16 \<Rightarrow> u8 list" where "le16 w = nat_to_le 2 (unat w)"
definition le32 :: "u32 \<Rightarrow> u8 list" where "le32 w = nat_to_le 4 (unat w)"
definition le64 :: "u64 \<Rightarrow> u8 list" where "le64 w = nat_to_le 8 (unat w)"

definition ld16 :: "bmem \<Rightarrow> nat \<Rightarrow> u16" where "ld16 m a = word_of_nat (le_to_nat (mem_read m a 2))"
definition ld32 :: "bmem \<Rightarrow> nat \<Rightarrow> u32" where "ld32 m a = word_of_nat (le_to_nat (mem_read m a 4))"
definition ld64 :: "bmem \<Rightarrow> nat \<Rightarrow> u64" where "ld64 m a = word_of_nat (le_to_nat (mem_read m a 8))"

definition iphdr_bytes :: "iphdr \<Rightarrow> u8 list" where
  "iphdr_bytes h = [ihl_version h, tos h] @ le16 (tot_len h) @ le16 (ip_id h) @ le16 (frag_off h) @
     [ttl h, protocol h] @ le16 (ip_check h) @ le32 (saddr h) @ le32 (daddr h)"

definition tcphdr_bytes :: "tcphdr \<Rightarrow> u8 list" where
  "tcphdr_bytes h = le16 (th_source h) @ le16 (th_dest h) @ le32 (th_seq h) @ le32 (th_ack_seq h) @
     [th_off_x2 h, th_flags h] @ le16 (th_window h) @ le16 (th_check h) @ le16 (th_urg h)"

definition TCPHDR_bytes :: "TCPHDR \<Rightarrow> u8 list" where
  "TCPHDR_bytes t = tcphdr_bytes (hdr t) @ le64 (sender_timestamp t) @ le64 (recv_timestamp t)"

definition packet_bytes :: "TCP_PACKET \<Rightarrow> u8 list" where
  "packet_bytes p = iphdr_bytes (iph p) @ TCPHDR_bytes (tcph p) @ pbuf p"

definition msg_bytes :: "msg \<Rightarrow> u8 list" where
  "msg_bytes x = le64 (buf_len x) @ le64 (data_len x) @ packet_bytes (packet x)"

definition load_iphdr :: "bmem \<Rightarrow> nat \<Rightarrow> iphdr" where
  "load_iphdr m a = \<lparr>ihl_version = m a, tos = m (a + 1), tot_len = ld16 m (a + 2),
     ip_id = ld16 m (a + 4), frag_off = ld16 m (a + 6), ttl = m (a + 8), protocol = m (a + 9),
     ip_check = ld16 m (a + 10), saddr = ld32 m (a + 12), daddr = ld32 m (a + 16)\<rparr>"

definition load_tcphdr :: "bmem \<Rightarrow> nat \<Rightarrow> tcphdr" where
  "load_tcphdr m a = \<lparr>th_source = ld16 m a, th_dest = ld16 m (a + 2), th_seq = ld32 m (a + 4),
     th_ack_seq = ld32 m (a + 8), th_off_x2 = m (a + 12), th_flags = m (a + 13),
     th_window = ld16 m (a + 14), th_check = ld16 m (a + 16), th_urg = ld16 m (a + 18)\<rparr>"

definition load_TCPHDR :: "bmem \<Rightarrow> nat \<Rightarrow> TCPHDR" where
  "load_TCPHDR m a = \<lparr>hdr = load_tcphdr m a, sender_timestamp = ld64 m (a + 20),
     recv_timestamp = ld64 m (a + 28)\<rparr>"

definition load_packet :: "bmem \<Rightarrow> nat \<Rightarrow> nat \<Rightarrow> TCP_PACKET" where
  "load_packet m a n = \<lparr>iph = load_iphdr m a, tcph = load_TCPHDR m (a + sizeof_iphdr),
     pbuf = mem_read m (a + sizeof_TCP_PACKET) n\<rparr>"

text \<open>\<open>msg(void *inplace)\<close>: a message seen at an address.\<close>

definition load_msg :: "bmem \<Rightarrow> nat \<Rightarrow> msg" where
  "load_msg m a = \<lparr>buf_len = ld64 m a, data_len = ld64 m (a + 8),
     packet = load_packet m (a + 16) (unat (ld64 m a))\<rparr>"

section \<open>Operations of msg\<close>

definition zero_tcphdr :: tcphdr where
  "zero_tcphdr = \<lparr>th_source = 0, th_dest = 0, th_seq = 0, th_ack_seq = 0, th_off_x2 = 0,
     th_flags = 0, th_window = 0, th_check = 0, th_urg = 0\<rparr>"

definition zero_iphdr :: iphdr where
  "zero_iphdr = \<lparr>ihl_version = 0, tos = 0, tot_len = 0, ip_id = 0, frag_off = 0, ttl = 0,
     protocol = 0, ip_check = 0, saddr = 0, daddr = 0\<rparr>"

definition zero_packet :: "u8 list \<Rightarrow> TCP_PACKET" where
  "zero_packet bs = \<lparr>iph = zero_iphdr,
     tcph = \<lparr>hdr = zero_tcphdr, sender_timestamp = 0, recv_timestamp = 0\<rparr>, pbuf = bs\<rparr>"

text \<open>\<open>msg(void *buf, size_t buf_len)\<close>: the allocation is cleared, then the payload is copied when
  a buffer is given. \<open>msg_ctor\<close> adds the branch in which \<open>malloc\<close> fails.\<close>

definition msg_new :: "u8 list option \<Rightarrow> size_t \<Rightarrow> msg" where
  "msg_new buf n = \<lparr>buf_len = n, data_len = n,
     packet = zero_packet (case buf of None \<Rightarrow> replicate (unat n) 0 | Some bs \<Rightarrow> take (unat n) bs)\<rparr>"

definition msg_ctor :: "bool \<Rightarrow> u8 list option \<Rightarrow> size_t \<Rightarrow> msg res" where
  "msg_ctor malloc_ok buf n = (if malloc_ok then Inr (msg_new buf n) else Inl (Fuck ''''))"

text \<open>\<open>tmp_msg\<close>: the payload stays in the caller's buffer; \<open>get_data\<close> returns it.\<close>

definition tmp_msg :: "u8 list \<Rightarrow> msg" where
  "tmp_msg bs = \<lparr>buf_len = word_of_nat (length bs), data_len = word_of_nat (length bs),
     packet = zero_packet bs\<rparr>"

definition full_sz_no_obj :: "size_t \<Rightarrow> size_t" where
  "full_sz_no_obj n = word_of_nat sizeof_raw_msg_t + n"

definition full_sz :: "msg \<Rightarrow> size_t" where
  "full_sz m = full_sz_no_obj (buf_len m)"

definition full_sz_updated_data :: "msg \<Rightarrow> size_t" where
  "full_sz_updated_data m = full_sz_no_obj 0 + data_len m"

definition header_len :: size_t where
  "header_len = word_of_nat (sizeof_iphdr + sizeof_TCPHDR)"

definition tcp_data_sz :: "msg \<Rightarrow> size_t" where
  "tcp_data_sz m = word_of_nat sizeof_TCPHDR + data_len m"

definition packet_sz :: "msg \<Rightarrow> size_t" where
  "packet_sz m = word_of_nat sizeof_TCP_PACKET + data_len m"

definition set_data_len :: "size_t \<Rightarrow> msg \<Rightarrow> msg" where
  "set_data_len n m = m\<lparr>data_len := n\<rparr>"

definition cleanup_data_sz :: "msg \<Rightarrow> msg" where
  "cleanup_data_sz m = m\<lparr>data_len := buf_len m\<rparr>"

definition get_data :: "msg \<Rightarrow> u8 list" where
  "get_data m = take (unat (data_len m)) (pbuf (packet m))"

definition tcp_data :: "msg \<Rightarrow> u8 list" where
  "tcp_data m = take (unat (tcp_data_sz m)) (TCPHDR_bytes (tcph (packet m)) @ pbuf (packet m))"

definition packet_data :: "msg \<Rightarrow> u8 list" where
  "packet_data m = take (unat (packet_sz m)) (packet_bytes (packet m))"

definition map_iph :: "(iphdr \<Rightarrow> iphdr) \<Rightarrow> msg \<Rightarrow> msg" where
  "map_iph f m = m\<lparr>packet := (packet m)\<lparr>iph := f (iph (packet m))\<rparr>\<rparr>"

definition map_tcph :: "(TCPHDR \<Rightarrow> TCPHDR) \<Rightarrow> msg \<Rightarrow> msg" where
  "map_tcph f m = m\<lparr>packet := (packet m)\<lparr>tcph := f (tcph (packet m))\<rparr>\<rparr>"

definition map_hdr :: "(tcphdr \<Rightarrow> tcphdr) \<Rightarrow> msg \<Rightarrow> msg" where
  "map_hdr f = map_tcph (\<lambda>t. t\<lparr>hdr := f (hdr t)\<rparr>)"

definition msg_hdr :: "msg \<Rightarrow> tcphdr" where
  "msg_hdr m = hdr (tcph (packet m))"

definition get_seq :: "msg \<Rightarrow> tcp_seq" where "get_seq m = th_seq (msg_hdr m)"
definition set_seq :: "tcp_seq \<Rightarrow> msg \<Rightarrow> msg" where "set_seq s = map_hdr (\<lambda>h. h\<lparr>th_seq := s\<rparr>)"
definition get_ack_seq :: "msg \<Rightarrow> tcp_seq" where "get_ack_seq m = th_ack_seq (msg_hdr m)"
definition set_ack_seq :: "tcp_seq \<Rightarrow> msg \<Rightarrow> msg" where
  "set_ack_seq s = map_hdr (\<lambda>h. h\<lparr>th_ack_seq := s\<rparr>)"
definition get_window_sz :: "msg \<Rightarrow> size_t" where "get_window_sz m = ucast (th_window (msg_hdr m))"
definition set_window_sz :: "u16 \<Rightarrow> msg \<Rightarrow> msg" where
  "set_window_sz w = map_hdr (\<lambda>h. h\<lparr>th_window := w\<rparr>)"
definition get_chsum :: "msg \<Rightarrow> u16" where "get_chsum m = th_check (msg_hdr m)"
definition set_chsum :: "u16 \<Rightarrow> msg \<Rightarrow> msg" where "set_chsum c = map_hdr (\<lambda>h. h\<lparr>th_check := c\<rparr>)"

definition get_sender_timestamp :: "msg \<Rightarrow> size_t" where
  "get_sender_timestamp m = sender_timestamp (tcph (packet m))"
definition set_sender_timestamp :: "size_t \<Rightarrow> msg \<Rightarrow> msg" where
  "set_sender_timestamp v = map_tcph (\<lambda>t. t\<lparr>sender_timestamp := v\<rparr>)"
definition get_recv_timestamp :: "msg \<Rightarrow> size_t" where
  "get_recv_timestamp m = recv_timestamp (tcph (packet m))"
definition set_recv_timestamp :: "size_t \<Rightarrow> msg \<Rightarrow> msg" where
  "set_recv_timestamp v = map_tcph (\<lambda>t. t\<lparr>recv_timestamp := v\<rparr>)"

definition set_dest_addr :: "sockaddr_in \<Rightarrow> msg \<Rightarrow> msg" where
  "set_dest_addr a m = map_hdr (\<lambda>h. h\<lparr>th_dest := sin_port a\<rparr>) (map_iph (\<lambda>i. i\<lparr>daddr := sin_addr a\<rparr>) m)"
definition set_src_addr :: "sockaddr_in \<Rightarrow> msg \<Rightarrow> msg" where
  "set_src_addr a m = map_hdr (\<lambda>h. h\<lparr>th_source := sin_port a\<rparr>) (map_iph (\<lambda>i. i\<lparr>saddr := sin_addr a\<rparr>) m)"

definition AF_INET :: u16 where "AF_INET = 2"

definition get_dest_addr :: "msg \<Rightarrow> sockaddr_in" where
  "get_dest_addr m = \<lparr>sin_family = AF_INET, sin_addr = daddr (iph (packet m)), sin_port = th_dest (msg_hdr m)\<rparr>"
definition get_src_addr :: "msg \<Rightarrow> sockaddr_in" where
  "get_src_addr m = \<lparr>sin_family = AF_INET, sin_addr = saddr (iph (packet m)), sin_port = th_source (msg_hdr m)\<rparr>"

definition is_fin :: "msg \<Rightarrow> bool" where "is_fin m = bit (th_flags (msg_hdr m)) 0"
definition is_syn :: "msg \<Rightarrow> bool" where "is_syn m = bit (th_flags (msg_hdr m)) 1"
definition is_rst :: "msg \<Rightarrow> bool" where "is_rst m = bit (th_flags (msg_hdr m)) 2"
definition is_ack :: "msg \<Rightarrow> bool" where "is_ack m = bit (th_flags (msg_hdr m)) 4"
definition is_usual :: "msg \<Rightarrow> bool" where
  "is_usual m = (\<not> is_ack m \<and> \<not> is_syn m \<and> \<not> is_fin m \<and> \<not> is_rst m)"

definition set_flag :: "nat \<Rightarrow> msg \<Rightarrow> msg" where
  "set_flag i = map_hdr (\<lambda>h. h\<lparr>th_flags := set_bit i (th_flags h)\<rparr>)"
definition set_fin :: "msg \<Rightarrow> msg" where "set_fin = set_flag 0"
definition set_syn :: "msg \<Rightarrow> msg" where "set_syn = set_flag 1"
definition set_rst :: "msg \<Rightarrow> msg" where "set_rst = set_flag 2"
definition set_ack :: "msg \<Rightarrow> msg" where "set_ack = set_flag 4"

text \<open>The copying constructor \<open>msg(msg &other, void *inplace)\<close>: header bytes, then the payload.\<close>

definition msg_copy_to :: "bmem \<Rightarrow> nat \<Rightarrow> msg \<Rightarrow> bmem" where
  "msg_copy_to m a other =
     mem_write (mem_write m a (take (unat (full_sz other - data_len other)) (msg_bytes other)))
       (a + sizeof_raw_msg_t) (get_data other)"

section \<open>Transfer routines\<close>

text \<open>
  \<open>ret\<close> is what \<open>sendto\<close> returned; on success the bytes handed to the raw socket are the result.
  For \<open>recvfrom\<close> the argument is \<open>None\<close> for a negative return value, else the received bytes.
\<close>

definition transfer_send_to :: "int \<Rightarrow> msg \<Rightarrow> (sockaddr_in \<times> u8 list) res" where
  "transfer_send_to ret m =
     (if word_of_int ret \<noteq> tcp_data_sz m
      then (if ret < 0 then Inl (Fuck ''tranfer_send_to : internal error'')
            else Inl (Fuck ''tranfer_send_to : sent size  != accepted sent size''))
      else Inr (get_dest_addr m, tcp_data m))"

definition transfer_recvfrom :: "u8 list option \<Rightarrow> msg \<Rightarrow> msg res" where
  "transfer_recvfrom r m =
     (case r of
        None \<Rightarrow> Inl (Fuck ''tranfer_recvfrom : internal error'')
      | Some bs \<Rightarrow>
          (let got = take (unat (packet_sz m)) bs;
               img = mem_write (mem_write (\<lambda>_. 0) 0 (packet_bytes (packet m))) 0 got;
               m' = m\<lparr>packet := load_packet img 0 (length (pbuf (packet m)))\<rparr>
           in Inr (set_data_len (word_of_nat (length got) - header_len) m')))"

section \<open>Lemmas\<close>

lemma length_le [simp]: "length (le16 w) = 2" "length (le32 x) = 4" "length (le64 y) = 8"
  by (simp_all add: le16_def le32_def le64_def)

lemma length_iphdr_bytes [simp]: "length (iphdr_bytes h) = 20"
  by (simp add: iphdr_bytes_def)

lemma length_TCPHDR_bytes [simp]: "length (TCPHDR_bytes t) = 36"
  by (simp add: TCPHDR_bytes_def tcphdr_bytes_def)

lemma length_packet_bytes [simp]: "length (packet_bytes p) = 56 + length (pbuf p)"
  by (simp add: packet_bytes_def)

lemma length_msg_bytes [simp]: "length (msg_bytes x) = 72 + length (pbuf (packet x))"
  by (simp add: msg_bytes_def)

lemma ld16_holds: "mem_holds m a (le16 w) \<Longrightarrow> ld16 m a = w"
  using unat_u16_bound [of w]
  by (simp add: mem_holds_def ld16_def le16_def le_to_nat_to_le)

lemma ld32_holds: "mem_holds m a (le32 w) \<Longrightarrow> ld32 m a = w"
  using unat_u32_bound [of w]
  by (simp add: mem_holds_def ld32_def le32_def le_to_nat_to_le)

lemma ld64_holds: "mem_holds m a (le64 w) \<Longrightarrow> ld64 m a = w"
  using unat_u64_bound [of w]
  by (simp add: mem_holds_def ld64_def le64_def le_to_nat_to_le)

lemmas ld_holds = ld16_holds ld32_holds ld64_holds

lemma load_iphdr_holds: "mem_holds m a (iphdr_bytes h) \<Longrightarrow> load_iphdr m a = h"
  by (cases h) (simp add: iphdr_bytes_def load_iphdr_def ld_holds numeral_eq_Suc)

lemma load_TCPHDR_holds: "mem_holds m a (TCPHDR_bytes t) \<Longrightarrow> load_TCPHDR m a = t"
  by (cases t, cases "hdr t")
    (simp add: TCPHDR_bytes_def tcphdr_bytes_def load_TCPHDR_def load_tcphdr_def ld_holds
      numeral_eq_Suc)

lemma load_packet_holds:
  "mem_holds m a (packet_bytes p) \<Longrightarrow> n = length (pbuf p) \<Longrightarrow> load_packet m a n = p"
  by (cases p) (simp add: packet_bytes_def load_packet_def load_iphdr_holds load_TCPHDR_holds
      sizeof_defs, simp add: mem_holds_def add.commute)

lemma load_msg_holds:
  "mem_holds m a (msg_bytes x) \<Longrightarrow> length (pbuf (packet x)) = unat (buf_len x) \<Longrightarrow> load_msg m a = x"
  by (cases x) (auto simp: msg_bytes_def load_msg_def add.commute dest!: ld64_holds
      intro: load_packet_holds)

text \<open>
  A message whose payload array has the recorded length, whose data fits in it, and whose sizes
  stay far from the 64-bit limit, as every message built by the code does.
\<close>

definition msg_ok :: "msg \<Rightarrow> bool" where
  "msg_ok m \<longleftrightarrow> length (pbuf (packet m)) = unat (buf_len m) \<and> unat (data_len m) \<le> unat (buf_len m) \<and>
     unat (buf_len m) < 2 ^ 62"

lemmas msg_access_defs = map_hdr_def map_tcph_def map_iph_def msg_hdr_def set_flag_def
  get_seq_def set_seq_def get_ack_seq_def set_ack_seq_def get_window_sz_def set_window_sz_def
  get_chsum_def set_chsum_def get_sender_timestamp_def set_sender_timestamp_def
  get_recv_timestamp_def set_recv_timestamp_def get_dest_addr_def set_dest_addr_def
  get_src_addr_def set_src_addr_def is_fin_def is_syn_def is_rst_def is_ack_def
  set_fin_def set_syn_def set_rst_def set_ack_def

lemma unat_packet_sz: "unat (data_len m) < 9223372036854775808 \<Longrightarrow> unat (packet_sz m) = 56 + unat (data_len m)"
  using unat_plus_no_wrap [of "56 :: u64" "data_len m"] by (simp add: packet_sz_def sizeof_defs)

lemma unat_tcp_data_sz: "unat (data_len m) < 9223372036854775808 \<Longrightarrow> unat (tcp_data_sz m) = 36 + unat (data_len m)"
  using unat_plus_no_wrap [of "36 :: u64" "data_len m"] by (simp add: tcp_data_sz_def sizeof_defs)

lemma tcp_data_eq:
  "unat (data_len m) < 9223372036854775808 \<Longrightarrow> tcp_data m = TCPHDR_bytes (tcph (packet m)) @ get_data m"
  by (simp add: tcp_data_def unat_tcp_data_sz get_data_def)

lemma packet_data_eq:
  "unat (data_len m) < 9223372036854775808 \<Longrightarrow>
     packet_data m = iphdr_bytes (iph (packet m)) @ TCPHDR_bytes (tcph (packet m)) @ get_data m"
  by (simp add: packet_data_def unat_packet_sz packet_bytes_def get_data_def)

lemma msg_ok_data_len: "msg_ok m \<Longrightarrow> unat (data_len m) < 9223372036854775808"
  by (simp add: msg_ok_def)

lemma length_get_data: "msg_ok m \<Longrightarrow> length (get_data m) = unat (data_len m)"
  by (simp add: msg_ok_def get_data_def)

lemma msg_copy_to_full:
  assumes "length (pbuf (packet x)) = unat (buf_len x)" and "data_len x = buf_len x"
  shows "msg_copy_to m a x = mem_write m a (msg_bytes x)"
proof -
  have split: "msg_bytes x = take 72 (msg_bytes x) @ pbuf (packet x)"
    by (simp add: msg_bytes_def packet_bytes_def)
  have "mem_write m a (msg_bytes x) =
      mem_write (mem_write m a (take 72 (msg_bytes x))) (a + 72) (pbuf (packet x))"
    by (subst split, subst mem_write_append) simp
  then show ?thesis
    using assms by (simp add: msg_copy_to_def get_data_def full_sz_def full_sz_no_obj_def sizeof_defs)
qed

text \<open>The data length that \<open>transfer_recvfrom\<close> records.\<close>

lemma transfer_recvfrom_data_len:
  assumes "transfer_recvfrom (Some bs) m = Inr m'" and "56 + unat (data_len m) < 2 ^ 64"
    and "length bs \<le> 56 + unat (data_len m)"
  shows "data_len m' = word_of_nat (length bs) - 56"
proof -
  have "unat (packet_sz m) = 56 + unat (data_len m)"
    using assms(2) unat_plus_no_wrap [of "56 :: u64" "data_len m"]
    by (simp add: packet_sz_def sizeof_defs)
  with assms show ?thesis
    by (auto simp: transfer_recvfrom_def Let_def set_data_len_def header_len_def sizeof_defs)
qed

section \<open>Properties\<close>

text \<open>
  a message stored in memory is read back unchanged: the in-place view of the byte image of
  a message is that message, whatever memory surrounds it.
\<close>

theorem load_store_msg:
  assumes "length (pbuf (packet x)) = unat (buf_len x)" and "data_len x = buf_len x"
  shows "load_msg (msg_copy_to m a x) a = x"
  using assms by (simp add: msg_copy_to_full load_msg_holds mem_holds_write)

theorem load_store_msg_witness:
  "load_msg (msg_copy_to (\<lambda>_. 7) 40 (set_seq 9 (tmp_msg [1, 2, 3]))) 40 = set_seq 9 (tmp_msg [1, 2, 3])"
  by (rule load_store_msg) (simp_all add: tmp_msg_def zero_packet_def msg_access_defs)

text \<open>
  what one socket hands to the network arrives at the other. When the kernel delivers the sent
  bytes behind an IP header, \<open>transfer_recvfrom\<close> into a large enough buffer yields a message with
  the same transport header, the same payload and the addresses of the IP header.
\<close>

theorem transfer_roundtrip:
  assumes "msg_ok m" and "transfer_send_to ret m = Inr (dest, bs)"
    and "msg_ok r" and "data_len r = buf_len r" and "unat (data_len m) \<le> unat (buf_len r)"
  shows "\<exists>r'. transfer_recvfrom (Some (iphdr_bytes h @ bs)) r = Inr r' \<and>
    tcph (packet r') = tcph (packet m) \<and> iph (packet r') = h \<and>
    get_data r' = get_data m \<and> data_len r' = data_len m \<and> msg_ok r'"
proof -
  have bs: "bs = TCPHDR_bytes (tcph (packet m)) @ get_data m"
    using assms(1,2) by (auto simp: transfer_send_to_def tcp_data_eq msg_ok_data_len split: if_splits)
  let ?got = "iphdr_bytes h @ TCPHDR_bytes (tcph (packet m)) @ get_data m"
  let ?img = "mem_write (mem_write (\<lambda>_. 0) 0 (packet_bytes (packet r))) 0 ?got"
  let ?n = "length (pbuf (packet r))"
  have len: "length ?got = 56 + unat (data_len m)"
    using assms(1) by (simp add: length_get_data)
  have fits: "take (unat (packet_sz r)) ?got = ?got"
    using assms len by (simp add: unat_packet_sz msg_ok_def)
  have holds: "mem_holds ?img 0 ?got" by (rule mem_holds_write)
  have "load_iphdr ?img 0 = h" and "load_TCPHDR ?img 20 = tcph (packet m)"
    and "mem_holds ?img 56 (get_data m)"
    using holds by (simp_all add: load_iphdr_holds load_TCPHDR_holds)
  moreover have dl: "(word_of_nat (56 + unat (data_len m)) :: u64) - header_len = data_len m"
    by (simp add: header_len_def sizeof_defs)
  let ?r' = "set_data_len (data_len m) (r\<lparr>packet := load_packet ?img 0 ?n\<rparr>)"
  have "transfer_recvfrom (Some (iphdr_bytes h @ bs)) r = Inr ?r'"
    unfolding transfer_recvfrom_def bs option.case Let_def fits len dl ..
  moreover have "unat (data_len m) \<le> ?n" using assms by (simp add: msg_ok_def)
  ultimately show ?thesis
    using assms(1,3,5) by (simp add: load_packet_def set_data_len_def sizeof_defs msg_ok_def
        mem_holds_def) (simp add: get_data_def)
qed

theorem transfer_roundtrip_witness:
  "\<exists>r'. transfer_recvfrom (Some (iphdr_bytes zero_iphdr @ tcp_data (msg_new (Some [1, 2]) 2))) (msg_new None 4) = Inr r' \<and>
    tcph (packet r') = tcph (packet (msg_new (Some [1, 2]) 2)) \<and> iph (packet r') = zero_iphdr \<and>
    get_data r' = get_data (msg_new (Some [1, 2]) 2) \<and> data_len r' = data_len (msg_new (Some [1, 2]) 2) \<and>
    msg_ok r'"
proof (rule transfer_roundtrip)
  let ?m = "msg_new (Some [1, 2]) 2"
  show "msg_ok ?m" "msg_ok (msg_new None 4)" "data_len (msg_new None 4) = buf_len (msg_new None 4)"
    "unat (data_len ?m) \<le> unat (buf_len (msg_new None 4))"
    by (simp_all add: msg_ok_def msg_new_def zero_packet_def)
  show "transfer_send_to 38 ?m = Inr (get_dest_addr ?m, tcp_data ?m)"
    by (simp add: transfer_send_to_def tcp_data_sz_def msg_new_def sizeof_defs)
qed

lemma transfer_recvfrom_short_len:
  assumes "transfer_recvfrom (Some bs) r = Inr r'" and "msg_ok r" and "length bs < 56"
  shows "unat (data_len r') = 2 ^ 64 - (56 - length bs)"
proof -
  have "data_len r' = word_of_nat (length bs) - 56"
    using assms by (intro transfer_recvfrom_data_len) (auto simp: msg_ok_def)
  moreover have "unat (word_of_nat (length bs) :: u64) = length bs"
    using assms(3) by (intro unat_word_of_nat_u64) simp
  ultimately show ?thesis
    using assms(3) by (simp add: unat_sub_if')
qed

text \<open>
  a datagram shorter than the 56 header bytes is not refused: the recorded data length wraps
  around to almost 2^64.
\<close>

theorem transfer_recvfrom_short_wraps:
  assumes "transfer_recvfrom (Some bs) r = Inr r'" and "msg_ok r" and "length bs < 56"
  shows "unat (data_len r') = 2 ^ 64 - (56 - length bs)"
  using assms by (rule transfer_recvfrom_short_len)

theorem transfer_recvfrom_short_wraps_witness:
  "\<exists>r'. transfer_recvfrom (Some (replicate 40 0)) (msg_new None 4) = Inr r' \<and>
     unat (data_len r') = 2 ^ 64 - 16"
proof -
  obtain r' where r': "transfer_recvfrom (Some (replicate 40 0)) (msg_new None 4) = Inr r'"
    by (simp add: transfer_recvfrom_def Let_def)
  moreover have "msg_ok (msg_new None 4)"
    by (simp add: msg_ok_def msg_new_def zero_packet_def)
  ultimately have "unat (data_len r') = 2 ^ 64 - (56 - length (replicate 40 (0::u8)))"
    by (rule transfer_recvfrom_short_wraps) simp
  with r' show ?thesis by auto
qed

end
