(* ===== verification/Engine.thy ===== *)
theory Engine
  imports Proto_Msg "HOL-Library.Signed_Division"
begin

text \<open>
  The routines of \<open>src/tcp_engine.cpp\<close> that compute: the Internet checksum \<open>chsum\<close>, the label
  under which a socket's shared memory, lock and queue are found, address filling and comparison,
  the smallest MTU of the bound interfaces and the clock conversions. Operating-system calls
  (\<open>ioctl\<close>, \<open>inet_addr\<close>) are arguments.
\<close>

section \<open>Checksum\<close>

text \<open>The loop of \<open>chsum\<close>: 16-bit words in host order, a trailing byte added as it is.\<close>

fun chsum_acc :: "u64 \<Rightarrow> u8 list \<Rightarrow> u64" where
  "chsum_acc c (a # b # bs) = chsum_acc (c + word_of_nat (unat a + 256 * unat b)) bs"
| "chsum_acc c [a] = c + ucast a"
| "chsum_acc c [] = c"

definition chsum :: "u8 list \<Rightarrow> u16" where
  "chsum bs =
     (let c = chsum_acc 0 bs;
          c1 = drop_bit 16 c + (c AND 0xffff);
          c2 = c1 + drop_bit 16 c1
      in ucast (NOT c2))"

section \<open>Addresses and labels\<close>

definition htons :: "u16 \<Rightarrow> u16" where
  "htons w = push_bit 8 w OR drop_bit 8 w"

definition ntohs :: "u16 \<Rightarrow> u16" where
  "ntohs w = htons w"

definition INADDR_ANY :: u32 where "INADDR_ANY = 0"

definition addr_comparable :: "sockaddr_in \<Rightarrow> sockaddr_in \<Rightarrow> bool" where
  "addr_comparable a b \<longleftrightarrow> sin_addr a = sin_addr b \<and> sin_port a = sin_port b"

definition fill_param :: "(string \<Rightarrow> u32) \<Rightarrow> string \<Rightarrow> u16 \<Rightarrow> sockaddr_in" where
  "fill_param inet_addr addr port =
     \<lparr>sin_family = AF_INET, sin_addr = inet_addr addr, sin_port = htons port\<rparr>"

definition fill_param_self :: "u16 \<Rightarrow> sockaddr_in" where
  "fill_param_self port = \<lparr>sin_family = AF_INET, sin_addr = INADDR_ANY, sin_port = htons port\<rparr>"

fun show_nat :: "nat \<Rightarrow> string" where
  "show_nat n = (if n < 10 then [char_of (48 + n)] else show_nat (n div 10) @ [char_of (48 + n mod 10)])"

declare show_nat.simps [simp del]

text \<open>\<open>inet_ntoa\<close>: the four bytes of the address in memory order, in decimal, dotted.\<close>

definition addr_byte :: "u32 \<Rightarrow> nat \<Rightarrow> nat" where
  "addr_byte a i = unat a div 256 ^ i mod 256"

definition inet_ntoa :: "u32 \<Rightarrow> string" where
  "inet_ntoa a = show_nat (addr_byte a 0) @ ''.'' @ show_nat (addr_byte a 1) @ ''.'' @
     show_nat (addr_byte a 2) @ ''.'' @ show_nat (addr_byte a 3)"

definition SOCK_SHMEM_PREFIX :: string where "SOCK_SHMEM_PREFIX = ''/sock-''"

definition sock_label :: "socket_identify \<Rightarrow> string" where
  "sock_label sid = SOCK_SHMEM_PREFIX @ inet_ntoa (sin_addr (in_addr sid)) @ ''.'' @
     show_nat (unat (ntohs (sin_port (in_addr sid)))) @ ''-'' @
     inet_ntoa (sin_addr (out_addr sid)) @ ''.'' @ show_nat (unat (ntohs (sin_port (out_addr sid))))"

section \<open>MTU of the bound interfaces\<close>

text \<open>One entry of \<open>getifaddrs\<close>; \<open>ifa_addr\<close> is \<open>None\<close> for a null pointer.\<close>

record ifaddrs =
  ifa_name :: "string option"
  ifa_addr :: "(u16 \<times> u32) option"

definition mtu_if :: "(string \<Rightarrow> int option) \<Rightarrow> string \<Rightarrow> int res" where
  "mtu_if ioctl name =
     (case ioctl name of None \<Rightarrow> Inl (Fuck ''failed SIOCGIFMTU to sock '') | Some v \<Rightarrow> Inr v)"

definition if_bound :: "sockaddr_in \<Rightarrow> ifaddrs \<Rightarrow> string option" where
  "if_bound bind_addr ifa =
     (case ifa_addr ifa of
        None \<Rightarrow> None
      | Some (family, a) \<Rightarrow>
          if sin_family bind_addr = family \<and> (sin_addr bind_addr = INADDR_ANY \<or> a = sin_addr bind_addr)
          then ifa_name ifa else None)"

fun mtu_binded :: "(string \<Rightarrow> int option) \<Rightarrow> sockaddr_in \<Rightarrow> ifaddrs list \<Rightarrow> int \<Rightarrow> int res" where
  "mtu_binded ioctl bind_addr [] max_mtu = Inr max_mtu"
| "mtu_binded ioctl bind_addr (ifa # rest) max_mtu =
     (case if_bound bind_addr ifa of
        None \<Rightarrow> mtu_binded ioctl bind_addr rest max_mtu
      | Some name \<Rightarrow>
          (case mtu_if ioctl name of
             Inl e \<Rightarrow> Inl e
           | Inr v \<Rightarrow> mtu_binded ioctl bind_addr rest (min max_mtu v)))"

section \<open>Clock conversions\<close>

record timeval =
  tv_sec :: int
  tv_usec :: int

record timespec =
  ts_sec :: int
  ts_nsec :: int

text \<open>\<open>duration_cast\<close> truncates towards zero.\<close>

definition convert_to_timeval :: "int \<Rightarrow> timeval" where
  "convert_to_timeval ms =
     (let s = ms sdiv 1000 in \<lparr>tv_sec = s, tv_usec = ms * 1000 - s * 1000000\<rparr>)"

definition convert_to_timespec :: "int \<Rightarrow> timespec" where
  "convert_to_timespec ms =
     (let s = ms sdiv 1000 in \<lparr>ts_sec = s, ts_nsec = ms * 1000000 - s * 1000000000\<rparr>)"

section \<open>Lemmas on the checksum\<close>

text \<open>The sum the loop computes, and its end-around-carry form.\<close>

fun raw_sum :: "u8 list \<Rightarrow> nat" where
  "raw_sum (a # b # bs) = unat a + 256 * unat b + raw_sum bs"
| "raw_sum [a] = unat a"
| "raw_sum [] = 0"

definition fold16 :: "nat \<Rightarrow> nat" where
  "fold16 s = (if s = 0 then 0 else (s - 1) mod 65535 + 1)"

lemma raw_sum_bound: "raw_sum bs \<le> 65535 * ((length bs + 1) div 2)"
proof (induction bs rule: raw_sum.induct)
  case (1 a b bs)
  have "unat a \<le> 255" "unat b \<le> 255" using unat_u8_bound [of a] unat_u8_bound [of b] by linarith+
  with "1.IH" show ?case by simp
next
  case (2 a)
  then show ?case using unat_u8_bound [of a] by simp
qed simp

lemma unat_chsum_acc:
  "unat c + raw_sum bs < 2 ^ 64 \<Longrightarrow> unat (chsum_acc c bs) = unat c + raw_sum bs"
proof (induction c bs rule: chsum_acc.induct)
  case (1 c a b bs)
  let ?w = "word_of_nat (unat a + 256 * unat b) :: u64"
  have w: "unat ?w = unat a + 256 * unat b"
    using unat_u8_bound [of a] unat_u8_bound [of b] by (intro unat_word_of_nat_u64) linarith
  have "unat (c + ?w) = unat c + unat ?w"
    using "1.prems" w by (intro unat_plus_no_wrap) simp
  then show ?case using "1.IH" "1.prems" w by simp
next
  case (2 c a)
  have "unat (ucast a :: u64) = unat a"
    using unat_u8_bound [of a] by (simp add: unsigned_ucast_eq take_bit_nat_eq_self)
  then show ?case using "2.prems" unat_plus_no_wrap [of c "ucast a"] by simp
qed simp

lemma unat_low16: "unat (c AND 0xffff :: u64) = unat c mod 65536"
proof -
  have "(0xffff :: u64) = mask 16" by (simp add: mask_eq_exp_minus_1)
  then have "c AND 0xffff = take_bit 16 c" by (simp only: take_bit_eq_mask)
  then show ?thesis by (simp add: take_bit_eq_mod unat_mod_distrib)
qed

lemma unat_high16: "unat (drop_bit 16 c :: u64) = unat c div 65536"
  by (simp add: drop_bit_eq_div unat_div_distrib)

lemma fold16_carry:
  assumes "s < 4294967296"
  shows "(let c1 = s div 65536 + s mod 65536 in (c1 + c1 div 65536) mod 65536) = fold16 s"
proof -
  let ?c = "s div 65536 + s mod 65536"
  have le: "?c \<le> 131070" using assms by (simp add: div_less_dividend)
  have s: "s = ?c + 65535 * (s div 65536)"
    using div_mult_mod_eq [of s 65536] by linarith
  have low: "(?c + ?c div 65536) mod 65536 = (if ?c < 65536 then ?c else ?c - 65535)"
  proof (cases "?c < 65536")
    case False
    then obtain k where k: "?c = 65536 + k" by (metis le_Suc_ex not_less)
    with le have "k < 65536" by simp
    then have "(65536 + k) div 65536 = 1" using div_add_self1 [of 65536 k] by simp
    then have e: "?c + ?c div 65536 = 65536 + Suc k" unfolding k by simp
    have "(65536 + Suc k) mod 65536 = Suc k" using k le by (subst mod_add_self1) simp
    then have "(?c + ?c div 65536) mod 65536 = Suc k" unfolding e .
    moreover have "?c - 65535 = Suc k" using k by simp
    ultimately show ?thesis using False by simp
  qed simp
  have "fold16 s = (if ?c < 65536 then ?c else ?c - 65535)"
  proof (cases "s = 0")
    case False
    with s have "?c \<noteq> 0" by auto
    then obtain j where j: "?c = Suc j" by (cases ?c) auto
    then have "s - 1 = j + 65535 * (s div 65536)" using s by linarith
    then have "(s - 1) mod 65535 = j mod 65535" by (metis mod_mult_self2)
    moreover have "j mod 65535 = (if j < 65535 then j else j - 65535)"
    proof (cases "j < 65535")
      case False
      then obtain k where "j = 65535 + k" by (metis le_Suc_ex not_less)
      with j le show ?thesis by simp
    qed simp
    ultimately show ?thesis using False j by (auto simp: fold16_def)
  qed (simp add: fold16_def)
  with low show ?thesis by (simp add: Let_def)
qed

lemma ucast_NOT: "(ucast (NOT c) :: u16) = NOT (ucast (c :: u64))"
  by (rule bit_word_eqI) (simp add: bit_simps)

lemma chsum_fold16:
  assumes "length bs \<le> 131070"
  shows "unat (NOT (chsum bs)) = fold16 (raw_sum bs)"
proof -
  have "raw_sum bs \<le> 65535 * ((length bs + 1) div 2)" by (rule raw_sum_bound)
  also have "\<dots> \<le> 65535 * 65535" using assms by simp
  finally have s: "raw_sum bs < 4294967296" by simp
  let ?c = "chsum_acc 0 bs"
  have c: "unat ?c = raw_sum bs" using unat_chsum_acc [of 0 bs] s by simp
  let ?c1 = "drop_bit 16 ?c + (?c AND 0xffff)"
  have "raw_sum bs div 65536 < 65536" using s by simp
  then have c1: "unat ?c1 = raw_sum bs div 65536 + raw_sum bs mod 65536" (is "_ = ?n1")
    using unat_plus_no_wrap [of "drop_bit 16 ?c" "?c AND 0xffff"]
    by (simp add: unat_low16 unat_high16 c)
  have n1: "?n1 < 131072" using \<open>raw_sum bs div 65536 < 65536\<close> by simp
  have "unat (?c1 + drop_bit 16 ?c1) = ?n1 + ?n1 div 65536"
    using unat_plus_no_wrap [of ?c1 "drop_bit 16 ?c1"] n1 by (simp add: unat_high16 c1)
  then have "unat (ucast (?c1 + drop_bit 16 ?c1) :: u16) = (?n1 + ?n1 div 65536) mod 65536"
    by (simp add: unsigned_ucast_eq take_bit_eq_mod)
  then show ?thesis
    using fold16_carry [OF s] by (simp add: chsum_def Let_def ucast_NOT)
qed

lemma fold16_eq_iff: "fold16 s = fold16 t \<Longrightarrow> s mod 65535 = t mod 65535"
proof -
  have *: "fold16 u mod 65535 = u mod 65535" for u
    by (cases "u = 0") (auto simp: fold16_def mod_Suc_eq)
  assume "fold16 s = fold16 t"
  then show ?thesis by (metis *)
qed

lemma raw_sum_update:
  "i < length bs \<Longrightarrow> int (raw_sum (bs[i := b])) =
     int (raw_sum bs) + (if even i then 1 else 256) * (int (unat b) - int (unat (bs ! i)))"
proof (induction bs arbitrary: i rule: raw_sum.induct)
  case (1 x y bs)
  show ?case
  proof (cases "i < 2")
    case True
    then consider "i = 0" | "i = 1" by linarith
    then show ?thesis by cases simp_all
  next
    case False
    then obtain j where j: "i = Suc (Suc j)" by (metis One_nat_def Suc_1 add_2_eq_Suc le_Suc_ex not_less)
    with "1.prems" "1.IH" [of j] show ?thesis by simp
  qed
qed auto

lemma chsum_update_neq:
  assumes "length bs \<le> 131070" and "i < length bs" and "b \<noteq> bs ! i"
  shows "chsum (bs[i := b]) \<noteq> chsum bs"
proof
  assume "chsum (bs[i := b]) = chsum bs"
  then have "fold16 (raw_sum (bs[i := b])) = fold16 (raw_sum bs)"
    using assms(1) chsum_fold16 [of bs] chsum_fold16 [of "bs[i := b]"] by simp
  then have "raw_sum (bs[i := b]) mod 65535 = raw_sum bs mod 65535" by (rule fold16_eq_iff)
  then have "int (raw_sum (bs[i := b])) mod 65535 = int (raw_sum bs) mod 65535"
    by (metis of_nat_numeral zmod_int)
  then have dvd: "65535 dvd (int (raw_sum (bs[i := b])) - int (raw_sum bs))"
    by (rule mod_eq_dvd_iff [THEN iffD1])
  let ?d = "int (unat b) - int (unat (bs ! i))"
  have nz: "?d \<noteq> 0" using assms(3) by (simp add: word_uint_eq_iff)
  let ?x = "(if even i then 1 else 256) * ?d"
  have "\<bar>?d\<bar> \<le> 255" using unat_u8_bound [of b] unat_u8_bound [of "bs ! i"] by linarith
  then have small: "\<bar>?x\<bar> < 65535" by (auto simp: abs_mult)
  have "int (raw_sum (bs[i := b])) - int (raw_sum bs) = ?x"
    using raw_sum_update [OF assms(2), of b] by simp
  with dvd have "65535 dvd ?x" by simp
  moreover have "?x \<noteq> 0" using nz by simp
  ultimately show False using small dvd_imp_le_int [of ?x 65535] by simp
qed

section \<open>Lemmas on labels\<close>

fun read_nat :: "nat \<Rightarrow> string \<Rightarrow> nat" where
  "read_nat acc [] = acc"
| "read_nat acc (c # cs) = read_nat (acc * 10 + (of_char c - 48)) cs"

lemma read_nat_append: "read_nat acc (xs @ ys) = read_nat (read_nat acc xs) ys"
  by (induction xs arbitrary: acc) auto

lemma digit_of_char: "d < 10 \<Longrightarrow> (of_char (char_of (48 + d) :: char) :: nat) = 48 + d"
  by simp

lemma read_show_nat: "read_nat 0 (show_nat n) = n"
proof (induction n rule: show_nat.induct)
  case (1 n)
  then show ?case
    by (subst show_nat.simps) (auto simp: read_nat_append digit_of_char)
qed

lemma show_nat_inject [simp]: "show_nat m = show_nat n \<longleftrightarrow> m = n"
  by (metis read_show_nat)

lemma show_nat_digits: "c \<in> set (show_nat n) \<Longrightarrow> \<exists>d < 10. c = char_of (48 + d :: nat)"
proof (induction n rule: show_nat.induct)
  case (1 n)
  then show ?case
    by (cases "n < 10") (auto simp: show_nat.simps [of n] intro: exI [of _ "n mod 10"])
qed

lemma show_nat_no_sep: "CHR ''.'' \<notin> set (show_nat n)" "CHR ''-'' \<notin> set (show_nat n)"
proof -
  have "of_char c \<noteq> (46 :: nat) \<and> of_char c \<noteq> (45 :: nat)" if "c \<in> set (show_nat n)" for c
    using show_nat_digits [OF that] digit_of_char by auto
  moreover have "of_char CHR ''.'' = (46 :: nat)" "of_char CHR ''-'' = (45 :: nat)" by simp_all
  ultimately show "CHR ''.'' \<notin> set (show_nat n)" "CHR ''-'' \<notin> set (show_nat n)" by metis+
qed

text \<open>Strings joined by a separator that occurs in neither head split in one way only.\<close>

lemma sep_inject:
  "c \<notin> set xs \<Longrightarrow> c \<notin> set ys \<Longrightarrow> xs @ c # xs' = ys @ c # ys' \<longleftrightarrow> xs = ys \<and> xs' = ys'"
proof (induction xs arbitrary: ys)
  case Nil
  then show ?case by (cases ys) auto
next
  case (Cons x xs)
  then show ?case by (cases ys) auto
qed

lemma addr_bytes_inject:
  assumes "\<forall>i < 4. addr_byte a i = addr_byte b i"
  shows "a = b"
proof -
  have *: "unat x = addr_byte x 0 + 256 * (addr_byte x 1 + 256 * (addr_byte x 2 + 256 * addr_byte x 3))"
    for x :: u32
  proof -
    let ?n = "unat x"
    have d: "?n div 65536 = ?n div 256 div 256" "?n div 16777216 = ?n div 256 div 256 div 256"
      by (simp_all flip: div_mult2_eq)
    have "?n div 16777216 < 256" using unat_u32_bound [of x] by simp
    then have "addr_byte x 3 = ?n div 256 div 256 div 256"
      by (simp add: addr_byte_def d)
    then show ?thesis
      using div_mult_mod_eq [of ?n 256] div_mult_mod_eq [of "?n div 256" 256]
        div_mult_mod_eq [of "?n div 256 div 256" 256]
      by (simp add: addr_byte_def d)
  qed
  have "unat a = unat b" unfolding * [of a] * [of b] using assms by simp
  then show ?thesis by (simp add: word_unat_eq_iff)
qed

lemma htons_htons [simp]: "htons (htons w) = w"
  by (rule bit_word_eqI) (auto simp: htons_def bit_simps)

lemma htons_inject [simp]: "htons a = htons b \<longleftrightarrow> a = b"
  by (metis htons_htons)

text \<open>An address and a port, printed as the label prints them.\<close>

definition endpoint_string :: "sockaddr_in \<Rightarrow> string" where
  "endpoint_string a = inet_ntoa (sin_addr a) @ ''.'' @ show_nat (unat (ntohs (sin_port a)))"

lemma endpoint_string_inject:
  "endpoint_string a = endpoint_string b \<longleftrightarrow> addr_comparable a b"
proof
  assume "endpoint_string a = endpoint_string b"
  then have "\<forall>i < 4. addr_byte (sin_addr a) i = addr_byte (sin_addr b) i" and "sin_port a = sin_port b"
    by (auto simp: endpoint_string_def inet_ntoa_def sep_inject show_nat_no_sep ntohs_def
        numeral_eq_Suc less_Suc_eq simp flip: word_unat_eq_iff)
  then show "addr_comparable a b" by (auto simp: addr_comparable_def intro: addr_bytes_inject)
qed (simp add: endpoint_string_def addr_comparable_def)

lemma endpoint_string_no_dash: "CHR ''-'' \<notin> set (endpoint_string a)"
  by (simp add: endpoint_string_def inet_ntoa_def show_nat_no_sep)

lemma sock_label_endpoints:
  "sock_label sid = SOCK_SHMEM_PREFIX @ endpoint_string (in_addr sid) @ ''-'' @ endpoint_string (out_addr sid)"
  by (simp add: sock_label_def endpoint_string_def)

section \<open>Properties\<close>

text \<open>
  the checksum detects every change of a single byte, for every buffer up to the size at which
  the 32-bit folding is exact (131070 bytes, twice the largest packet).
\<close>

theorem chsum_detects_byte_change:
  assumes "length bs \<le> 131070" and "i < length bs" and "b \<noteq> bs ! i"
  shows "chsum (bs[i := b]) \<noteq> chsum bs"
  using assms by (rule chsum_update_neq)

theorem chsum_detects_byte_change_witness:
  "chsum ([1, 2, 3][1 := 9]) \<noteq> chsum [1, 2, 3]"
  by (rule chsum_detects_byte_change) simp_all

text \<open>
  \<open>chsum\<close> is the complement of the end-around-carry sum of the 16-bit words: the reference
  definition of the Internet checksum.
\<close>

theorem chsum_is_ones_complement_sum:
  assumes "length bs \<le> 131070"
  shows "unat (NOT (chsum bs)) = (if raw_sum bs = 0 then 0 else (raw_sum bs - 1) mod 65535 + 1)"
  using chsum_fold16 [OF assms] by (simp add: fold16_def)

theorem chsum_is_ones_complement_sum_witness:
  "unat (NOT (chsum [255, 255, 1])) = (if raw_sum [255, 255, 1] = 0 then 0 else (raw_sum [255, 255, 1] - 1) mod 65535 + 1)"
  by (rule chsum_is_ones_complement_sum) simp

text \<open>
  two socket identities have the same label exactly when their local and remote addresses and
  ports agree, so different connections never share memory, lock or queue.
\<close>

theorem sock_label_injective:
  "sock_label a = sock_label b \<longleftrightarrow>
     addr_comparable (in_addr a) (in_addr b) \<and> addr_comparable (out_addr a) (out_addr b)"
  by (simp add: sock_label_endpoints sep_inject endpoint_string_no_dash endpoint_string_inject)

text \<open>
  when \<open>mtu_binded\<close> succeeds, its result is the smallest of the given bound and the MTUs of the
  interfaces that match the bound address; it fails exactly because such an interface does not
  answer.
\<close>

theorem mtu_binded_min:
  "case mtu_binded ioctl a ifs mx of
     Inl e \<Rightarrow> \<exists>ifa \<in> set ifs. \<exists>name. if_bound a ifa = Some name \<and> ioctl name = None
   | Inr r \<Rightarrow> r \<le> mx \<and>
       (\<forall>ifa \<in> set ifs. \<forall>name. if_bound a ifa = Some name \<longrightarrow> (\<exists>v \<ge> r. ioctl name = Some v)) \<and>
       (r = mx \<or> (\<exists>ifa \<in> set ifs. \<exists>name. if_bound a ifa = Some name \<and> ioctl name = Some r))"
proof (induction ifs arbitrary: mx)
  case (Cons ifa ifs)
  show ?case
  proof (cases "if_bound a ifa")
    case None
    with Cons.IH [of mx] show ?thesis by (auto split: sum.splits)
  next
    case (Some name)
    show ?thesis
    proof (cases "ioctl name")
      case None
      with Some show ?thesis by (simp add: mtu_if_def)
    next
      case v: (Some v)
      with Some Cons.IH [of "min mx v"] show ?thesis
        by (auto simp: mtu_if_def min_def split: sum.splits if_splits)
    qed
  qed
qed simp

theorem mtu_binded_min_witness:
  "mtu_binded (\<lambda>n. if n = ''lo'' then Some 65536 else Some 1500) (fill_param_self 80)
     [\<lparr>ifa_name = Some ''lo'', ifa_addr = Some (2, 16777343)\<rparr>,
      \<lparr>ifa_name = Some ''eth0'', ifa_addr = Some (2, 33557514)\<rparr>] 65590 = Inr 1500 \<and> (1500 :: int) \<le> 65590"
proof -
  let ?io = "\<lambda>n. if n = ''lo'' then Some (65536 :: int) else Some 1500"
  let ?ifs = "[\<lparr>ifa_name = Some ''lo'', ifa_addr = Some (2, 16777343)\<rparr>,
      \<lparr>ifa_name = Some ''eth0'', ifa_addr = Some (2, 33557514)\<rparr>]"
  have "mtu_binded ?io (fill_param_self 80) ?ifs 65590 = Inr 1500"
    by (simp add: if_bound_def mtu_if_def fill_param_self_def AF_INET_def)
  then show ?thesis
    using mtu_binded_min [where ioctl = ?io and a = "fill_param_self 80" and ifs = ?ifs and mx = 65590] by simp
qed

text \<open>
  the clock conversions lose nothing and, for a non-negative time, produce a fraction of a
  second in the range the system calls require.
\<close>

theorem clock_conversions_exact:
  assumes "0 \<le> ms"
  shows "ts_sec (convert_to_timespec ms) * 10 ^ 9 + ts_nsec (convert_to_timespec ms) = ms * 10 ^ 6 \<and>
    0 \<le> ts_nsec (convert_to_timespec ms) \<and> ts_nsec (convert_to_timespec ms) < 10 ^ 9 \<and>
    tv_sec (convert_to_timeval ms) * 10 ^ 6 + tv_usec (convert_to_timeval ms) = ms * 10 ^ 3 \<and>
    0 \<le> tv_usec (convert_to_timeval ms) \<and> tv_usec (convert_to_timeval ms) < 10 ^ 6"
proof -
  have "ms sdiv 1000 = ms div 1000"
    using assms by (simp add: signed_divide_int_def sgn_if)
  then show ?thesis
    by (simp add: convert_to_timespec_def convert_to_timeval_def Let_def) linarith
qed

theorem clock_conversions_exact_witness:
  "ts_sec (convert_to_timespec 3456) * 10 ^ 9 + ts_nsec (convert_to_timespec 3456) = 3456 * 10 ^ 6"
  using clock_conversions_exact [of 3456] by simp

end
