(* ===== verification/Chat.thy ===== *)
theory Chat
  imports Engine "HOL-Library.Sublist"
begin

text \<open>
  The chat program of \<open>src/server_chat.cpp\<close> over the contract of \<open>src/stream_socket.h\<close>: messages framed by
  \<open>transf\<close>, the server that hands every message to all its clients, and the client's loop. A stream is
  the list of the bytes that were sent and not yet received.
\<close>

section \<open>The contract of stream_socket\<close>

text \<open>\<open>send\<close> sends everything, \<open>recv\<close> waits (\<open>None\<close>) until it has as many bytes as were asked for.\<close>

type_synonym stream = "u8 list"

definition stream_send :: "u8 list \<Rightarrow> stream \<Rightarrow> stream" where
  "stream_send buf ch = ch @ buf"

definition stream_recv :: "size_t \<Rightarrow> stream \<Rightarrow> (u8 list \<times> stream) option" where
  "stream_recv n ch = (if unat n \<le> length ch then Some (take (unat n) ch, drop (unat n) ch) else None)"

section \<open>transf\<close>

definition transf_raw :: "u8 list \<Rightarrow> u8 list" where
  "transf_raw m = nat_to_le 8 (length m) @ m"

definition transf_send :: "u8 list \<Rightarrow> stream \<Rightarrow> stream" where
  "transf_send m ch = stream_send (transf_raw m) ch"

text \<open>\<open>std::string ret(data)\<close> stops at the first NUL.\<close>

definition c_string :: "u8 list \<Rightarrow> u8 list" where
  "c_string data = takeWhile (\<lambda>b. b \<noteq> 0) data"

text \<open>The length that the peer sent is the size of an allocation: \<open>new char[sz + 1]\<close> wraps to an empty array
  for the largest length, and throws above the address space.\<close>

definition transf_recv :: "stream \<Rightarrow> (u8 list res \<times> stream) option" where
  "transf_recv ch =
     (case stream_recv 8 ch of
        None \<Rightarrow> None
      | Some (h, ch1) \<Rightarrow>
          (let sz = word_of_nat (le_to_nat h) :: size_t
           in if sz + 1 = 0 then Some (Inl Fault, ch1)
              else if 9223372036854775807 < unat (sz + 1) then Some (Inl (Runtime_error ''std::bad_array_new_length''), ch1)
              else case stream_recv sz ch1 of
                     None \<Rightarrow> None
                   | Some (data, ch2) \<Rightarrow> Some (Inr (c_string data), ch2)))"

section \<open>The server\<close>

definition EOFSTR :: "u8 list" where "EOFSTR = [102, 105, 110]"

text \<open>
  A connection of a client: the streams from and to the client, and whether its \<open>serv_thread\<close> runs.
  \<open>cn_joined\<close> and \<open>cn_got\<close> are histories: how many messages the server had handed out when the client
  was accepted, and the messages that the client has received.
\<close>

record conn =
  cn_in :: stream
  cn_out :: stream
  cn_run :: bool
  cn_joined :: nat
  cn_got :: "u8 list list"

text \<open>\<open>sv_lost\<close>: clients that were accepted and then forgotten; \<open>sv_log\<close>: the messages handed out, a history.\<close>

record chat =
  serv_map :: "u32 \<rightharpoonup> conn"
  sv_lost :: "socket_identify list"
  sv_log :: "u8 list list"

text \<open>The state when \<open>serv\<close> enters the loop of \<open>serv_accept\<close>.\<close>

definition serv :: chat where
  "serv = \<lparr>serv_map = Map.empty, sv_lost = [], sv_log = []\<rparr>"

definition client_port :: "socket_identify \<Rightarrow> u32" where
  "client_port sid = ucast (ntohs (sin_port (out_addr sid)))"

definition serv_accept :: "socket_identify \<Rightarrow> chat \<Rightarrow> chat" where
  "serv_accept sid s =
     (let port = client_port sid
      in if serv_map s port = None
         then s\<lparr>serv_map := (serv_map s)(port \<mapsto> \<lparr>cn_in = [], cn_out = [], cn_run = True, cn_joined = length (sv_log s), cn_got = []\<rparr>)\<rparr>
         else s\<lparr>sv_lost := sv_lost s @ [sid]\<rparr>)"

text \<open>The loop over \<open>serv_map\<close>, under the mutex.\<close>

definition broadcast :: "u8 list \<Rightarrow> chat \<Rightarrow> chat" where
  "broadcast ans s =
     s\<lparr>serv_map := (\<lambda>p. map_option (\<lambda>c. c\<lparr>cn_out := transf_send ans (cn_out c)\<rparr>) (serv_map s p)), sv_log := sv_log s @ [ans]\<rparr>"

definition upd_conn :: "u32 \<Rightarrow> (conn \<Rightarrow> conn) \<Rightarrow> chat \<Rightarrow> chat" where
  "upd_conn p f s = s\<lparr>serv_map := (serv_map s)(p := map_option f (serv_map s p))\<rparr>"

text \<open>A turn of the loop of \<open>serv_thread\<close>; an exception ends the server.\<close>

definition serv_thread :: "u32 \<Rightarrow> chat \<Rightarrow> chat res option" where
  "serv_thread p s =
     (case serv_map s p of
        None \<Rightarrow> None
      | Some c \<Rightarrow>
          (if \<not> cn_run c then None
           else case transf_recv (cn_in c) of
                  None \<Rightarrow> None
                | Some (Inl e, rest) \<Rightarrow> Some (Inl e)
                | Some (Inr ret, rest) \<Rightarrow>
                    Some (Inr (broadcast ret (upd_conn p (\<lambda>c. c\<lparr>cn_in := rest, cn_run := ret \<noteq> EOFSTR\<rparr>) s)))))"

section \<open>The client\<close>

text \<open>
  The loop of \<open>client\<close>: \<open>cl_input\<close> are the words on the standard input; when they are used up,
  \<open>std::cin >> next\<close> leaves \<open>next\<close> as it is.
\<close>

datatype clpc = CL_Send | CL_Recv | CL_Exit

record chat_client =
  cl_pc :: clpc
  cl_next :: "u8 list"
  cl_input :: "u8 list list"

definition client_start :: "u8 list list \<Rightarrow> chat_client" where
  "client_start ws = \<lparr>cl_pc = CL_Send, cl_next = [], cl_input = ws\<rparr>"

definition client_loop :: "chat_client \<Rightarrow> conn \<Rightarrow> (chat_client \<times> conn) res option" where
  "client_loop k c =
     (case cl_pc k of
        CL_Send \<Rightarrow>
          (let next = (case cl_input k of [] \<Rightarrow> cl_next k | w # ws \<Rightarrow> w)
           in Some (Inr (k\<lparr>cl_pc := CL_Recv, cl_next := next, cl_input := tl (cl_input k)\<rparr>, c\<lparr>cn_in := transf_send next (cn_in c)\<rparr>)))
      | CL_Recv \<Rightarrow>
          (case transf_recv (cn_out c) of
             None \<Rightarrow> None
           | Some (Inl e, rest) \<Rightarrow> Some (Inl e)
           | Some (Inr ret, rest) \<Rightarrow>
               Some (Inr (k\<lparr>cl_pc := (if cl_next k = EOFSTR then CL_Exit else CL_Send)\<rparr>, c\<lparr>cn_out := rest, cn_got := cn_got c @ [ret]\<rparr>)))
      | CL_Exit \<Rightarrow> None)"

section \<open>main\<close>

text \<open>\<open>atoi\<close>: white space, a sign and digits up to the first other character; a number outside the range of
  \<open>int\<close> has no defined result.\<close>

definition isspace :: "char \<Rightarrow> bool" where
  "isspace c \<longleftrightarrow> of_char c = (32 :: nat) \<or> 9 \<le> (of_char c :: nat) \<and> of_char c \<le> (13 :: nat)"

definition isdigit :: "char \<Rightarrow> bool" where
  "isdigit c \<longleftrightarrow> 48 \<le> (of_char c :: nat) \<and> of_char c \<le> (57 :: nat)"

definition atoi :: "string \<Rightarrow> int res" where
  "atoi s =
     (let t = dropWhile isspace s; num = (\<lambda>ds. int (read_nat 0 (takeWhile isdigit ds)));
          n = (case t of [] \<Rightarrow> 0 | c # ds \<Rightarrow> if c = CHR ''-'' then - num ds else if c = CHR ''+'' then num ds else num t)
      in if - (2 ^ 31) \<le> n \<and> n < 2 ^ 31 then Inr n else Inl Fault)"

text \<open>
  \<open>argv[i]\<close> behind the last argument is a null pointer or no element at all. The role that \<open>main\<close> starts,
  with the addresses that it passes to \<open>serv\<close> and \<open>client\<close>; the conversion of \<open>int\<close> to the 16 bits of a port wraps.
\<close>

datatype chat_role = R_serv sockaddr_in | R_client socket_identify

definition argv_at :: "string list \<Rightarrow> nat \<Rightarrow> string res" where
  "argv_at argv i = (if i < length argv then Inr (argv ! i) else Inl Fault)"

definition argv_port :: "string list \<Rightarrow> nat \<Rightarrow> u16 res" where
  "argv_port argv i = (case argv_at argv i of Inl e \<Rightarrow> Inl e | Inr s \<Rightarrow> (case atoi s of Inl e \<Rightarrow> Inl e | Inr n \<Rightarrow> Inr (word_of_int n)))"

definition main :: "(string \<Rightarrow> u32) \<Rightarrow> string list \<Rightarrow> chat_role res" where
  "main inet_addr argv =
     (case argv_at argv 1 of
        Inl e \<Rightarrow> Inl e
      | Inr role \<Rightarrow>
          (if role = ''serv''
           then case argv_port argv 2 of
                  Inl e \<Rightarrow> Inl e
                | Inr port \<Rightarrow> Inr (R_serv (fill_param inet_addr ''127.0.0.1'' port))
           else case argv_port argv 2 of
                  Inl e \<Rightarrow> Inl e
                | Inr local_port \<Rightarrow>
                    (case argv_port argv 3 of
                       Inl e \<Rightarrow> Inl e
                     | Inr remote_port \<Rightarrow>
                         Inr (R_client \<lparr>in_addr = fill_param inet_addr ''127.0.0.1'' local_port,
                                        out_addr = fill_param inet_addr ''127.0.0.1'' remote_port\<rparr>))))"

section \<open>A room\<close>

text \<open>The server with the clients on its connections; every step is one of the programs' own.\<close>

record room =
  rm_chat :: chat
  rm_client :: "u32 \<Rightarrow> chat_client"

inductive room_step :: "room \<Rightarrow> room \<Rightarrow> bool" where
  accepts: "room_step r (r\<lparr>rm_chat := serv_accept sid (rm_chat r)\<rparr>)"
| serves: "serv_thread p (rm_chat r) = Some (Inr s) \<Longrightarrow> room_step r (r\<lparr>rm_chat := s\<rparr>)"
| client: "serv_map (rm_chat r) p = Some c \<Longrightarrow> client_loop (rm_client r p) c = Some (Inr (k, d)) \<Longrightarrow>
    room_step r (r\<lparr>rm_chat := upd_conn p (\<lambda>_. d) (rm_chat r), rm_client := (rm_client r)(p := k)\<rparr>)"

definition short :: "u8 list \<Rightarrow> bool" where
  "short m \<longleftrightarrow> length m < 4611686018427387904"

definition room_start :: "room \<Rightarrow> bool" where
  "room_start r \<longleftrightarrow> rm_chat r = serv \<and>
     (\<forall>p. \<exists>ws. list_all short ws \<and> rm_client r p = client_start ws)"

section \<open>Lemmas\<close>

lemma c_string_id: "c_string m = m \<longleftrightarrow> 0 \<notin> set m"
  unfolding c_string_def takeWhile_eq_all_conv by metis

lemma c_string_no_nul: "0 \<notin> set (c_string m)"
  unfolding c_string_def by (metis set_takeWhileD)

lemma short_c_string: "short m \<Longrightarrow> short (c_string m)"
  unfolding short_def c_string_def using length_takeWhile_le [of "\<lambda>b. b \<noteq> 0" m] by linarith

lemma transf_recv_raw:
  assumes "short m"
  shows "transf_recv (transf_raw m @ rest) = Some (Inr (c_string m), rest)"
proof -
  let ?n = "word_of_nat (length m) :: size_t"
  have lt: "length m < 4611686018427387904" using assms by (simp add: short_def)
  then have n: "unat ?n = length m" by (simp add: unat_word_of_nat_u64)
  then have n1: "unat (?n + 1) = length m + 1" using lt unat_plus_no_wrap [of ?n 1] by simp
  then have "?n + 1 \<noteq> 0" by (metis add_is_0 one_neq_zero unsigned_0)
  moreover have "le_to_nat (nat_to_le 8 (length m)) = length m" using lt by (simp add: le_to_nat_to_le)
  ultimately show ?thesis using n n1 lt by (simp add: transf_recv_def transf_raw_def stream_recv_def)
qed

lemma transf_recv_empty: "transf_recv [] = None"
  by (simp add: transf_recv_def stream_recv_def)

lemma transf_recv_shorter: "transf_recv ch = Some (r, rest) \<Longrightarrow> length rest < length ch"
  by (auto simp: transf_recv_def stream_recv_def Let_def split: if_splits)

text \<open>The messages that the receiver takes from a stream, until it has to wait.\<close>

function messages :: "stream \<Rightarrow> u8 list list" where
  "messages ch = (case transf_recv ch of Some (Inr m, rest) \<Rightarrow> m # messages rest | _ \<Rightarrow> [])"
  by auto
termination by (relation "measure length") (auto dest: transf_recv_shorter)

declare messages.simps [simp del]

text \<open>A message that has not arrived completely is waited for.\<close>

lemma transf_recv_part:
  assumes "short m" and "strict_prefix ch (transf_raw m)"
  shows "transf_recv ch = None"
proof (cases "length ch < 8")
  case True
  then show ?thesis by (simp add: transf_recv_def stream_recv_def)
next
  case False
  let ?n = "word_of_nat (length m) :: size_t"
  obtain zs where zs: "transf_raw m = ch @ zs" "zs \<noteq> []" using assms(2) by (auto simp: strict_prefix_def prefix_def)
  have lt: "length m < 4611686018427387904" using assms(1) by (simp add: short_def)
  then have n: "unat ?n = length m" by (simp add: unat_word_of_nat_u64)
  then have n1: "unat (?n + 1) = length m + 1" using lt unat_plus_no_wrap [of ?n 1] by simp
  then have "?n + 1 \<noteq> 0" by (metis add_is_0 one_neq_zero unsigned_0)
  moreover have "take 8 ch = nat_to_le 8 (length m)" using arg_cong [OF zs(1), of "take 8"] False by (simp add: transf_raw_def)
  moreover have "le_to_nat (nat_to_le 8 (length m)) = length m" using lt by (simp add: le_to_nat_to_le)
  moreover have "length ch < 8 + length m" using arg_cong [OF zs(1), of length] zs(2) by (simp add: transf_raw_def)
  ultimately show ?thesis using n n1 lt False by (simp add: transf_recv_def stream_recv_def Let_def)
qed

lemma messages_part:
  assumes "list_all short ms" and "prefix ch (concat (map transf_raw ms))"
  shows "prefix (messages ch) (map c_string ms)"
  using assms
proof (induction ms arbitrary: ch)
  case Nil
  then show ?case by (simp add: messages.simps [of "[]"] transf_recv_empty)
next
  case (Cons m ms)
  show ?case
  proof (cases "prefix (transf_raw m) ch")
    case True
    then obtain rest where rest: "ch = transf_raw m @ rest" by (auto simp: prefix_def)
    then have "prefix rest (concat (map transf_raw ms))" using Cons.prems(2) by simp
    moreover have "messages ch = c_string m # messages rest"
      unfolding messages.simps [of ch] using Cons.prems(1) by (simp add: rest transf_recv_raw)
    ultimately show ?thesis using Cons.IH Cons.prems(1) by simp
  next
    case False
    then have "strict_prefix ch (transf_raw m)"
      using Cons.prems(2) by (metis concat.simps(2) list.simps(9) prefix_append prefixI strict_prefix_def prefix_order.refl)
    then have "transf_recv ch = None" using Cons.prems(1) by (intro transf_recv_part) simp_all
    then show ?thesis by (simp add: messages.simps [of ch])
  qed
qed

lemma messages_all: "list_all short ms \<Longrightarrow> messages (concat (map transf_raw ms)) = map c_string ms"
  by (induction ms) (simp_all add: messages.simps [of "[]"] messages.simps [of "transf_raw m @ r" for m r] transf_recv_empty transf_recv_raw)

text \<open>
  What the chat relies on: a system whose receiver has at every time a beginning of the bytes that were
  sent. Then what the receiver takes are the messages, complete, once and in their order.
\<close>

locale byte_channel = inv_system start step inv
  for start :: "'s \<Rightarrow> bool" and step :: "'s \<Rightarrow> 's \<Rightarrow> bool" and inv :: "'s \<Rightarrow> bool" +
  fixes sent :: "'s \<Rightarrow> u8 list" and got :: "'s \<Rightarrow> u8 list"
  assumes in_order: "inv s \<Longrightarrow> prefix (got s) (sent s)"
begin

lemma messages_in_order:
  assumes "start s" and "step\<^sup>*\<^sup>* s t" and "list_all short ms" and "prefix (sent t) (concat (map transf_raw ms))"
  shows "prefix (messages (got t)) (map c_string ms)"
  using messages_part [OF assms(3)] in_order [OF reachable_inv [OF assms(1,2)]] assms(4) prefix_order.trans by blast

end

section \<open>Invariant\<close>

text \<open>Every client has received a part of the log that begins where it joined, and the rest is on its way;
  the log has no NUL bytes; and what the clients have sent are complete messages.\<close>

definition conn_ok :: "u8 list list \<Rightarrow> conn \<Rightarrow> bool" where
  "conn_ok log c \<longleftrightarrow> cn_joined c + length (cn_got c) \<le> length log \<and> cn_got c = take (length (cn_got c)) (drop (cn_joined c) log) \<and>
     cn_out c = concat (map transf_raw (drop (cn_joined c + length (cn_got c)) log)) \<and>
     (\<exists>ms. list_all short ms \<and> cn_in c = concat (map transf_raw ms))"

definition room_inv :: "room \<Rightarrow> bool" where
  "room_inv r \<longleftrightarrow> list_all (\<lambda>m. short m \<and> 0 \<notin> set m) (sv_log (rm_chat r)) \<and>
     (\<forall>p c. serv_map (rm_chat r) p = Some c \<longrightarrow> conn_ok (sv_log (rm_chat r)) c) \<and>
     (\<forall>p. short (cl_next (rm_client r p)) \<and> list_all short (cl_input (rm_client r p)))"

lemma conn_ok_broadcast: "conn_ok log c \<Longrightarrow> conn_ok (log @ [m]) (c\<lparr>cn_out := transf_send m (cn_out c)\<rparr>)"
  by (auto simp: conn_ok_def transf_send_def stream_send_def)

lemma conn_ok_in: "conn_ok log c \<Longrightarrow> list_all short ms \<Longrightarrow> conn_ok log (c\<lparr>cn_in := concat (map transf_raw ms), cn_run := b\<rparr>)"
  by (auto simp: conn_ok_def)

text \<open>What the server receives is a message of its client, cut at a NUL.\<close>

lemma serv_recv:
  assumes "list_all short ms" and "transf_recv (concat (map transf_raw ms)) = Some (r, rest)"
  shows "\<exists>m ms'. ms = m # ms' \<and> r = Inr (c_string m) \<and> rest = concat (map transf_raw ms')"
  using assms by (cases ms) (auto simp: transf_recv_empty transf_recv_raw)

lemma serves_inv:
  assumes "room_inv r" and "serv_thread p (rm_chat r) = Some (Inr s)"
  shows "room_inv (r\<lparr>rm_chat := s\<rparr>)"
proof -
  let ?s = "rm_chat r"
  obtain c where c: "serv_map ?s p = Some c" "conn_ok (sv_log ?s) c" using assms by (auto simp: serv_thread_def room_inv_def split: option.splits)
  then obtain ms where ms: "list_all short ms" "cn_in c = concat (map transf_raw ms)" by (auto simp: conn_ok_def)
  from assms(2) c(1) obtain ret rest where r: "transf_recv (cn_in c) = Some (Inr ret, rest)"
      "s = broadcast ret (upd_conn p (\<lambda>c. c\<lparr>cn_in := rest, cn_run := ret \<noteq> EOFSTR\<rparr>) ?s)"
    by (auto simp: serv_thread_def split: if_splits option.splits sum.splits)
  from serv_recv [OF ms(1) r(1) [unfolded ms(2)]] obtain m ms' where m: "ms = m # ms'" "ret = c_string m" "rest = concat (map transf_raw ms')"
    by auto
  have log: "sv_log s = sv_log ?s @ [ret]" by (simp add: r(2) broadcast_def upd_conn_def)
  have "conn_ok (sv_log s) d" if q: "serv_map s q = Some d" for q d
  proof -
    obtain e where e: "serv_map ?s q = Some e" "d = (if q = p then e\<lparr>cn_in := rest, cn_run := ret \<noteq> EOFSTR\<rparr> else e)\<lparr>cn_out := transf_send ret (cn_out e)\<rparr>"
      using q by (cases "q = p"; cases "serv_map ?s q") (simp_all add: r(2) broadcast_def upd_conn_def)
    have "conn_ok (sv_log ?s) e" using assms(1) e(1) by (simp add: room_inv_def)
    then have "conn_ok (sv_log ?s) (if q = p then e\<lparr>cn_in := rest, cn_run := ret \<noteq> EOFSTR\<rparr> else e)"
      using conn_ok_in [of "sv_log ?s" e ms' "ret \<noteq> EOFSTR"] ms(1) m by simp
    from conn_ok_broadcast [OF this, of ret] show ?thesis using e(2) log by (cases "q = p") simp_all
  qed
  moreover have "short ret" "0 \<notin> set ret" using ms(1) m(1,2) short_c_string c_string_no_nul by auto
  ultimately show ?thesis using assms(1) log by (simp add: room_inv_def)
qed

lemma client_inv:
  assumes "room_inv r" and "serv_map (rm_chat r) p = Some c" and "client_loop (rm_client r p) c = Some (Inr (k, d))"
  shows "room_inv (r\<lparr>rm_chat := upd_conn p (\<lambda>_. d) (rm_chat r), rm_client := (rm_client r)(p := k)\<rparr>)"
proof -
  let ?k = "rm_client r p" and ?log = "sv_log (rm_chat r)"
  have ok: "conn_ok ?log c" "short (cl_next ?k)" "list_all short (cl_input ?k)" "list_all (\<lambda>m. short m \<and> 0 \<notin> set m) ?log"
    using assms(1,2) by (simp_all add: room_inv_def)
  have "conn_ok ?log d \<and> short (cl_next k) \<and> list_all short (cl_input k)"
  proof (cases "cl_pc ?k")
    case CL_Send
    define nx where "nx = (case cl_input ?k of [] \<Rightarrow> cl_next ?k | w # ws \<Rightarrow> w)"
    have n: "short nx" "list_all short (tl (cl_input ?k))" using ok(2,3) by (cases "cl_input ?k"; simp add: nx_def)+
    obtain ms where ms: "list_all short ms" "cn_in c = concat (map transf_raw ms)" using ok(1) by (auto simp: conn_ok_def)
    have "d = c\<lparr>cn_in := concat (map transf_raw (ms @ [nx]))\<rparr>" "k = ?k\<lparr>cl_pc := CL_Recv, cl_next := nx, cl_input := tl (cl_input ?k)\<rparr>"
      using assms(3) CL_Send ms(2) by (simp_all add: client_loop_def nx_def transf_send_def stream_send_def Let_def)
    moreover have "list_all short (ms @ [nx])" using ms(1) n(1) by simp
    ultimately show ?thesis using n ok(1) unfolding conn_ok_def by (auto intro!: exI [of _ "ms @ [nx]"])
  next
    case CL_Recv
    let ?n = "cn_joined c + length (cn_got c)"
    obtain ret rest where r: "transf_recv (cn_out c) = Some (Inr ret, rest)" "d = c\<lparr>cn_out := rest, cn_got := cn_got c @ [ret]\<rparr>"
        "cl_next k = cl_next ?k" "cl_input k = cl_input ?k"
      using assms(3) CL_Recv by (auto simp: client_loop_def split: option.splits sum.splits)
    have "list_all short (drop ?n ?log)" using ok(4) by (auto simp: list_all_iff dest: in_set_dropD)
    moreover have "cn_out c = concat (map transf_raw (drop ?n ?log))" using ok(1) by (simp add: conn_ok_def)
    ultimately obtain m ms' where m: "drop ?n ?log = m # ms'" "ret = c_string m" "rest = concat (map transf_raw ms')"
      using serv_recv [of "drop ?n ?log" "Inr ret" rest] r(1) by auto
    then have lt: "?n < length ?log" "?log ! ?n = m" by (metis drop_eq_Nil list.distinct(1) not_le, metis hd_drop_conv_nth drop_eq_Nil list.distinct(1) list.sel(1) not_le)
    then have ret: "ret = ?log ! ?n" using ok(4) m(2) by (metis c_string_id list_all_length)
    have ms': "ms' = drop (Suc ?n) ?log" using m(1) by (metis drop_Suc drop_tl list.sel(3) tl_drop)
    have "take (Suc (length (cn_got c))) (drop (cn_joined c) ?log) = cn_got c @ [ret]"
      using ok(1) lt(1) ret by (simp add: conn_ok_def take_Suc_conv_app_nth add.commute)
    then show ?thesis using ok(1-3) r m(3) ms' lt(1) by (simp add: conn_ok_def)
  qed (use assms(3) in \<open>simp add: client_loop_def\<close>)
  then show ?thesis using assms(1) by (auto simp: room_inv_def upd_conn_def)
qed

lemma accepts_inv: "room_inv r \<Longrightarrow> room_inv (r\<lparr>rm_chat := serv_accept sid (rm_chat r)\<rparr>)"
  by (auto simp: room_inv_def serv_accept_def conn_ok_def Let_def intro!: exI [of _ "[]"])

interpretation rm: inv_system room_start room_step room_inv
proof
  show "room_inv r" if st: "room_start r" for r
  proof -
    have "short (cl_next (rm_client r p)) \<and> list_all short (cl_input (rm_client r p))" for p
    proof -
      obtain ws where "list_all short ws" "rm_client r p = client_start ws" using st by (auto simp: room_start_def)
      then show ?thesis by (simp add: client_start_def short_def)
    qed
    with st show ?thesis by (simp add: room_start_def room_inv_def serv_def)
  qed
  show "room_inv t" if "room_inv s" "room_step s t" for s t
    using that(2,1) by cases (auto intro: accepts_inv serves_inv client_inv)
qed

section \<open>Properties\<close>

lemma isdigit_char: "d < 10 \<Longrightarrow> isdigit (char_of (48 + d :: nat))" "d < 10 \<Longrightarrow> \<not> isspace (char_of (48 + d :: nat))"
  by (simp_all add: isdigit_def isspace_def)

lemma atoi_show_nat:
  assumes "n < 2147483648"
  shows "atoi (show_nat n) = Inr (int n)"
proof -
  have digits: "isdigit c" "\<not> isspace c" "c \<noteq> CHR ''-''" "c \<noteq> CHR ''+''" if c: "c \<in> set (show_nat n)" for c
  proof -
    obtain d where d: "d < 10" "c = char_of (48 + d :: nat)" using show_nat_digits [OF c] by blast
    then have "isdigit c" "\<not> isspace c" using isdigit_char by simp_all
    then show "isdigit c" "\<not> isspace c" "c \<noteq> CHR ''-''" "c \<noteq> CHR ''+''" by (auto simp: isdigit_def)
  qed
  then have tw: "takeWhile isdigit (show_nat n) = show_nat n" and dw: "dropWhile isspace (show_nat n) = show_nat n"
    by (simp_all add: takeWhile_eq_all_conv dropWhile_eq_self_iff)
  obtain c ds where c: "show_nat n = c # ds" by (cases "show_nat n") (auto simp: show_nat.simps [of n] split: if_splits)
  then have "c \<noteq> CHR ''-''" "c \<noteq> CHR ''+''" using digits [of c] by simp_all
  moreover have "read_nat 0 (takeWhile isdigit (c # ds)) = n" using tw read_show_nat [of n] by (simp only: c)
  ultimately show ?thesis using assms dw c by (simp add: atoi_def Let_def)
qed

lemma argv_port_show: "i < length argv \<Longrightarrow> argv ! i = show_nat p \<Longrightarrow> p < 2147483648 \<Longrightarrow> argv_port argv i = Inr (word_of_nat p)"
  by (simp add: argv_port_def argv_at_def atoi_show_nat)

text \<open>
  The command line: \<open>serv\<close> with a port in decimal starts a server that listens on that port, and any
  other role with two ports starts a client from the first to the second port; a missing argument
  is an access through a null pointer. A port above 65535 is not refused: its lower 16 bits are taken.
\<close>

theorem chat_main_ports:
  fixes inet_addr :: "string \<Rightarrow> u32"
  assumes "p < 2 ^ 31" and "r < 2 ^ 31" and "role \<noteq> ''serv''"
  defines "port \<equiv> \<lambda>n. fill_param inet_addr ''127.0.0.1'' (word_of_nat n)"
  shows "main inet_addr [prog, ''serv'', show_nat p] = Inr (R_serv (port p)) \<and>
    main inet_addr [prog, role, show_nat p, show_nat r] = Inr (R_client \<lparr>in_addr = port p, out_addr = port r\<rparr>) \<and>
    unat (ntohs (sin_port (port p))) = p mod 65536 \<and>
    main inet_addr [prog, ''serv''] = Inl Fault \<and> main inet_addr [prog, role, show_nat p] = Inl Fault"
proof -
  have s: "argv_port [prog, x, show_nat p] 2 = Inr (word_of_nat p)" "argv_port [prog, role, show_nat p, show_nat r] 2 = Inr (word_of_nat p)"
    "argv_port [prog, role, show_nat p, show_nat r] 3 = Inr (word_of_nat r)" for x
    using assms(1,2) by (simp_all add: argv_port_show)
  then show ?thesis
    using assms(3) by (simp add: main_def argv_at_def argv_port_def port_def fill_param_def ntohs_def unat_of_nat)
qed

theorem chat_main_ports_witness:
  "main (\<lambda>_. 16777343) [''chat'', ''serv'', show_nat 65616] = Inr (R_serv (fill_param (\<lambda>_. 16777343) ''127.0.0.1'' 80))"
proof -
  have "main (\<lambda>_. 16777343) [''chat'', ''serv'', show_nat 65616] = Inr (R_serv (fill_param (\<lambda>_. 16777343) ''127.0.0.1'' (word_of_nat 65616)))"
    using chat_main_ports [of 65616 81 "''client''" "\<lambda>_. 16777343" "''chat''"] by simp
  moreover have "(word_of_nat 65616 :: u16) = 80" by simp
  ultimately show ?thesis by (simp only:)
qed


text \<open>
  Messages keep their boundaries: what one side sends as a message the other side receives as one
  message, up to the first NUL byte, and the stream behind it is untouched. The message arrives as
  it was sent exactly when it contains no NUL.
\<close>

theorem chat_frame_roundtrip:
  assumes "length m < 2 ^ 62"
  shows "transf_recv (transf_send m [] @ rest) = Some (Inr (c_string m), rest) \<and> (c_string m = m \<longleftrightarrow> 0 \<notin> set m)"
  using transf_recv_raw [of m rest] c_string_id [of m] assms by (simp add: transf_send_def stream_send_def short_def)

theorem chat_frame_roundtrip_witness: "transf_recv (transf_send [104, 105] [] @ [9]) = Some (Inr [104, 105], [9])"
  using chat_frame_roundtrip [of "[104, 105]" "[9]"] by (simp add: c_string_def)

text \<open>
  C23: All clients of a server see one conversation: in every interleaving of accepting, serving and the
  clients' loops, the messages that a client has received are a piece of the server's log, beginning
  where the client joined; and the next message of the log is the next one that the client receives,
  or the client waits when it has seen the whole log.
\<close>

theorem chat_same_order:
  assumes "room_start r" and "room_step\<^sup>*\<^sup>* r s" and "serv_map (rm_chat s) p = Some c"
  defines "log \<equiv> sv_log (rm_chat s)" and "n \<equiv> cn_joined c + length (cn_got c)"
  shows "cn_got c = take (length (cn_got c)) (drop (cn_joined c) log) \<and>
    (if n < length log then \<exists>rest. transf_recv (cn_out c) = Some (Inr (log ! n), rest) else transf_recv (cn_out c) = None)"
proof -
  have "room_inv s" by (rule rm.reachable_inv [OF assms(1,2)])
  then have ok: "conn_ok log c" "list_all (\<lambda>m. short m \<and> 0 \<notin> set m) log" using assms(3) by (simp_all add: room_inv_def log_def)
  then have out: "cn_out c = concat (map transf_raw (drop n log))" "cn_got c = take (length (cn_got c)) (drop (cn_joined c) log)"
    unfolding conn_ok_def n_def by blast+
  have "\<exists>rest. transf_recv (cn_out c) = Some (Inr (log ! n), rest)" if "n < length log"
  proof -
    have "short (log ! n)" "c_string (log ! n) = log ! n" using ok(2) that by (simp_all add: c_string_id list_all_length)
    then show ?thesis using transf_recv_raw [of "log ! n"] out(1) Cons_nth_drop_Suc [OF that, symmetric] by simp
  qed
  moreover have "transf_recv (cn_out c) = None" if "\<not> n < length log" using that out(1) by (simp add: transf_recv_empty)
  ultimately show ?thesis using out(2) by simp
qed

text \<open>A room in which the client at port 7 says \<open>hi\<close> and hears itself.\<close>

definition demo_sid :: socket_identify where
  "demo_sid = \<lparr>in_addr = zero_sockaddr, out_addr = zero_sockaddr\<lparr>sin_port := htons 7\<rparr>\<rparr>"

definition demo_room :: room where
  "demo_room = \<lparr>rm_chat = serv, rm_client = (\<lambda>_. client_start [[104, 105]])\<rparr>"

lemma demo_port: "client_port demo_sid = 7"
  by (simp add: client_port_def demo_sid_def ntohs_def htons_def)

lemma demo_room_run:
  "\<exists>s c. room_step\<^sup>*\<^sup>* demo_room s \<and> serv_map (rm_chat s) 7 = Some c \<and> sv_log (rm_chat s) = [[104, 105]] \<and> cn_got c = [] \<and> cn_joined c = 0"
proof -
  let ?c0 = "\<lparr>cn_in = [], cn_out = [], cn_run = True, cn_joined = 0, cn_got = []\<rparr>"
  let ?r1 = "demo_room\<lparr>rm_chat := serv_accept demo_sid (rm_chat demo_room)\<rparr>"
  let ?k = "\<lparr>cl_pc = CL_Recv, cl_next = [104, 105], cl_input = []\<rparr>"
  let ?c1 = "?c0\<lparr>cn_in := transf_raw [104, 105]\<rparr>"
  let ?r2 = "?r1\<lparr>rm_chat := upd_conn 7 (\<lambda>_. ?c1) (rm_chat ?r1), rm_client := (rm_client ?r1)(7 := ?k)\<rparr>"
  let ?s = "broadcast [104, 105] (upd_conn 7 (\<lambda>c. c\<lparr>cn_in := [], cn_run := True\<rparr>) (rm_chat ?r2))"
  have m1: "serv_map (rm_chat ?r1) 7 = Some ?c0" by (simp add: serv_accept_def demo_port demo_room_def serv_def Let_def)
  have one: "room_step demo_room ?r1" by (rule room_step.accepts)
  have "client_loop (rm_client ?r1 7) ?c0 = Some (Inr (?k, ?c1))"
    by (simp add: client_loop_def demo_room_def client_start_def transf_send_def stream_send_def Let_def)
  with m1 have two: "room_step ?r1 ?r2" by (rule room_step.client)
  have m2: "serv_map (rm_chat ?r2) 7 = Some ?c1" using m1 by (simp add: upd_conn_def)
  have "transf_recv (transf_raw [104, 105]) = Some (Inr [104, 105], [])"
    using transf_recv_raw [of "[104, 105]" "[]"] by (simp add: short_def c_string_def)
  with m2 have "serv_thread 7 (rm_chat ?r2) = Some (Inr ?s)" by (simp add: serv_thread_def EOFSTR_def)
  then have "room_step ?r2 (?r2\<lparr>rm_chat := ?s\<rparr>)" by (rule room_step.serves)
  with one two have "room_step\<^sup>*\<^sup>* demo_room (?r2\<lparr>rm_chat := ?s\<rparr>)" by (meson r_into_rtranclp rtranclp.rtrancl_into_rtrancl)
  moreover have "serv_map ?s 7 = Some (?c1\<lparr>cn_in := [], cn_run := True, cn_out := transf_send [104, 105] []\<rparr>)"
    using m2 by (simp add: broadcast_def upd_conn_def)
  moreover have "sv_log ?s = [[104, 105]]" by (simp add: broadcast_def upd_conn_def serv_accept_def demo_room_def serv_def Let_def)
  ultimately show ?thesis by (intro exI [of _ "?r2\<lparr>rm_chat := ?s\<rparr>"]) simp
qed

theorem chat_same_order_witness:
  "\<exists>s c rest. room_step\<^sup>*\<^sup>* demo_room s \<and> serv_map (rm_chat s) 7 = Some c \<and> transf_recv (cn_out c) = Some (Inr [104, 105], rest)"
proof -
  obtain s c where s: "room_step\<^sup>*\<^sup>* demo_room s" "serv_map (rm_chat s) 7 = Some c" "sv_log (rm_chat s) = [[104, 105]]" "cn_got c = []" "cn_joined c = 0"
    using demo_room_run by blast
  have "room_start demo_room"
    unfolding room_start_def by (auto simp: demo_room_def short_def intro!: exI [of _ "[[104, 105]]"])
  from chat_same_order [OF this s(1,2)] s show ?thesis by auto
qed

text \<open>
  The length in front of a message is believed: a peer that sends the largest length makes the
  receiver allocate an empty buffer and copy the stream into it, whatever follows.
\<close>

theorem chat_length_overruns_buffer: "transf_recv (nat_to_le 8 (2 ^ 64 - 1) @ rest) = Some (Inl Fault, rest)"
proof -
  have "le_to_nat (nat_to_le 8 (2 ^ 64 - 1)) = 18446744073709551615" by (simp add: le_to_nat_to_le)
  moreover have "(word_of_nat 18446744073709551615 + 1 :: size_t) = 0" by simp
  ultimately show ?thesis by (simp add: transf_recv_def stream_recv_def Let_def del: of_nat_numeral)
qed

text \<open>
  A client whose input ends without the closing word does not end: after one turn of its loop, in which
  it sends the last word again, it stands where it stood before.
\<close>

theorem chat_client_repeats_last_word:
  assumes "cl_pc k = CL_Send" and "cl_input k = []" and "cl_next k \<noteq> EOFSTR"
    and "client_loop k c = Some (Inr (k1, c1))" and "client_loop k1 d = Some (Inr (k2, e))"
  shows "k2 = k \<and> cn_in c1 = cn_in c @ transf_raw (cl_next k)"
proof -
  have k1: "k1 = k\<lparr>cl_pc := CL_Recv, cl_input := []\<rparr>" "cn_in c1 = cn_in c @ transf_raw (cl_next k)"
    using assms(1,2,4) by (auto simp: client_loop_def transf_send_def stream_send_def Let_def)
  then have "k2 = k1\<lparr>cl_pc := CL_Send\<rparr>" using assms(3,5) by (auto simp: client_loop_def split: option.splits sum.splits)
  with k1 assms(1,2) show ?thesis by simp
qed

theorem chat_client_repeats_last_word_witness:
  "\<exists>k1 c1 k2 e. client_loop \<lparr>cl_pc = CL_Send, cl_next = [104, 105], cl_input = []\<rparr> \<lparr>cn_in = [], cn_out = transf_raw [104, 105], cn_run = True, cn_joined = 0, cn_got = []\<rparr> =
      Some (Inr (k1, c1)) \<and> client_loop k1 c1 = Some (Inr (k2, e)) \<and> k2 = \<lparr>cl_pc = CL_Send, cl_next = [104, 105], cl_input = []\<rparr>"
proof -
  let ?k = "\<lparr>cl_pc = CL_Send, cl_next = [104, 105], cl_input = []\<rparr>"
  let ?c = "\<lparr>cn_in = [], cn_out = transf_raw [104, 105], cn_run = True, cn_joined = 0, cn_got = []\<rparr>"
  have "transf_recv (transf_raw [104, 105]) = Some (Inr [104, 105], [])"
    using transf_recv_raw [of "[104, 105]" "[]"] by (simp add: short_def c_string_def)
  then obtain k1 c1 k2 e where "client_loop ?k ?c = Some (Inr (k1, c1))" "client_loop k1 c1 = Some (Inr (k2, e))"
    by (simp add: client_loop_def Let_def)
  with chat_client_repeats_last_word [OF _ _ _ this] show ?thesis by (auto simp: EOFSTR_def)
qed

end
