(* ===== verification/Window.thy ===== *)
theory Window
  imports Net_Prelude
begin

text \<open>
  The sequence-number windows of \<open>src/tcp_proto_internal.h\<close>: \<open>receiver_window\<close> (what the
  receiver still accepts) and \<open>send_window\<close> (what the sender may still put on the wire), with
  the containment test that decides whether a segment or an acknowledgement belongs to the
  current window. \<open>send_window\<close> extends \<open>receiver_window\<close> as a record, as the class does.
\<close>

section \<open>Constants and data\<close>

definition INPUT_WINDOW_SZ :: size_t where "INPUT_WINDOW_SZ = 1000"
definition INPUT_BUF_SZ :: nat where "INPUT_BUF_SZ = 300000"
definition OUTPUT_WINDOW_SZ :: size_t where "OUTPUT_WINDOW_SZ = 1000"
definition OUTPUT_CONGECTION_START_SZ :: size_t where "OUTPUT_CONGECTION_START_SZ = 100"
definition OUTPUT_SEND_BUF_SZ :: nat where "OUTPUT_SEND_BUF_SZ = 300000"
definition TCP_OUTPUT_START_TIMEOUT :: size_t where "TCP_OUTPUT_START_TIMEOUT = 3000"
definition TCP_FAST_RETRANSMIT_BOUND :: int where "TCP_FAST_RETRANSMIT_BOUND = 4"

datatype tcp_state = CLOSED | SYN_SENT | SYN_RECEIVED | ESTABLISHED

record receiver_window =
  rw_start :: size_t
  rw_off :: off_t
  rw_sz :: size_t

record send_window = receiver_window +
  sw_sent_off :: off_t

text \<open>\<open>modulo = (size_t)max(tcp_seq) + 1\<close>.\<close>

definition seq_modulo :: size_t where
  "seq_modulo = seq_to_size (- 1) + 1"

definition receiver_window3 :: "size_t \<Rightarrow> off_t \<Rightarrow> size_t \<Rightarrow> receiver_window" where
  "receiver_window3 start off sz = \<lparr>rw_start = start, rw_off = off, rw_sz = sz\<rparr>"

definition receiver_window2 :: "size_t \<Rightarrow> size_t \<Rightarrow> receiver_window" where
  "receiver_window2 start sz = receiver_window3 start 0 sz"

definition SINGLE_WINDOW :: "size_t \<Rightarrow> receiver_window" where
  "SINGLE_WINDOW start = receiver_window2 start 1"

definition send_window4 :: "size_t \<Rightarrow> off_t \<Rightarrow> off_t \<Rightarrow> size_t \<Rightarrow> send_window" where
  "send_window4 start off sent_off sz =
     \<lparr>rw_start = start, rw_off = off, rw_sz = sz, sw_sent_off = sent_off\<rparr>"

section \<open>Operations of receiver_window\<close>

definition next_window :: "'a receiver_window_scheme \<Rightarrow> 'a receiver_window_scheme" where
  "next_window w = w\<lparr>rw_off := 0, rw_start := rw_start w + rw_sz w\<rparr>"

definition win_end :: "'a receiver_window_scheme \<Rightarrow> size_t" where
  "win_end w = rw_start w + rw_sz w"

definition win_begin :: "'a receiver_window_scheme \<Rightarrow> size_t" where
  "win_begin w = rw_start w + rw_off w"

definition before_begin :: "'a receiver_window_scheme \<Rightarrow> size_t" where
  "before_begin w = (let b = win_begin w in if b = 0 then seq_modulo - 1 else b - 1)"

definition win_inc :: "off_t \<Rightarrow> 'a receiver_window_scheme \<Rightarrow> 'a receiver_window_scheme" where
  "win_inc n w = w\<lparr>rw_off := rw_off w + n\<rparr>"

definition get_sz :: "'a receiver_window_scheme \<Rightarrow> size_t" where
  "get_sz w = rw_sz w - rw_off w"

definition extend_end :: "size_t \<Rightarrow> 'a receiver_window_scheme \<Rightarrow> 'a receiver_window_scheme" where
  "extend_end add w = w\<lparr>rw_sz := rw_sz w + add\<rparr>"

text \<open>The comparisons mix \<open>tcp_seq\<close> and \<open>size_t\<close>: the 32-bit side is widened.\<close>

definition contains :: "'a receiver_window_scheme \<Rightarrow> 'b receiver_window_scheme \<Rightarrow> bool" where
  "contains w v =
     (let begin_v = win_begin w;
          end_v = win_end w;
          start_win = win_begin v;
          end_win = win_end v;
          shift = (seq_to_size (size_to_seq end_v) < begin_v \<and>
                   end_win < seq_to_size (size_to_seq end_v));
          start_win' = (if shift \<and> start_win < seq_to_size (size_to_seq end_win)
                        then start_win + seq_modulo else start_win);
          end_win' = (if shift then end_win + seq_modulo else end_win)
      in begin_v \<le> start_win' \<and> end_win' \<le> end_v)"

section \<open>Operations of send_window\<close>

definition inc_sent_off :: "off_t \<Rightarrow> send_window \<Rightarrow> send_window" where
  "inc_sent_off add w = w\<lparr>sw_sent_off := sw_sent_off w + add\<rparr>"

definition sent_begin :: "send_window \<Rightarrow> size_t" where
  "sent_begin w = rw_start w + sw_sent_off w"

definition sent_sz :: "send_window \<Rightarrow> size_t" where
  "sent_sz w = rw_sz w - sw_sent_off w"

definition get_in_msg_off :: "'a receiver_window_scheme \<Rightarrow> tcp_seq \<Rightarrow> size_t" where
  "get_in_msg_off w seq =
     (let start_modulo = seq_to_size (size_to_seq (win_begin w))
      in if start_modulo \<le> seq_to_size seq then seq_to_size seq - start_modulo
         else seq_modulo - start_modulo + seq_to_size seq)"

definition set_off_from_seq :: "tcp_seq \<Rightarrow> 'a receiver_window_scheme \<Rightarrow> 'a receiver_window_scheme" where
  "set_off_from_seq seq w = win_inc (get_in_msg_off w seq + 1) w"

definition send_next_window :: "send_window \<Rightarrow> send_window" where
  "send_next_window w = (next_window w)\<lparr>sw_sent_off := 0\<rparr>"

section \<open>Well-formed windows\<close>

text \<open>
  The offset lies inside the window and the window does not pass the 64-bit range. \<open>first_lap\<close>
  says that the window begins before the first wrap of the 32-bit sequence space.
\<close>

definition win_ok :: "'a receiver_window_scheme \<Rightarrow> bool" where
  "win_ok w \<longleftrightarrow> unat (rw_off w) \<le> unat (rw_sz w) \<and> unat (rw_start w) + unat (rw_sz w) < 2 ^ 64"

definition first_lap :: "'a receiver_window_scheme \<Rightarrow> bool" where
  "first_lap w \<longleftrightarrow> unat (win_begin w) < 2 ^ 32"

text \<open>
  The reference notion: a segment of \<open>n\<close> bytes at \<open>seq\<close> lies in the window when its distance
  from the window's begin on the 32-bit circle, plus its length, does not exceed the window's
  remaining size.
\<close>

definition circ_dist :: "'a receiver_window_scheme \<Rightarrow> tcp_seq \<Rightarrow> nat" where
  "circ_dist w seq = unat (seq - size_to_seq (win_begin w))"

definition in_circle :: "'a receiver_window_scheme \<Rightarrow> tcp_seq \<Rightarrow> nat \<Rightarrow> bool" where
  "in_circle w seq n \<longleftrightarrow> circ_dist w seq + n \<le> unat (get_sz w)"

section \<open>Lemmas\<close>

lemma seq_modulo_eq: "seq_modulo = 4294967296"
proof -
  have "seq_to_size (- 1) = 4294967295"
    by (rule word_unat_eq_iff [THEN iffD2]) (simp add: unsigned_minus_1_eq_mask mask_eq_exp_minus_1)
  then show ?thesis by (simp add: seq_modulo_def)
qed

lemma unat_seq_modulo [word_nat_simps, simp]: "unat seq_modulo = 4294967296"
  by (simp add: seq_modulo_eq)

lemma win_ok_begin [word_nat_simps]:
  "win_ok w \<Longrightarrow> unat (win_begin w) = unat (rw_start w) + unat (rw_off w)"
  by (auto simp: win_ok_def win_begin_def word_nat_simps)

lemma win_ok_end [word_nat_simps]:
  "win_ok w \<Longrightarrow> unat (win_end w) = unat (rw_start w) + unat (rw_sz w)"
  by (auto simp: win_ok_def win_end_def word_nat_simps)

lemma win_ok_get_sz [word_nat_simps]:
  "win_ok w \<Longrightarrow> unat (get_sz w) = unat (rw_sz w) - unat (rw_off w)"
  by (auto simp: win_ok_def get_sz_def word_nat_simps)

lemma win_ok_begin_le_end: "win_ok w \<Longrightarrow> unat (win_begin w) \<le> unat (win_end w)"
  by (simp add: word_nat_simps) (simp add: win_ok_def)

lemma win_ok_get_sz_span: "win_ok w \<Longrightarrow> unat (win_begin w) + unat (get_sz w) = unat (win_end w)"
  by (simp add: word_nat_simps) (simp add: win_ok_def)

lemma win_begin_seg [simp]: "win_begin (receiver_window2 a n) = a"
  and win_end_seg [simp]: "win_end (receiver_window2 a n) = a + n"
  by (simp_all add: receiver_window2_def receiver_window3_def win_begin_def win_end_def)

text \<open>The distance on the circle, computed on numbers.\<close>

lemma circ_dist_nat:
  assumes "first_lap w"
  shows "circ_dist w seq =
    (if unat (win_begin w) \<le> unat seq then unat seq - unat (win_begin w)
     else unat seq + 4294967296 - unat (win_begin w))"
proof -
  have b: "unat (size_to_seq (win_begin w)) = unat (win_begin w)"
    using assms by (simp add: first_lap_def unat_size_to_seq)
  show ?thesis
    using assms unat_u32_bound [of seq]
    by (auto simp: circ_dist_def first_lap_def b unat_sub_if' word_le_nat_alt)
qed

lemma unat_get_in_msg_off: "unat (get_in_msg_off w seq) = circ_dist w seq"
proof -
  let ?b = "size_to_seq (win_begin w)"
  let ?m = "seq_modulo - seq_to_size ?b"
  have m: "unat ?m = 4294967296 - unat ?b"
    using less_imp_le [OF unat_u32_bound [of ?b]] by (simp add: unat_minus_no_wrap)
  have "unat (?m + seq_to_size seq) = unat ?m + unat seq"
    using unat_plus_no_wrap [of ?m "seq_to_size seq"] unat_u32_bound [of seq] m by simp
  with m have "\<not> unat ?b \<le> unat seq \<Longrightarrow>
      unat (?m + seq_to_size seq) = unat seq + 4294967296 - unat ?b"
    using unat_u32_bound [of ?b] by simp
  then show ?thesis
    by (auto simp: get_in_msg_off_def Let_def circ_dist_def word_le_nat_alt unat_sub_if'
        unat_minus_no_wrap)
qed

lemma unat_add_seq_modulo:
  "unat a < 8589934592 \<Longrightarrow> unat (a + seq_modulo) = unat a + 4294967296"
  using unat_plus_no_wrap [of a seq_modulo] by simp

lemma contains_nat:
  assumes "unat (win_end w) < 8589934592" and "unat (win_end v) < 8589934592"
    and "unat (win_begin v) < 4294967296"
  shows "contains w v \<longleftrightarrow>
    (if unat (win_end w) mod 4294967296 < unat (win_begin w) \<and>
        unat (win_end v) < unat (win_end w) mod 4294967296
     then (if unat (win_begin v) < unat (win_end v) mod 4294967296
           then unat (win_begin w) \<le> unat (win_begin v) + 4294967296
           else unat (win_begin w) \<le> unat (win_begin v)) \<and>
          unat (win_end v) + 4294967296 \<le> unat (win_end w)
     else unat (win_begin w) \<le> unat (win_begin v) \<and> unat (win_end v) \<le> unat (win_end w))"
  using assms
  by (simp add: contains_def Let_def word_le_nat_alt word_less_nat_alt unat_size_to_seq
      unat_add_seq_modulo)

lemma size_to_seq_modulo [simp]: "size_to_seq seq_modulo = 0"
  by (simp add: word_unat_eq_iff unat_size_to_seq)

lemma size_to_seq_before_begin: "size_to_seq (before_begin w) = size_to_seq (win_begin w) - 1"
  by (simp add: before_begin_def Let_def size_to_seq_diff)

lemma get_sz_0_iff: "get_sz w = 0 \<longleftrightarrow> rw_off w = rw_sz w"
  by (auto simp: get_sz_def)

lemma win_begin_next_window: "get_sz w = 0 \<Longrightarrow> win_begin (next_window w) = win_begin w"
  by (simp add: get_sz_0_iff win_begin_def next_window_def)

lemma size_to_seq_get_in_msg_off:
  "size_to_seq (get_in_msg_off w seq) = seq - size_to_seq (win_begin w)"
  by (simp add: word_unat_eq_iff unat_size_to_seq unat_get_in_msg_off circ_dist_def
      mod_less [OF unat_u32_bound])

lemma size_to_seq_set_off_from_seq:
  "size_to_seq (win_begin (set_off_from_seq seq w)) = seq + 1"
proof -
  have "win_begin (set_off_from_seq seq w) = win_begin w + (get_in_msg_off w seq + 1)"
    by (simp add: win_begin_def set_off_from_seq_def win_inc_def)
  then show ?thesis by (simp add: size_to_seq_add size_to_seq_get_in_msg_off)
qed

lemma unat_set_off_from_seq:
  assumes "win_ok w" and "in_circle w seq 1"
  shows "unat (rw_off (set_off_from_seq seq w)) = unat (rw_off w) + circ_dist w seq + 1"
    and "unat (rw_off (set_off_from_seq seq w)) \<le> unat (rw_sz w)"
proof -
  have le: "unat (rw_off w) + (circ_dist w seq + 1) \<le> unat (rw_sz w)"
    using assms by (auto simp: in_circle_def win_ok_get_sz win_ok_def)
  have b: "unat (rw_off w) + (circ_dist w seq + 1) < 18446744073709551616"
    using le unat_u64_bound [of "rw_sz w"] by linarith
  have "unat (get_in_msg_off w seq + 1) = circ_dist w seq + 1"
    using b unat_plus_no_wrap [of "get_in_msg_off w seq" 1] by (simp add: unat_get_in_msg_off)
  then show eq: "unat (rw_off (set_off_from_seq seq w)) = unat (rw_off w) + circ_dist w seq + 1"
    using b unat_plus_no_wrap [of "rw_off w" "get_in_msg_off w seq + 1"]
    by (simp add: set_off_from_seq_def win_inc_def)
  show "unat (rw_off (set_off_from_seq seq w)) \<le> unat (rw_sz w)"
    using le eq by simp
qed

section \<open>Properties\<close>

text \<open>
  C26: during the first lap of the sequence space, a non-empty segment is contained in the window
  exactly when it lies in the window on the 32-bit circle, with one exception: when the window
  crosses the wrap, a segment that ends exactly at the window's end is refused.
\<close>

theorem contains_circular:
  assumes "win_ok w" and "first_lap w" and "unat (get_sz w) \<le> 2 ^ 31"
    and "0 < unat n" and "unat n \<le> 2 ^ 31"
  shows "contains w (receiver_window2 (seq_to_size seq) n) \<longleftrightarrow>
    in_circle w seq (unat n) \<and>
    \<not> (2 ^ 32 < unat (win_end w) \<and> unat seq + unat n + 2 ^ 32 = unat (win_end w))"
proof -
  let ?B = "unat (win_begin w)" and ?E = "unat (win_end w)" and ?s = "unat seq" and ?n = "unat n"
  have e: "unat (seq_to_size seq + n) = ?s + ?n"
    using assms(5) unat_u32_bound [of seq] unat_plus_no_wrap [of "seq_to_size seq" n] by simp
  have span: "?B + unat (get_sz w) = ?E"
    using assms(1) by (rule win_ok_get_sz_span)
  have le: "?B < 4294967296" using assms(2) by (simp add: first_lap_def)
  have m: "?E mod 4294967296 = (if ?E < 4294967296 then ?E else ?E - 4294967296)"
    using span le assms(3) by (simp add: mod_if)
  have m': "(?s + ?n) mod 4294967296 = (if ?s + ?n < 4294967296 then ?s + ?n else ?s + ?n - 4294967296)"
    using unat_u32_bound [of seq] assms(5) by (simp add: mod_if)
  have d: "in_circle w seq ?n \<longleftrightarrow>
      (if ?B \<le> ?s then ?s + ?n \<le> ?E else ?s + 4294967296 + ?n \<le> ?E)"
    using span le by (auto simp: in_circle_def circ_dist_nat [OF assms(2)])
  have "contains w (receiver_window2 (seq_to_size seq) n) \<longleftrightarrow>
      (if (if ?E < 4294967296 then ?E else ?E - 4294967296) < ?B \<and>
          ?s + ?n < (if ?E < 4294967296 then ?E else ?E - 4294967296)
       then (if ?s < (if ?s + ?n < 4294967296 then ?s + ?n else ?s + ?n - 4294967296)
             then ?B \<le> ?s + 4294967296 else ?B \<le> ?s) \<and> ?s + ?n + 4294967296 \<le> ?E
       else ?B \<le> ?s \<and> ?s + ?n \<le> ?E)"
    using assms(3,5) span le unat_u32_bound [of seq]
    by (subst contains_nat) (simp_all only: win_begin_seg win_end_seg e m m' unat_seq_to_size, simp_all)
  also have "\<dots> \<longleftrightarrow> in_circle w seq ?n \<and> \<not> (2 ^ 32 < ?E \<and> ?s + ?n + 2 ^ 32 = ?E)"
    unfolding d using assms(3-5) span le unat_u32_bound [of seq]
    by (auto split: if_splits)
  finally show ?thesis .
qed

theorem contains_circular_witness:
  "contains (receiver_window2 4294967196 200) (receiver_window2 (seq_to_size 4294967246) 60) \<longleftrightarrow>
     in_circle (receiver_window2 4294967196 200) 4294967246 60 \<and>
     \<not> (2 ^ 32 < unat (win_end (receiver_window2 4294967196 200)) \<and>
        unat (4294967246 :: tcp_seq) + 60 + 2 ^ 32 = unat (win_end (receiver_window2 4294967196 200)))"
proof -
  let ?w = "receiver_window2 4294967196 200"
  have "win_ok ?w" by (simp add: win_ok_def receiver_window2_def receiver_window3_def)
  moreover have "first_lap ?w" by (simp add: first_lap_def)
  moreover have "unat (get_sz ?w) \<le> 2 ^ 31"
    by (simp add: get_sz_def receiver_window2_def receiver_window3_def)
  ultimately show ?thesis using contains_circular [of ?w 60 4294967246] by simp
qed

text \<open>
  a cumulative acknowledgement that lies in the window moves the window's begin to the
  sequence number after it, keeps the window well formed and never moves the offset past the
  window's size.
\<close>

theorem set_off_from_seq_advances:
  assumes "win_ok w" and "in_circle w seq 1"
  shows "win_ok (set_off_from_seq seq w) \<and>
    size_to_seq (win_begin (set_off_from_seq seq w)) = seq + 1 \<and>
    unat (rw_off w) < unat (rw_off (set_off_from_seq seq w)) \<and>
    unat (get_sz (set_off_from_seq seq w)) + circ_dist w seq + 1 = unat (get_sz w)"
proof -
  have same: "rw_sz (set_off_from_seq seq w) = rw_sz w" "rw_start (set_off_from_seq seq w) = rw_start w"
    by (simp_all add: set_off_from_seq_def win_inc_def)
  have ok: "win_ok (set_off_from_seq seq w)"
    using assms(1) unat_set_off_from_seq(2) [OF assms] by (simp add: win_ok_def same)
  then show ?thesis
    using unat_set_off_from_seq [OF assms] size_to_seq_set_off_from_seq [of seq w]
    by (simp add: win_ok_get_sz [OF ok] win_ok_get_sz [OF assms(1)] same)
qed

theorem set_off_from_seq_advances_witness:
  "size_to_seq (win_begin (set_off_from_seq 1 (send_window4 4294967295 0 0 100))) = 2"
proof -
  let ?w = "send_window4 4294967295 0 0 100"
  have ok: "win_ok ?w" by (simp add: win_ok_def send_window4_def)
  have "size_to_seq 4294967295 = - 1"
    by (simp add: word_unat_eq_iff unat_size_to_seq unsigned_minus_1_eq_mask mask_eq_exp_minus_1)
  then have "in_circle ?w 1 1"
    by (simp add: in_circle_def circ_dist_def win_begin_def get_sz_def send_window4_def)
  with ok show ?thesis using set_off_from_seq_advances [of ?w 1] by simp
qed

end
