(* ===== verification/Mem_Layout.thy ===== *)
theory Mem_Layout
  imports Window
begin

text \<open>
  The shared-memory layout of \<open>src/tcp_proto_mem.h\<close>. Every protocol component keeps its state in
  an area of one shared block; the areas follow one another in the order of \<open>MEM_TAG\<close>. Here are
  the tags, the areas as records, their sizes and offsets, and the initialisation of a fresh
  block. The component theories work on these area records.
\<close>

section \<open>Tags and areas\<close>

datatype MEM_TAG =
    MEM_TAG_BEGIN | INTERNAL_STATE | OUTPUT_RECEIVER_WINDOW_CONTROL | OUTPUT_RECEIVER_WINDOW_NAGLES
  | OUTPUT_CUMULATIVE_WINDOW_PROCESSING | OUTPUT_SEND_OUTPUT_BUFFER | OUTPUT_TIMEOUT_COMPUTING
  | OUTPUT_FAST_RETRANSMITION | INPUT_RECEIVER_WINDOW_PROCESSING | INPUT_RECEIVER_BUFFER_PROCESSING
  | ESTABLISH_HANDSHAKER | CLOSE_HANDSHAKER | MEM_TAG_END | RESERVED

definition mem_tags :: "MEM_TAG list" where
  "mem_tags = [MEM_TAG_BEGIN, INTERNAL_STATE, OUTPUT_RECEIVER_WINDOW_CONTROL,
     OUTPUT_RECEIVER_WINDOW_NAGLES, OUTPUT_CUMULATIVE_WINDOW_PROCESSING, OUTPUT_SEND_OUTPUT_BUFFER,
     OUTPUT_TIMEOUT_COMPUTING, OUTPUT_FAST_RETRANSMITION, INPUT_RECEIVER_WINDOW_PROCESSING,
     INPUT_RECEIVER_BUFFER_PROCESSING, ESTABLISH_HANDSHAKER, CLOSE_HANDSHAKER, MEM_TAG_END, RESERVED]"

text \<open>The value of an enumerator, and the order of the enumeration.\<close>

fun tag_val :: "MEM_TAG \<Rightarrow> nat" where
  "tag_val MEM_TAG_BEGIN = 0"
| "tag_val INTERNAL_STATE = 1"
| "tag_val OUTPUT_RECEIVER_WINDOW_CONTROL = 2"
| "tag_val OUTPUT_RECEIVER_WINDOW_NAGLES = 3"
| "tag_val OUTPUT_CUMULATIVE_WINDOW_PROCESSING = 4"
| "tag_val OUTPUT_SEND_OUTPUT_BUFFER = 5"
| "tag_val OUTPUT_TIMEOUT_COMPUTING = 6"
| "tag_val OUTPUT_FAST_RETRANSMITION = 7"
| "tag_val INPUT_RECEIVER_WINDOW_PROCESSING = 8"
| "tag_val INPUT_RECEIVER_BUFFER_PROCESSING = 9"
| "tag_val ESTABLISH_HANDSHAKER = 10"
| "tag_val CLOSE_HANDSHAKER = 11"
| "tag_val MEM_TAG_END = 12"
| "tag_val RESERVED = 13"

lemma tag_val_inject [simp]: "tag_val s = tag_val t \<longleftrightarrow> s = t"
  by (cases s; cases t) simp_all

instantiation MEM_TAG :: linorder
begin

definition less_eq_MEM_TAG :: "MEM_TAG \<Rightarrow> MEM_TAG \<Rightarrow> bool" where
  "s \<le> t \<longleftrightarrow> tag_val s \<le> tag_val t"

definition less_MEM_TAG :: "MEM_TAG \<Rightarrow> MEM_TAG \<Rightarrow> bool" where
  "s < t \<longleftrightarrow> tag_val s < tag_val t"

instance
  by standard (auto simp: less_eq_MEM_TAG_def less_MEM_TAG_def)

end

record rwp_area =
  rwp_start :: size_t
  rwp_off :: off_t
  rwp_sz :: size_t
  rwp_flushed_off :: off_t

record rbp_area =
  rbp_off :: off_t
  rbp_buf :: bmem

record rwc_area =
  receiver_win_sz :: size_t
  congection_win_sz :: size_t
  mtu :: size_t

record cwp_area =
  cwp_start :: size_t
  cwp_off :: off_t
  cwp_send_off :: off_t
  cwp_sz :: size_t

record sob_area =
  sob_buf :: bmem
  off_map :: "nat \<Rightarrow> off_t"
  sob_end :: off_t

record tc_area =
  SRTT :: size_t
  RTTVAR :: size_t
  nm :: size_t

record fr_area =
  fr_last :: tcp_seq
  fr_cnt :: int

record eh_area =
  eh_send_seq :: tcp_seq
  eh_recv_seq :: tcp_seq
  eh_recv_ack_seq :: tcp_seq

record ch_area =
  ch_send_seq :: tcp_seq
  ch_recv_seq :: tcp_seq

record shmem =
  st_state :: tcp_state
  rwc :: rwc_area
  cwp :: cwp_area
  sob :: sob_area
  tc :: tc_area
  fr :: fr_area
  rwp :: rwp_area
  rbp :: rbp_area
  eh :: eh_area
  ch :: ch_area

section \<open>Sizes and offsets\<close>

text \<open>\<open>sizeof(mem_area<E>::area)\<close> on x86-64: an empty structure aligned to 8 bytes takes 8; the
  packed handshaker area takes 12.\<close>

fun area_sz :: "MEM_TAG \<Rightarrow> nat" where
  "area_sz MEM_TAG_BEGIN = 0"
| "area_sz INTERNAL_STATE = 8"
| "area_sz OUTPUT_RECEIVER_WINDOW_CONTROL = 24"
| "area_sz OUTPUT_RECEIVER_WINDOW_NAGLES = 8"
| "area_sz OUTPUT_CUMULATIVE_WINDOW_PROCESSING = 32"
| "area_sz OUTPUT_SEND_OUTPUT_BUFFER = OUTPUT_SEND_BUF_SZ + 8 * OUTPUT_SEND_BUF_SZ + 8"
| "area_sz OUTPUT_TIMEOUT_COMPUTING = 24"
| "area_sz OUTPUT_FAST_RETRANSMITION = 8"
| "area_sz INPUT_RECEIVER_WINDOW_PROCESSING = 32"
| "area_sz INPUT_RECEIVER_BUFFER_PROCESSING = 8 + INPUT_BUF_SZ"
| "area_sz ESTABLISH_HANDSHAKER = 12"
| "area_sz CLOSE_HANDSHAKER = 8"
| "area_sz MEM_TAG_END = 8"
| "area_sz RESERVED = 8"

text \<open>\<open>mem_info<E>::summary_prefix_off\<close>: the template recursion over the previous enumerator.\<close>

fun prefix_off :: "nat \<Rightarrow> nat" where
  "prefix_off 0 = 0"
| "prefix_off (Suc n) = prefix_off n + area_sz (mem_tags ! n)"

definition summary_prefix_off :: "MEM_TAG \<Rightarrow> nat" where
  "summary_prefix_off t = prefix_off (tag_val t)"

definition mem_full_sz :: nat where
  "mem_full_sz = summary_prefix_off MEM_TAG_END"

section \<open>Initialisation\<close>

text \<open>A new shared-memory file is filled with zeros.\<close>

definition zero_mem :: shmem where
  "zero_mem = \<lparr>st_state = CLOSED,
     rwc = \<lparr>receiver_win_sz = 0, congection_win_sz = 0, mtu = 0\<rparr>,
     cwp = \<lparr>cwp_start = 0, cwp_off = 0, cwp_send_off = 0, cwp_sz = 0\<rparr>,
     sob = \<lparr>sob_buf = (\<lambda>_. 0), off_map = (\<lambda>_. 0), sob_end = 0\<rparr>,
     tc = \<lparr>SRTT = 0, RTTVAR = 0, nm = 0\<rparr>,
     fr = \<lparr>fr_last = 0, fr_cnt = 0\<rparr>,
     rwp = \<lparr>rwp_start = 0, rwp_off = 0, rwp_sz = 0, rwp_flushed_off = 0\<rparr>,
     rbp = \<lparr>rbp_off = 0, rbp_buf = (\<lambda>_. 0)\<rparr>,
     eh = \<lparr>eh_send_seq = 0, eh_recv_seq = 0, eh_recv_ack_seq = 0\<rparr>,
     ch = \<lparr>ch_send_seq = 0, ch_recv_seq = 0\<rparr>\<rparr>"

text \<open>\<open>mem_area<E>::init\<close>; the areas with an empty \<open>init\<close> are left as they are.\<close>

fun area_init :: "MEM_TAG \<Rightarrow> shmem \<Rightarrow> shmem" where
  "area_init INPUT_RECEIVER_WINDOW_PROCESSING m =
     m\<lparr>rwp := (rwp m)\<lparr>rwp_start := 0, rwp_off := 0, rwp_sz := INPUT_WINDOW_SZ\<rparr>\<rparr>"
| "area_init INPUT_RECEIVER_BUFFER_PROCESSING m = m\<lparr>rbp := (rbp m)\<lparr>rbp_off := 0\<rparr>\<rparr>"
| "area_init OUTPUT_RECEIVER_WINDOW_CONTROL m =
     m\<lparr>rwc := (rwc m)\<lparr>mtu := 0, receiver_win_sz := OUTPUT_WINDOW_SZ,
       congection_win_sz := OUTPUT_CONGECTION_START_SZ\<rparr>\<rparr>"
| "area_init OUTPUT_CUMULATIVE_WINDOW_PROCESSING m =
     m\<lparr>cwp := (cwp m)\<lparr>cwp_start := 0, cwp_off := 0, cwp_send_off := 0, cwp_sz := OUTPUT_WINDOW_SZ\<rparr>\<rparr>"
| "area_init OUTPUT_FAST_RETRANSMITION m = m\<lparr>fr := (fr m)\<lparr>fr_cnt := 0\<rparr>\<rparr>"
| "area_init INTERNAL_STATE m = m\<lparr>st_state := CLOSED\<rparr>"
| "area_init _ m = m"

text \<open>\<open>mem_info<E>::init\<close> initialises its own area, then those before it; \<open>on_init\<close> starts at the
  tag before \<open>MEM_TAG_END\<close>.\<close>

fun init_below :: "nat \<Rightarrow> shmem \<Rightarrow> shmem" where
  "init_below 0 m = m"
| "init_below (Suc n) m = init_below n (area_init (mem_tags ! Suc n) m)"

definition on_init :: "shmem \<Rightarrow> shmem" where
  "on_init m = init_below (tag_val CLOSE_HANDSHAKER) m"

section \<open>Lemmas\<close>

lemma mem_tags_tag_val [simp]: "mem_tags ! tag_val t = t"
  by (cases t) (simp_all add: mem_tags_def)

lemma prefix_off_mono: "m \<le> n \<Longrightarrow> prefix_off m \<le> prefix_off n"
  by (induction n) (auto simp: le_Suc_eq)

lemma prefix_off_next: "m < n \<Longrightarrow> prefix_off m + area_sz (mem_tags ! m) \<le> prefix_off n"
  using prefix_off_mono [of "Suc m" n] by simp

lemma prefix_off_numeral:
  "prefix_off (numeral k) = prefix_off (pred_numeral k) + area_sz (mem_tags ! pred_numeral k)"
  by (simp only: numeral_eq_Suc prefix_off.simps)

lemmas layout_simps = summary_prefix_off_def prefix_off_numeral mem_tags_def
  OUTPUT_SEND_BUF_SZ_def INPUT_BUF_SZ_def

lemma init_below_numeral:
  "init_below (numeral k) m = init_below (pred_numeral k) (area_init (mem_tags ! numeral k) m)"
  by (simp only: numeral_eq_Suc init_below.simps)

section \<open>Properties\<close>

text \<open>
  C37: areas of different tags never overlap, they are laid out in the order of the tags, and every
  area ends within the size that the socket reserves.
\<close>

theorem areas_disjoint:
  "(s < t \<longrightarrow> summary_prefix_off s + area_sz s \<le> summary_prefix_off t) \<and>
   (t < MEM_TAG_END \<longrightarrow> summary_prefix_off t + area_sz t \<le> mem_full_sz)"
  using prefix_off_next [of "tag_val s" "tag_val t"] prefix_off_next [of "tag_val t" "tag_val MEM_TAG_END"]
  by (simp add: summary_prefix_off_def mem_full_sz_def less_MEM_TAG_def)

theorem areas_disjoint_witness:
  "summary_prefix_off INTERNAL_STATE + area_sz INTERNAL_STATE \<le> summary_prefix_off ESTABLISH_HANDSHAKER \<and>
   summary_prefix_off CLOSE_HANDSHAKER + area_sz CLOSE_HANDSHAKER \<le> mem_full_sz"
  using areas_disjoint [of INTERNAL_STATE ESTABLISH_HANDSHAKER] areas_disjoint [of INTERNAL_STATE CLOSE_HANDSHAKER]
  by (simp add: less_MEM_TAG_def)

text \<open>
  every area begins at a multiple of 8, except the closing handshaker's: the packed
  12-byte area before it leaves it misaligned although it is declared with 8-byte alignment.
\<close>

theorem areas_aligned_but_one:
  "t < MEM_TAG_END \<Longrightarrow> 8 dvd summary_prefix_off t \<longleftrightarrow> t \<noteq> CLOSE_HANDSHAKER"
  by (cases t) (simp_all add: layout_simps less_MEM_TAG_def)

theorem areas_aligned_but_one_witness: "\<not> 8 dvd summary_prefix_off CLOSE_HANDSHAKER"
  using areas_aligned_but_one [of CLOSE_HANDSHAKER] by (simp add: less_MEM_TAG_def)

text \<open>
  initialising a fresh block yields a closed connection with empty windows of the configured
  sizes, no unread input, an empty send buffer and the initial congestion window.
\<close>

theorem on_init_fresh:
  "on_init zero_mem = zero_mem\<lparr>
     st_state := CLOSED,
     rwc := \<lparr>receiver_win_sz = 1000, congection_win_sz = 100, mtu = 0\<rparr>,
     cwp := \<lparr>cwp_start = 0, cwp_off = 0, cwp_send_off = 0, cwp_sz = 1000\<rparr>,
     rwp := \<lparr>rwp_start = 0, rwp_off = 0, rwp_sz = 1000, rwp_flushed_off = 0\<rparr>\<rparr>"
  by (simp add: on_init_def init_below_numeral mem_tags_def zero_mem_def INPUT_WINDOW_SZ_def
      OUTPUT_WINDOW_SZ_def OUTPUT_CONGECTION_START_SZ_def)

end
