(* ===== verification/Send_Buffer.thy ===== *)
theory Send_Buffer
  imports Mem_Layout Proto_Msg
begin

text \<open>
  The retransmission buffer of the sender: the in-place messages of \<open>src/newimpl.cpp\<close>
  (\<open>inplace_msg\<close>, \<open>put_msg_inplace\<close> ... \<open>get_msg_data_sz\<close>) and \<open>send_output_buffer\<close> of
  \<open>src/tcp_proto_output.h\<close>. Messages stand one after another in \<open>char buf[]\<close>, each behind a
  semaphore and a flag; \<open>off_map\<close> maps a client offset (a position in the window's byte stream) to
  the place of the message that starts there.

  On x86-64 \<open>sem_t\<close> takes 32 bytes, \<open>used\<close> stands at 32, \<open>msg_data\<close> at 33, and
  \<open>sizeof(inplace_msg)\<close> is 40. The counts of the semaphores are kept in \<open>sob_sem\<close>, by address, and
  not in the bytes of the buffer.
\<close>

section \<open>In-place messages\<close>

record send_buf = sob_area +
  sob_sem :: "nat \<Rightarrow> nat"

definition off_used :: nat where "off_used = 32"
definition off_msg_data :: nat where "off_msg_data = 33"
definition sizeof_inplace_msg :: nat where "sizeof_inplace_msg = 40"

lemmas inplace_defs = off_used_def off_msg_data_def sizeof_inplace_msg_def

text \<open>The header of an in-place message that starts at \<open>a\<close> lies inside the buffer.\<close>

definition hdr_in_buf :: "nat \<Rightarrow> bool" where
  "hdr_in_buf a \<longleftrightarrow> a + off_msg_data + sizeof_raw_msg_t \<le> OUTPUT_SEND_BUF_SZ"

definition get_inplace_msg_size :: "bmem \<Rightarrow> nat \<Rightarrow> size_t" where
  "get_inplace_msg_size buf a =
     (let in_msg = load_msg buf (a + off_msg_data);
          fsz = word_of_nat sizeof_inplace_msg + full_sz in_msg
      in (fsz div 8 + 1) * 8)"

text \<open>\<open>put_msg_inplace\<close>: copy the message, initialise its semaphore, return the size it takes.\<close>

definition put_msg_inplace :: "nat \<Rightarrow> msg \<Rightarrow> send_buf \<Rightarrow> (size_t \<times> send_buf) res" where
  "put_msg_inplace a m s =
     (if a + off_msg_data + unat (full_sz m - data_len m) \<le> OUTPUT_SEND_BUF_SZ \<and>
         a + off_msg_data + sizeof_raw_msg_t + unat (data_len m) \<le> OUTPUT_SEND_BUF_SZ
      then (let s' = s\<lparr>sob_buf := msg_copy_to (sob_buf s) (a + off_msg_data) m, sob_sem := (sob_sem s)(a := 0)\<rparr>
            in Inr (get_inplace_msg_size (sob_buf s') a, s'))
      else Inl Fault)"

text \<open>The address of the message inside its slot, and of the semaphore in front of it.\<close>

definition get_msg_inplace :: "nat \<Rightarrow> nat" where
  "get_msg_inplace a = a + off_msg_data"

definition get_msg_inplace_future :: "nat \<Rightarrow> nat" where
  "get_msg_inplace_future a = a"

text \<open>\<open>output_signal_msg_complete\<close> goes back from a message to its slot and posts the semaphore.\<close>

definition output_signal_msg_complete :: "nat \<Rightarrow> send_buf \<Rightarrow> send_buf" where
  "output_signal_msg_complete raw s =
     (let a = get_msg_inplace_future (raw - off_msg_data) in s\<lparr>sob_sem := (sob_sem s)(a := sob_sem s a + 1)\<rparr>)"

definition release_inplace_msg :: "nat \<Rightarrow> send_buf \<Rightarrow> (size_t \<times> send_buf) res" where
  "release_inplace_msg a s =
     (if hdr_in_buf a
      then (let s' = output_signal_msg_complete (get_msg_inplace a) s
            in Inr (get_inplace_msg_size (sob_buf s') a, s'))
      else Inl Fault)"

text \<open>The three accessors below treat their argument as the address of an \<open>inplace_msg\<close>.\<close>

definition is_msg_used :: "nat \<Rightarrow> bmem \<Rightarrow> bool" where
  "is_msg_used p buf \<longleftrightarrow> buf (p + off_used) \<noteq> 0"

definition mark_msg_used :: "nat \<Rightarrow> bool \<Rightarrow> bmem \<Rightarrow> bmem" where
  "mark_msg_used p used buf = buf(p + off_used := of_bool used)"

definition get_msg_data_sz :: "nat \<Rightarrow> bmem \<Rightarrow> size_t" where
  "get_msg_data_sz p buf = data_len (load_msg buf (p + off_msg_data))"

section \<open>send_output_buffer\<close>

definition real_off :: "off_t \<Rightarrow> 'a sob_area_scheme \<Rightarrow> off_t res" where
  "real_off off s = (if unat off < OUTPUT_SEND_BUF_SZ then Inr (off_map s (unat off)) else Inl Fault)"

definition put_real_off :: "off_t \<Rightarrow> off_t \<Rightarrow> 'a sob_area_scheme \<Rightarrow> 'a sob_area_scheme res" where
  "put_real_off client_off r s =
     (if unat client_off < OUTPUT_SEND_BUF_SZ then Inr (s\<lparr>off_map := (off_map s)(unat client_off := r)\<rparr>)
      else Inl Fault)"

definition sob_refresh :: "send_buf \<Rightarrow> send_buf res" where
  "sob_refresh s = put_real_off 0 0 (s\<lparr>sob_end := 0\<rparr>)"

definition get_msg_at :: "off_t \<Rightarrow> send_buf \<Rightarrow> nat res" where
  "get_msg_at off s =
     (case real_off off s of
        Inl e \<Rightarrow> Inl e
      | Inr r \<Rightarrow> if hdr_in_buf (unat r) then Inr (get_msg_inplace (unat r)) else Inl Fault)"

text \<open>The result is the address of the semaphore that the caller may wait on.\<close>

definition put_msg_at :: "off_t \<Rightarrow> msg \<Rightarrow> send_buf \<Rightarrow> (nat \<times> send_buf) res" where
  "put_msg_at off m s =
     (case real_off off s of
        Inl e \<Rightarrow> Inl e
      | Inr r \<Rightarrow>
          (case put_msg_inplace (unat r) m s of
             Inl e \<Rightarrow> Inl e
           | Inr (final_sz, s1) \<Rightarrow>
               (let s2 = s1\<lparr>sob_end := sob_end s1 + final_sz\<rparr>
                in case put_real_off (off + data_len m) (sob_end s2) s2 of
                     Inl e \<Rightarrow> Inl e
                   | Inr s3 \<Rightarrow>
                       (case real_off off s3 of
                          Inl e \<Rightarrow> Inl e
                        | Inr r' \<Rightarrow> Inr (get_msg_inplace_future (unat r'), s3)))))"

text \<open>The loop of \<open>release_range\<close>; \<open>None\<close> when it does not end.\<close>

partial_function (option) release_loop :: "size_t \<Rightarrow> size_t \<Rightarrow> send_buf \<Rightarrow> send_buf res option" where
  "release_loop off real_end s =
     (if off < real_end
      then (case release_inplace_msg (unat off) s of
              Inl e \<Rightarrow> Some (Inl e)
            | Inr (sz, s') \<Rightarrow> release_loop (off + sz) real_end s')
      else Some (Inr s))"

definition release_range :: "off_t \<Rightarrow> off_t \<Rightarrow> send_buf \<Rightarrow> send_buf res option" where
  "release_range first last' s =
     (case real_off first s of
        Inl e \<Rightarrow> Some (Inl e)
      | Inr off \<Rightarrow>
          (case real_off (last' + 1) s of
             Inl e \<Rightarrow> Some (Inl e)
           | Inr real_end \<Rightarrow> release_loop off real_end s))"

section \<open>What the buffer holds\<close>

text \<open>
  \<open>slot_at buf a seq p\<close>: a message with sequence number \<open>seq\<close> and payload \<open>p\<close> stands in the slot at
  \<open>a\<close>. Only the parts that nobody changes later are named: sending a message fills in addresses,
  time stamps and checksum in place. \<open>chain\<close>: the payloads \<open>ps\<close> stand one after another from
  client offset \<open>o\<close> and address \<open>a\<close> on, and the map knows each of their starts and the end.
\<close>

definition slot_at :: "bmem \<Rightarrow> nat \<Rightarrow> tcp_seq \<Rightarrow> u8 list \<Rightarrow> bool" where
  "slot_at buf a seq p \<longleftrightarrow>
     (let m = load_msg buf (a + off_msg_data)
      in buf_len m = word_of_nat (length p) \<and> data_len m = word_of_nat (length p) \<and> get_seq m = seq \<and>
         pbuf (packet m) = p)"

definition slot_sz :: "u8 list \<Rightarrow> nat" where
  "slot_sz p = ((112 + length p) div 8 + 1) * 8"

fun chain :: "bmem \<Rightarrow> (nat \<Rightarrow> off_t) \<Rightarrow> size_t \<Rightarrow> u8 list list \<Rightarrow> nat \<Rightarrow> nat \<Rightarrow> bool" where
  "chain buf om start [] off a \<longleftrightarrow> om off = word_of_nat a"
| "chain buf om start (p # ps) off a \<longleftrightarrow> om off = word_of_nat a \<and> p \<noteq> [] \<and>
     slot_at buf a (size_to_seq (start + word_of_nat off)) p \<and>
     chain buf om start ps (off + length p) (a + slot_sz p)"

definition stream_len :: "u8 list list \<Rightarrow> nat" where "stream_len ps = length (concat ps)"

definition slots_len :: "u8 list list \<Rightarrow> nat" where "slots_len ps = sum_list (map slot_sz ps)"

definition buf_rep :: "size_t \<Rightarrow> send_buf \<Rightarrow> u8 list list \<Rightarrow> bool" where
  "buf_rep start s ps \<longleftrightarrow> chain (sob_buf s) (off_map s) start ps 0 0 \<and> stream_len ps \<le> 1000 \<and>
     sob_end s = word_of_nat (slots_len ps)"

section \<open>Lemmas\<close>

lemma slots_len_simps [simp]: "slots_len [] = 0" "slots_len (p # ps) = slot_sz p + slots_len ps"
  "slots_len (ps @ qs) = slots_len ps + slots_len qs"
  and stream_len_simps [simp]: "stream_len [] = 0" "stream_len (p # ps) = length p + stream_len ps"
  "stream_len (ps @ qs) = stream_len ps + stream_len qs"
  by (simp_all add: slots_len_def stream_len_def)

lemma slot_sz_bounds: "113 + length p \<le> slot_sz p" "slot_sz p \<le> 120 + length p"
  unfolding slot_sz_def by presburger+

lemma slots_len_bound: "list_all (\<lambda>p. p \<noteq> []) ps \<Longrightarrow> slots_len ps \<le> 121 * stream_len ps"
proof (induction ps)
  case (Cons p ps)
  have "1 \<le> length p" using Cons.prems by (cases p) simp_all
  then show ?case using Cons slot_sz_bounds(2) [of p] by simp
qed simp

lemma chain_nonempty: "chain buf om start ps off a \<Longrightarrow> list_all (\<lambda>p. p \<noteq> []) ps"
  by (induction ps arbitrary: off a) auto

lemma chain_start: "chain buf om start ps off a \<Longrightarrow> om off = word_of_nat a"
  by (cases ps) simp_all

lemma chain_append:
  "chain buf om start (ps @ qs) off a \<longleftrightarrow>
   chain buf om start ps off a \<and> chain buf om start qs (off + stream_len ps) (a + slots_len ps)"
  by (induction ps arbitrary: off a) (auto simp: add.assoc dest: chain_start)

lemma chain_end: "chain buf om start ps off a \<Longrightarrow> om (off + stream_len ps) = word_of_nat (a + slots_len ps)"
  using chain_append [of buf om start ps "[]" off a] by simp

text \<open>The bytes of a slot that \<open>slot_at\<close> reads: the two lengths, the sequence number, the payload.\<close>

definition slot_byte :: "nat \<Rightarrow> nat \<Rightarrow> bool" where
  "slot_byte n i \<longleftrightarrow> 33 \<le> i \<and> i < 49 \<or> 73 \<le> i \<and> i < 77 \<or> 105 \<le> i \<and> i < 105 + n"

lemma slot_at_bytes:
  "length p < 18446744073709551616 \<Longrightarrow>
   slot_at buf a seq p \<longleftrightarrow> ld64 buf (a + 33) = word_of_nat (length p) \<and> ld64 buf (a + 41) = word_of_nat (length p) \<and>
     ld32 buf (a + 73) = seq \<and> mem_read buf (a + 105) (length p) = p"
  by (auto simp: slot_at_def load_msg_def load_packet_def load_TCPHDR_def load_tcphdr_def get_seq_def msg_hdr_def
      inplace_defs sizeof_defs Let_def unat_word_of_nat_u64 add.commute)

lemma mem_read_cong: "(\<And>i. a \<le> i \<Longrightarrow> i < a + n \<Longrightarrow> buf' i = buf i) \<Longrightarrow> mem_read buf' a n = mem_read buf a n"
  by (simp add: mem_read_def)

lemma slot_at_cong:
  assumes "length p < 18446744073709551616" and "\<And>i. slot_byte (length p) i \<Longrightarrow> buf' (a + i) = buf (a + i)"
  shows "slot_at buf' a seq p = slot_at buf a seq p"
proof -
  have eq: "mem_read buf' (a + k) n = mem_read buf (a + k) n" if "\<And>i. k \<le> i \<Longrightarrow> i < k + n \<Longrightarrow> slot_byte (length p) i" for k n
  proof (rule mem_read_cong)
    show "buf' i = buf i" if "a + k \<le> i" "i < a + k + n" for i
      using assms(2) [of "i - a"] that \<open>\<And>i. k \<le> i \<Longrightarrow> i < k + n \<Longrightarrow> slot_byte (length p) i\<close> [of "i - a"] by simp
  qed
  show ?thesis
    using eq [of 33 8] eq [of 41 8] eq [of 73 4] eq [of 105 "length p"]
    by (simp add: slot_at_bytes [OF assms(1)] ld64_def ld32_def slot_byte_def)
qed

lemma chain_frame:
  assumes "\<And>i. a \<le> i \<Longrightarrow> i < a + slots_len ps \<Longrightarrow> buf' i = buf i" and "\<And>j. j \<le> off + stream_len ps \<Longrightarrow> om' j = om j"
    and "stream_len ps \<le> 1000"
  shows "chain buf' om' start ps off a = chain buf om start ps off a"
  using assms
proof (induction ps arbitrary: off a)
  case (Cons p ps)
  have "slot_at buf' a seq p = slot_at buf a seq p" for seq
    using Cons.prems(1,3) slot_sz_bounds(1) [of p] by (intro slot_at_cong) (auto simp: slot_byte_def)
  moreover have "chain buf' om' start ps (off + length p) (a + slot_sz p) = chain buf om start ps (off + length p) (a + slot_sz p)"
    using Cons.prems by (intro Cons.IH) auto
  ultimately show ?case using Cons.prems(2) [of off] by simp
qed simp

lemma slot_at_put:
  assumes "length (pbuf (packet m)) = unat (buf_len m)" and "data_len m = buf_len m"
  shows "slot_at (msg_copy_to buf (a + off_msg_data) m) a (get_seq m) (pbuf (packet m))"
proof -
  have "load_msg (msg_copy_to buf (a + off_msg_data) m) (a + off_msg_data) = m"
    unfolding msg_copy_to_full [OF assms] by (rule load_msg_holds [OF mem_holds_write assms(1)])
  then show ?thesis using assms by (simp add: slot_at_def)
qed

lemma get_inplace_msg_size_slot:
  assumes "slot_at buf a seq p" and "length p \<le> 1000"
  shows "get_inplace_msg_size buf a = word_of_nat (slot_sz p)"
proof -
  have "unat (word_of_nat (length p) :: size_t) = length p" using assms(2) by (simp add: unat_word_of_nat_u64)
  then have "unat (112 + word_of_nat (length p) :: size_t) = 112 + length p"
    using assms(2) unat_plus_no_wrap [of "112 :: size_t" "word_of_nat (length p)"] by simp
  then have "unat ((112 + word_of_nat (length p) :: size_t) div 8) = (112 + length p) div 8"
    by (simp add: unat_div_distrib)
  then have "(112 + word_of_nat (length p) :: size_t) div 8 = word_of_nat ((112 + length p) div 8)"
    using assms(2) by (simp add: word_unat_eq_iff unat_word_of_nat_u64)
  then show ?thesis
    using assms(1) by (simp add: get_inplace_msg_size_def slot_at_def slot_sz_def full_sz_def full_sz_no_obj_def
        sizeof_defs inplace_defs Let_def algebra_simps)
qed

section \<open>The operations on the representation\<close>

lemma buf_rep_bounds:
  assumes "buf_rep start s ps"
  shows "stream_len ps \<le> 1000" and "slots_len ps \<le> 121000"
    and "unat (word_of_nat (stream_len ps) :: off_t) = stream_len ps"
    and "unat (word_of_nat (slots_len ps) :: off_t) = slots_len ps"
proof -
  show l: "stream_len ps \<le> 1000" using assms by (simp add: buf_rep_def)
  have "slots_len ps \<le> 121 * stream_len ps"
    using assms by (intro slots_len_bound) (auto simp: buf_rep_def dest: chain_nonempty)
  with l show "slots_len ps \<le> 121000" by simp
  with l show "unat (word_of_nat (stream_len ps) :: off_t) = stream_len ps"
    "unat (word_of_nat (slots_len ps) :: off_t) = slots_len ps"
    by (simp_all add: unat_word_of_nat_u64)
qed

lemma buf_rep_prefix_bounds:
  assumes "buf_rep start s (ps @ qs)"
  shows "unat (word_of_nat (stream_len ps) :: off_t) = stream_len ps" "stream_len ps < OUTPUT_SEND_BUF_SZ"
    and "unat (word_of_nat (slots_len ps) :: off_t) = slots_len ps" "hdr_in_buf (slots_len ps)"
  using buf_rep_bounds(1,2) [OF assms]
  by (simp_all add: unat_word_of_nat_u64 hdr_in_buf_def OUTPUT_SEND_BUF_SZ_def inplace_defs sizeof_defs)

lemma real_off_ok:
  assumes "buf_rep start s (ps @ qs)"
  shows "real_off (word_of_nat (stream_len ps)) s = Inr (word_of_nat (slots_len ps))"
  using assms buf_rep_prefix_bounds [OF assms] chain_start [of _ _ start qs "stream_len ps" "slots_len ps"]
  by (auto simp: real_off_def buf_rep_def chain_append)

lemma get_msg_at_ok:
  assumes "buf_rep start s (ps @ qs)"
  shows "get_msg_at (word_of_nat (stream_len ps)) s = Inr (slots_len ps + off_msg_data)"
  using real_off_ok [OF assms] buf_rep_prefix_bounds [OF assms]
  by (simp add: get_msg_at_def get_msg_inplace_def)

lemma buf_rep_slot:
  assumes "buf_rep start s (ps @ p # qs)"
  shows "slot_at (sob_buf s) (slots_len ps) (size_to_seq (start + word_of_nat (stream_len ps))) p"
  using assms by (simp add: buf_rep_def chain_append)

text \<open>A message that \<open>send\<close> may put: its payload is complete and carries the next sequence number.\<close>

definition next_put :: "size_t \<Rightarrow> u8 list list \<Rightarrow> msg \<Rightarrow> bool" where
  "next_put start ps m \<longleftrightarrow> pbuf (packet m) \<noteq> [] \<and> length (pbuf (packet m)) = unat (buf_len m) \<and>
     data_len m = buf_len m \<and> stream_len ps + unat (data_len m) \<le> 1000 \<and>
     get_seq m = size_to_seq (start + word_of_nat (stream_len ps))"

lemma put_msg_at_ok:
  assumes "buf_rep start s ps" and "next_put start ps m"
  shows "\<exists>t. put_msg_at (word_of_nat (stream_len ps)) m s = Inr (slots_len ps, t) \<and>
    buf_rep start t (ps @ [pbuf (packet m)]) \<and> sob_sem t = (sob_sem s)(slots_len ps := 0)"
proof -
  let ?p = "pbuf (packet m)" and ?o = "stream_len ps" and ?a = "slots_len ps"
  have m: "?p \<noteq> []" "length ?p = unat (data_len m)" "?o + length ?p \<le> 1000"
      "get_seq m = size_to_seq (start + word_of_nat ?o)" "length ?p = unat (buf_len m)" "data_len m = buf_len m"
    using assms(2) by (auto simp: next_put_def)
  note b = buf_rep_bounds [OF assms(1)]
  let ?buf = "msg_copy_to (sob_buf s) (?a + off_msg_data) m"
  let ?om = "(off_map s)(?o + length ?p := word_of_nat (?a + slot_sz ?p))"
  let ?t = "s\<lparr>sob_buf := ?buf, sob_sem := (sob_sem s)(?a := 0), sob_end := word_of_nat (?a + slot_sz ?p), off_map := ?om\<rparr>"
  have slot: "slot_at ?buf ?a (get_seq m) ?p" using m by (intro slot_at_put) simp_all
  have sz: "get_inplace_msg_size ?buf ?a = word_of_nat (slot_sz ?p)"
    using m by (intro get_inplace_msg_size_slot [OF slot]) simp
  have f: "full_sz m - data_len m = 72" using m(6) by (simp add: full_sz_def full_sz_no_obj_def sizeof_defs)
  have put: "put_msg_inplace ?a m s =
      Inr (word_of_nat (slot_sz ?p), s\<lparr>sob_buf := ?buf, sob_sem := (sob_sem s)(?a := 0)\<rparr>)"
    using b m sz f by (simp add: put_msg_inplace_def inplace_defs sizeof_defs OUTPUT_SEND_BUF_SZ_def)
  have off: "unat (word_of_nat ?o + data_len m) = ?o + length ?p"
    using b m unat_plus_no_wrap [of "word_of_nat ?o" "data_len m"] by simp
  have ne: "?o + length ?p \<noteq> ?o" using m(1) by simp
  have "put_msg_at (word_of_nat ?o) m s = Inr (?a, ?t)"
    using real_off_ok [of start s ps "[]"] assms(1) put off b m ne
    by (simp add: put_msg_at_def put_real_off_def real_off_def OUTPUT_SEND_BUF_SZ_def get_msg_inplace_future_def
        buf_rep_def)
  moreover have "chain ?buf ?om start ps 0 0"
    using assms(1) m f b(1) unfolding buf_rep_def
    by (subst chain_frame [where buf = "sob_buf s" and om = "off_map s"])
      (auto simp: msg_copy_to_def mem_write_outside off_msg_data_def)
  then have "buf_rep start ?t (ps @ [?p])"
    using slot m assms(1) chain_end [of "sob_buf s" "off_map s" start ps 0 0] by (auto simp: buf_rep_def chain_append)
  ultimately show ?thesis by auto
qed

lemma sob_refresh_ok: "\<exists>t. sob_refresh s = Inr t \<and> buf_rep start t [] \<and> sob_sem t = sob_sem s"
  by (simp add: sob_refresh_def put_real_off_def OUTPUT_SEND_BUF_SZ_def buf_rep_def)

text \<open>Where the slots of the payloads \<open>qs\<close> start when the first of them starts at \<open>a\<close>.\<close>

fun starts :: "nat \<Rightarrow> u8 list list \<Rightarrow> nat set" where
  "starts a [] = {}"
| "starts a (q # qs) = insert a (starts (a + slot_sz q) qs)"

definition post_all :: "nat set \<Rightarrow> send_buf \<Rightarrow> send_buf" where
  "post_all A s = s\<lparr>sob_sem := (\<lambda>a. sob_sem s a + of_bool (a \<in> A))\<rparr>"

lemma starts_ge: "x \<in> starts a qs \<Longrightarrow> a \<le> x"
  by (induction qs arbitrary: a) (auto dest: add_leD1)

lemma post_all_empty [simp]: "post_all {} s = s"
  by (simp add: post_all_def)

lemma post_all_post_all:
  assumes "A \<inter> B = {}"
  shows "post_all A (post_all B s) = post_all (A \<union> B) s"
proof -
  have "(\<lambda>a. sob_sem s a + of_bool (a \<in> B) + of_bool (a \<in> A)) = (\<lambda>a. sob_sem s a + of_bool (a \<in> A \<union> B))"
    using assms by (intro ext) (auto simp: of_bool_def)
  then show ?thesis by (simp add: post_all_def del: Un_iff)
qed

lemma release_inplace_msg_ok:
  assumes "slot_at (sob_buf s) a seq q" and "length q \<le> 1000" and "hdr_in_buf a"
  shows "release_inplace_msg a s = Inr (word_of_nat (slot_sz q), post_all {a} s)"
proof -
  have "(\<lambda>x. sob_sem s x + of_bool (x \<in> {a})) = (sob_sem s)(a := sob_sem s a + 1)" by auto
  then show ?thesis
    using assms get_inplace_msg_size_slot [OF assms(1,2)]
    by (simp add: release_inplace_msg_def output_signal_msg_complete_def get_msg_inplace_def get_msg_inplace_future_def
        post_all_def Let_def)
qed

lemma release_loop_ok:
  assumes "chain (sob_buf s) (off_map s) start qs off a" and "stream_len qs \<le> 1000" and "a + slots_len qs \<le> 121000"
  shows "release_loop (word_of_nat a) (word_of_nat (a + slots_len qs)) s = Some (Inr (post_all (starts a qs) s))"
  using assms
proof (induction qs arbitrary: off a s)
  case Nil
  then show ?case by (subst release_loop.simps) simp
next
  case (Cons q qs)
  let ?s = "post_all {a} s"
  have rel: "release_inplace_msg a s = Inr (word_of_nat (slot_sz q), ?s)"
    using Cons.prems by (intro release_inplace_msg_ok)
      (auto simp: hdr_in_buf_def OUTPUT_SEND_BUF_SZ_def inplace_defs sizeof_defs)
  have ih: "release_loop (word_of_nat (a + slot_sz q)) (word_of_nat (a + slot_sz q + slots_len qs)) ?s =
      Some (Inr (post_all (starts (a + slot_sz q) qs) ?s))"
    using Cons.prems by (intro Cons.IH [where off = "off + length q"]) (auto simp: post_all_def)
  have a: "unat (word_of_nat a :: size_t) = a" using Cons.prems(3) by (simp add: unat_word_of_nat_u64)
  have lt: "word_of_nat a < (word_of_nat (a + slots_len (q # qs)) :: size_t)"
    using Cons.prems(3) slot_sz_bounds(1) [of q] a unat_word_of_nat_u64 [of "a + slots_len (q # qs)"]
    by (simp only: word_less_nat_alt) simp
  have "a \<notin> starts (a + slot_sz q) qs" using starts_ge [of a "a + slot_sz q" qs] slot_sz_bounds(1) [of q] by auto
  then have "post_all (starts (a + slot_sz q) qs) ?s = post_all (starts a (q # qs)) s"
    by (simp add: post_all_post_all)
  with lt a rel ih show ?case by (subst release_loop.simps) (simp add: add.assoc)
qed

lemma release_range_ok:
  assumes "buf_rep start s (ps @ qs @ rs)"
  shows "release_range (word_of_nat (stream_len ps)) (word_of_nat (stream_len (ps @ qs)) - 1) s =
    Some (Inr (post_all (starts (slots_len ps) qs) s))"
proof -
  have "buf_rep start s ((ps @ qs) @ rs)" using assms by simp
  note ends = real_off_ok [OF assms] real_off_ok [OF this]
  have "chain (sob_buf s) (off_map s) start qs (stream_len ps) (slots_len ps)"
    using assms by (simp add: buf_rep_def chain_append)
  then have "release_loop (word_of_nat (slots_len ps)) (word_of_nat (slots_len ps + slots_len qs)) s =
      Some (Inr (post_all (starts (slots_len ps) qs) s))"
    using buf_rep_bounds(1,2) [OF assms] by (intro release_loop_ok) auto
  with ends show ?thesis by (simp add: release_range_def)
qed

section \<open>The interface to the send window\<close>

text \<open>
  What the send window relies on: a store of the window's segments, addressed by their offset in the
  window's byte stream. \<open>fetch\<close> reads the message at the address that \<open>get\<close> returns.
\<close>

locale segment_store =
  fixes rep :: "size_t \<Rightarrow> 's \<Rightarrow> u8 list list \<Rightarrow> bool"
    and put :: "off_t \<Rightarrow> msg \<Rightarrow> 's \<Rightarrow> (nat \<times> 's) res"
    and get :: "off_t \<Rightarrow> 's \<Rightarrow> nat res"
    and release :: "off_t \<Rightarrow> off_t \<Rightarrow> 's \<Rightarrow> 's res option"
    and refresh :: "'s \<Rightarrow> 's res"
    and fetch :: "nat \<Rightarrow> 's \<Rightarrow> msg"
  assumes put_rep: "rep start s ps \<Longrightarrow> next_put start ps m \<Longrightarrow>
      \<exists>a t. put (word_of_nat (stream_len ps)) m s = Inr (a, t) \<and> rep start t (ps @ [pbuf (packet m)])"
    and get_rep: "rep start s (ps @ p # qs) \<Longrightarrow>
      \<exists>a. get (word_of_nat (stream_len ps)) s = Inr a \<and> get_data (fetch a s) = p \<and>
          get_seq (fetch a s) = size_to_seq (start + word_of_nat (stream_len ps))"
    and release_rep: "rep start s (ps @ qs @ rs) \<Longrightarrow>
      \<exists>t. release (word_of_nat (stream_len ps)) (word_of_nat (stream_len (ps @ qs)) - 1) s = Some (Inr t) \<and>
          rep start t (ps @ qs @ rs)"
    and refresh_rep: "\<exists>t. refresh s = Inr t \<and> rep start t []"
begin

text \<open>A put keeps every older segment and makes the new one readable.\<close>

lemma put_get:
  assumes "rep start s ps" and "next_put start ps m" and "ps @ [pbuf (packet m)] = us @ p # vs"
  shows "\<exists>a t b. put (word_of_nat (stream_len ps)) m s = Inr (a, t) \<and> get (word_of_nat (stream_len us)) t = Inr b \<and>
    get_data (fetch b t) = p \<and> get_seq (fetch b t) = size_to_seq (start + word_of_nat (stream_len us))"
proof -
  obtain a t where t: "put (word_of_nat (stream_len ps)) m s = Inr (a, t)" "rep start t (us @ p # vs)"
    using put_rep [OF assms(1,2)] assms(3) by auto
  with get_rep [OF t(2)] show ?thesis by auto
qed

lemma release_get:
  assumes "rep start s (ps @ qs @ p # rs)"
  shows "\<exists>t b. release (word_of_nat (stream_len ps)) (word_of_nat (stream_len (ps @ qs)) - 1) s = Some (Inr t) \<and>
    get (word_of_nat (stream_len (ps @ qs))) t = Inr b \<and> get_data (fetch b t) = p"
proof -
  obtain t where t: "release (word_of_nat (stream_len ps)) (word_of_nat (stream_len (ps @ qs)) - 1) s = Some (Inr t)"
      "rep start t ((ps @ qs) @ p # rs)"
    using release_rep [OF assms] by auto
  with get_rep [OF t(2)] show ?thesis by auto
qed

end

lemma buf_rep_sem [simp]: "buf_rep start (s\<lparr>sob_sem := f\<rparr>) ps = buf_rep start s ps"
  by (simp add: buf_rep_def)

lemma buf_rep_post_all [simp]: "buf_rep start (post_all A s) ps = buf_rep start s ps"
  by (simp add: post_all_def)

interpretation sb: segment_store buf_rep put_msg_at get_msg_at release_range sob_refresh "\<lambda>a s. load_msg (sob_buf s) a"
proof
  fix start s ps p qs
  assume rep: "buf_rep start s (ps @ p # qs)"
  have "length p \<le> 1000" using buf_rep_bounds(1) [OF rep] by simp
  then have "unat (word_of_nat (length p) :: size_t) = length p" by (simp add: unat_word_of_nat_u64)
  with buf_rep_slot [OF rep] get_msg_at_ok [OF rep]
  show "\<exists>a. get_msg_at (word_of_nat (stream_len ps)) s = Inr a \<and> get_data (load_msg (sob_buf s) a) = p \<and>
      get_seq (load_msg (sob_buf s) a) = size_to_seq (start + word_of_nat (stream_len ps))"
    by (simp add: slot_at_def Let_def get_data_def)
next
  fix start s ps m
  assume "buf_rep start s ps" "next_put start ps m"
  from put_msg_at_ok [OF this]
  show "\<exists>a t. put_msg_at (word_of_nat (stream_len ps)) m s = Inr (a, t) \<and> buf_rep start t (ps @ [pbuf (packet m)])"
    by blast
next
  fix start s
  show "\<exists>t. sob_refresh s = Inr t \<and> buf_rep start t []" using sob_refresh_ok by blast
qed (use release_range_ok in \<open>auto simp: buf_rep_post_all\<close>)

text \<open>Marking a message leaves the stored segments as they are.\<close>

lemma chain_frame_slots:
  assumes "\<And>us p vs i. ps = us @ p # vs \<Longrightarrow> slot_byte (length p) i \<Longrightarrow> buf' (a + slots_len us + i) = buf (a + slots_len us + i)"
    and "stream_len ps \<le> 1000"
  shows "chain buf' om start ps off a = chain buf om start ps off a"
  using assms
proof (induction ps arbitrary: off a)
  case (Cons p ps)
  have "slot_at buf' a seq p = slot_at buf a seq p" for seq
    using Cons.prems(1) [of "[]" p ps] Cons.prems(2) by (intro slot_at_cong) auto
  moreover have "chain buf' om start ps (off + length p) (a + slot_sz p) = chain buf om start ps (off + length p) (a + slot_sz p)"
  proof (rule Cons.IH)
    show "buf' (a + slot_sz p + slots_len us + i) = buf (a + slot_sz p + slots_len us + i)"
      if "ps = us @ q # vs" "slot_byte (length q) i" for us q vs i
      using Cons.prems(1) [of "p # us" q vs i] that by (simp add: add.assoc)
  qed (use Cons.prems(2) in simp)
  ultimately show ?case by simp
qed simp

lemma slots_disjoint:
  assumes "us @ p # vs = us' @ p' # vs'" and "j < 105" and "\<not> slot_byte 0 j" and "33 \<le> j" and "slot_byte (length p) i"
  shows "slots_len us + i \<noteq> slots_len us' + j"
proof -
  have i: "i < slot_sz p" using assms(5) slot_sz_bounds(1) [of p] by (auto simp: slot_byte_def)
  have j: "j < slot_sz p'" using assms(2) slot_sz_bounds(1) [of p'] by simp
  consider "us = us'" "p = p'" | zs where "us' = us @ p # zs" | zs where "us = us' @ p' # zs"
    using assms(1) by (auto simp: append_eq_append_conv2 Cons_eq_append_conv append_eq_Cons_conv)
  then show ?thesis
  proof cases
    case 1
    then show ?thesis using assms by (auto simp: slot_byte_def)
  qed (use i j in simp_all)
qed

lemma mark_msg_used_rep:
  assumes "buf_rep start s (ps @ p # qs)"
  shows "buf_rep start (s\<lparr>sob_buf := mark_msg_used (slots_len ps + off_msg_data) b (sob_buf s)\<rparr>) (ps @ p # qs)"
proof -
  let ?buf = "mark_msg_used (slots_len ps + off_msg_data) b (sob_buf s)"
  have "?buf (slots_len us + i) = sob_buf s (slots_len us + i)"
    if "ps @ p # qs = us @ q # vs" "slot_byte (length q) i" for us q vs i
    using slots_disjoint [OF that(1) [symmetric], of 65 i] that(2)
    by (simp add: mark_msg_used_def inplace_defs slot_byte_def add.commute)
  then have "chain ?buf (off_map s) start (ps @ p # qs) 0 0"
    using assms by (subst chain_frame_slots [where buf = "sob_buf s"]) (auto simp: buf_rep_def)
  then show ?thesis using assms by (simp add: buf_rep_def)
qed

section \<open>Properties\<close>

text \<open>The empty buffer, and the message that \<open>send\<close> builds for a payload.\<close>

definition empty_buf :: send_buf where
  "empty_buf = \<lparr>sob_buf = (\<lambda>_. 0), off_map = (\<lambda>_. 0), sob_end = 0, sob_sem = (\<lambda>_. 0)\<rparr>"

definition put_seg :: "size_t \<Rightarrow> u8 list \<Rightarrow> msg" where
  "put_seg seq p = set_seq (size_to_seq seq) (tmp_msg p)"

lemma empty_buf_rep: "buf_rep start empty_buf []"
  by (simp add: buf_rep_def empty_buf_def)

lemma put_seg_sel [simp]:
  "get_seq (put_seg q p) = size_to_seq q" "pbuf (packet (put_seg q p)) = p"
  "data_len (put_seg q p) = word_of_nat (length p)" "buf_len (put_seg q p) = word_of_nat (length p)"
  by (simp_all add: put_seg_def msg_access_defs tmp_msg_def zero_packet_def)

lemma next_put_seg:
  "p \<noteq> [] \<Longrightarrow> stream_len ps + length p \<le> 1000 \<Longrightarrow> next_put start ps (put_seg (start + word_of_nat (stream_len ps)) p)"
  by (simp add: next_put_def unat_word_of_nat_u64)

text \<open>C13: Putting the next segment of at most the window's remaining size into the send buffer never
  accesses memory outside it, and afterwards every segment of the window, the new one and all older
  ones, is found under its stream offset with its payload and its sequence number.\<close>

theorem send_buffer_put_get:
  assumes "buf_rep start s ps" and "next_put start ps m" and "ps @ [pbuf (packet m)] = us @ p # vs"
  shows "\<exists>a t b. put_msg_at (word_of_nat (stream_len ps)) m s = Inr (a, t) \<and>
    get_msg_at (word_of_nat (stream_len us)) t = Inr b \<and> get_data (load_msg (sob_buf t) b) = p \<and>
    get_seq (load_msg (sob_buf t) b) = size_to_seq (start + word_of_nat (stream_len us))"
  using assms by (rule sb.put_get)

theorem send_buffer_put_get_witness:
  "\<exists>a t b. put_msg_at 0 (put_seg 100 [1, 2, 3]) empty_buf = Inr (a, t) \<and> get_msg_at 0 t = Inr b \<and>
     get_data (load_msg (sob_buf t) b) = [1, 2, 3] \<and> get_seq (load_msg (sob_buf t) b) = 100"
  using send_buffer_put_get [OF empty_buf_rep, of 100 "put_seg 100 [1, 2, 3]" "[]" "[1, 2, 3]" "[]"]
    next_put_seg [of "[1, 2, 3]" "[]" 100]
  by (simp add: size_to_seq_def)

text \<open>C27: Releasing the acknowledged segments ends, wakes exactly the senders that wait for these
  segments, each once, and leaves the stored segments as they are.\<close>

theorem release_range_wakes_each_once:
  assumes "buf_rep start s (ps @ qs @ rs)"
  shows "\<exists>t. release_range (word_of_nat (stream_len ps)) (word_of_nat (stream_len (ps @ qs)) - 1) s = Some (Inr t) \<and>
    (\<forall>a. sob_sem t a = sob_sem s a + (if a \<in> starts (slots_len ps) qs then 1 else 0)) \<and>
    buf_rep start t (ps @ qs @ rs)"
  using release_range_ok [OF assms] assms by (auto simp: post_all_def of_bool_def)

theorem release_range_wakes_each_once_witness:
  "\<exists>a s t. put_msg_at 0 (put_seg 100 [1, 2, 3]) empty_buf = Inr (a, s) \<and> release_range 0 2 s = Some (Inr t) \<and>
     sob_sem s 0 = 0 \<and> sob_sem t 0 = 1"
proof -
  obtain s where s: "put_msg_at 0 (put_seg 100 [1, 2, 3]) empty_buf = Inr (0, s)" "buf_rep 100 s [[1, 2, 3]]"
      "sob_sem s = (sob_sem empty_buf)(0 := 0)"
    using put_msg_at_ok [OF empty_buf_rep, of 100 "put_seg 100 [1, 2, 3]"] next_put_seg [of "[1, 2, 3]" "[]" 100] by auto
  then show ?thesis
    using release_range_wakes_each_once [of 100 s "[]" "[[1, 2, 3]]" "[]"] by auto
qed

lemma le_to_nat_append: "le_to_nat (xs @ ys) = le_to_nat xs + 256 ^ length xs * le_to_nat ys"
  by (induction xs) (simp_all add: algebra_simps)

lemma ld32_split: "ld32 m a = word_of_nat (unat (m a) + 256 * le_to_nat (mem_read m (Suc a) 3))"
  using mem_read_append [of m a 1 3] by (simp add: ld32_def mem_read_def)

lemma unat_ld32_div: "unat (ld32 m a) div 256 = le_to_nat (mem_read m (Suc a) 3)"
proof -
  have "le_to_nat (mem_read m (Suc a) 3) < 256 ^ 3" using le_to_nat_bound [of "mem_read m (Suc a) 3"] by simp
  then have "unat (word_of_nat (unat (m a) + 256 * le_to_nat (mem_read m (Suc a) 3)) :: u32) =
      unat (m a) + 256 * le_to_nat (mem_read m (Suc a) 3)"
    using unat_u8_bound [of "m a"] unfolding unat_of_nat by simp
  then show ?thesis using unat_u8_bound [of "m a"] unfolding ld32_split by simp
qed

lemma daddr_load: "daddr (iph (packet (load_msg m p))) = ld32 m (p + 32)"
  by (simp add: load_msg_def load_packet_def load_iphdr_def add.commute)

lemma stored_seq_bytes:
  assumes "mem_holds m p (msg_bytes (put_seg q bs))"
  shows "ld64 m (p + 41) = word_of_nat (unat (size_to_seq q) div 256)"
proof -
  let ?s = "unat (size_to_seq q)"
  have le: "le32 (size_to_seq q) = word_of_nat (?s mod 256) # nat_to_le 3 (?s div 256)"
    using nat_to_le.simps(2) [of 3 ?s] by (simp add: le32_def)
  let ?n = "word_of_nat (length bs) :: size_t"
  have "\<exists>rest. msg_bytes (put_seg q bs) = (le64 ?n @ le64 ?n @ iphdr_bytes zero_iphdr @ le16 0 @ le16 0) @
      le32 (size_to_seq q) @ le32 0 @ [0] @ rest"
    by (simp add: msg_bytes_def packet_bytes_def TCPHDR_bytes_def tcphdr_bytes_def put_seg_def
        tmp_msg_def zero_packet_def zero_tcphdr_def msg_access_defs)
  then obtain rest where "msg_bytes (put_seg q bs) = (le64 ?n @ le64 ?n @ iphdr_bytes zero_iphdr @ le16 0 @ le16 0) @
      le32 (size_to_seq q) @ le32 0 @ [0] @ rest" by blast
  then have "mem_holds m (p + 40) (le32 (size_to_seq q) @ le32 0 @ [0])"
    using assms by (simp add: add.commute)
  then have "mem_holds m (p + 41) (nat_to_le 3 (?s div 256) @ le32 0 @ [0])"
    unfolding le append_Cons mem_holds_Cons by (simp add: add.commute)
  then have "mem_read m (p + 41) 8 = nat_to_le 3 (?s div 256) @ le32 0 @ [0]"
    by (simp only: mem_holds_def) simp
  moreover have "?s div 256 < 16777216" using unat_u32_bound [of "size_to_seq q"] by (simp add: less_mult_imp_div_less)
  ultimately show ?thesis by (simp add: ld64_def le_to_nat_append le_to_nat_to_le le32_def)
qed

text \<open>The accessors for the \<open>used\<close> flag get the address of the message, not of its slot: the flag
  they read and write is the first byte of the message's destination address, and the flag is read
  back as it was written, while the length they report for a freshly stored message is its
  sequence number divided by 256 and not the length of its data.\<close>

theorem used_flag_aliases_destination:
  assumes "length p \<le> 1000"
  shows "daddr (iph (packet (load_msg (mark_msg_used (get_msg_inplace a) b buf) (get_msg_inplace a)))) =
      word_of_nat (of_bool b + 256 * (unat (daddr (iph (packet (load_msg buf (get_msg_inplace a))))) div 256)) \<and>
    (is_msg_used (get_msg_inplace a) (mark_msg_used (get_msg_inplace a) b buf) \<longleftrightarrow> b) \<and>
    get_msg_data_sz (get_msg_inplace a) (msg_copy_to buf (get_msg_inplace a) (put_seg q p)) =
      word_of_nat (unat (size_to_seq q) div 256)"
proof (intro conjI)
  let ?p = "get_msg_inplace a"
  show "daddr (iph (packet (load_msg (mark_msg_used ?p b buf) ?p))) =
      word_of_nat (of_bool b + 256 * (unat (daddr (iph (packet (load_msg buf ?p)))) div 256))"
    using mem_read_cong [of "Suc (?p + 32)" 3 "mark_msg_used ?p b buf" buf]
    unfolding daddr_load unat_ld32_div ld32_split [of "mark_msg_used ?p b buf"]
    by (simp add: mark_msg_used_def inplace_defs)
  show "is_msg_used ?p (mark_msg_used ?p b buf) \<longleftrightarrow> b" by (simp add: is_msg_used_def mark_msg_used_def)
  have "mem_holds (msg_copy_to buf ?p (put_seg q p)) ?p (msg_bytes (put_seg q p))"
    using assms by (subst msg_copy_to_full) (simp_all add: unat_word_of_nat_u64 mem_holds_write)
  from stored_seq_bytes [OF this]
  show "get_msg_data_sz ?p (msg_copy_to buf ?p (put_seg q p)) = word_of_nat (unat (size_to_seq q) div 256)"
    by (simp add: get_msg_data_sz_def load_msg_def inplace_defs add.commute)
qed

theorem used_flag_aliases_destination_witness:
  "get_msg_data_sz (get_msg_inplace 0) (msg_copy_to (\<lambda>_. 0) (get_msg_inplace 0) (put_seg 100 [1, 2, 3])) = 0"
  using used_flag_aliases_destination [of "[1, 2, 3]" 0 True "\<lambda>_. 0" 100] by (simp add: size_to_seq_def)

end
