(* ===== verification/Congestion.thy ===== *)
theory Congestion
  imports Mem_Layout Proto_Msg
begin

text \<open>
  The sender-side estimators of \<open>src/tcp_proto_output.h\<close>: \<open>congection_window_control\<close> (AIMD
  congestion window and the receiver's window), \<open>timeout_computing\<close> (smoothed round-trip time and
  retransmission timeout), \<open>fast_retransmit\<close> (counting repeated acknowledgements) and the
  unused \<open>output_control_flow_persist_timer\<close>.
\<close>

section \<open>congection_window_control\<close>

definition congection_window_control :: "size_t \<Rightarrow> rwc_area \<Rightarrow> rwc_area" where
  "congection_window_control m a = (if mtu a = 0 then a\<lparr>mtu := m\<rparr> else a)"

definition bounded_win_sz :: "rwc_area \<Rightarrow> size_t" where
  "bounded_win_sz a = min (receiver_win_sz a) (congection_win_sz a)"

definition cwc_on_retry :: "rwc_area \<Rightarrow> rwc_area" where
  "cwc_on_retry a = a\<lparr>congection_win_sz := max (congection_win_sz a div 2) 1\<rparr>"

definition cwc_on_ack :: "msg \<Rightarrow> rwc_area \<Rightarrow> rwc_area" where
  "cwc_on_ack m a = a\<lparr>receiver_win_sz := get_window_sz m,
     congection_win_sz := congection_win_sz a + 1 * mtu a\<rparr>"

section \<open>timeout_computing\<close>

text \<open>
  \<open>double\<close> arithmetic, exactly: rounding to 53 significant bits, ties to even. A non-negative
  dyadic value is represented by the number of its eighths, which represents every value the
  formulas below produce; scaling by a power of two does not affect the rounding.
\<close>

fun bit_len :: "nat \<Rightarrow> nat" where
  "bit_len n = (if n = 0 then 0 else Suc (bit_len (n div 2)))"

declare bit_len.simps [simp del]

definition dbl_round :: "nat \<Rightarrow> nat" where
  "dbl_round n =
     (if n < 2 ^ 53 then n
      else let k = bit_len n - 53; q = n div 2 ^ k; r = n mod 2 ^ k; h = 2 ^ (k - 1)
           in if h < r \<or> r = h \<and> odd q then (q + 1) * 2 ^ k else q * 2 ^ k)"

definition eighths_to_size :: "nat \<Rightarrow> size_t" where
  "eighths_to_size d = word_of_nat (d div 8)"

definition clean_compute :: "size_t \<Rightarrow> tc_area \<Rightarrow> tc_area" where
  "clean_compute R a = a\<lparr>SRTT := R, RTTVAR := R div 2\<rparr>"

text \<open>\<open>0.75 * RTTVAR + 0.25 * abs(SRTT - R)\<close>, then \<open>0.875 * SRTT + 0.125 * R\<close>.\<close>

definition noclean_compute :: "size_t \<Rightarrow> tc_area \<Rightarrow> tc_area" where
  "noclean_compute R a =
     (let diff = nat \<bar>sint (SRTT a - R)\<bar>;
          v = dbl_round (dbl_round (6 * dbl_round (unat (RTTVAR a))) + dbl_round (2 * dbl_round diff));
          s = dbl_round (dbl_round (7 * dbl_round (unat (SRTT a))) + dbl_round (dbl_round (unat R)))
      in a\<lparr>RTTVAR := eighths_to_size v, SRTT := eighths_to_size s\<rparr>)"

definition get_rto :: "tc_area \<Rightarrow> size_t" where
  "get_rto a = SRTT a + max 300 (4 * RTTVAR a)"

definition compute_timeout :: "size_t \<Rightarrow> tc_area \<Rightarrow> tc_area" where
  "compute_timeout R a =
     (let a' = (if nm a = 0 then clean_compute R a else noclean_compute R a)
      in a'\<lparr>nm := nm a' + 1\<rparr>)"

definition get_timeout :: "tc_area \<Rightarrow> size_t" where
  "get_timeout a = (if nm a = 0 then TCP_OUTPUT_START_TIMEOUT else get_rto a)"

text \<open>\<open>timestamp\<close> is what the controller's \<open>get_timestamp\<close> returns.\<close>

definition tc_refresh :: "size_t \<Rightarrow> msg \<Rightarrow> msg \<Rightarrow> tc_area \<Rightarrow> tc_area" where
  "tc_refresh timestamp sender ack a =
     (let R = (get_recv_timestamp ack - get_sender_timestamp ack) +
              (timestamp - get_sender_timestamp sender)
      in compute_timeout R a)"

section \<open>fast_retransmit\<close>

text \<open>The result says whether the controller's \<open>output_on_retry\<close> is called.\<close>

definition fr_on_ack :: "msg \<Rightarrow> fr_area \<Rightarrow> fr_area \<times> bool" where
  "fr_on_ack ack a =
     (let seq = get_seq ack
      in if fr_cnt a = 0 then (a\<lparr>fr_last := seq, fr_cnt := 1\<rparr>, False)
         else if seq = fr_last a
              then (let cnt = fr_cnt a + 1
                    in if cnt \<ge> TCP_FAST_RETRANSMIT_BOUND then (a\<lparr>fr_cnt := 0\<rparr>, True)
                       else (a\<lparr>fr_cnt := cnt\<rparr>, False))
              else (a\<lparr>fr_cnt := 1, fr_last := seq\<rparr>, False))"

section \<open>output_control_flow_persist_timer\<close>

text \<open>The calls the timer makes on its controller, in order.\<close>

datatype persist_call = Set_ping_only bool | Wait_win_sz_not_zero | Signal_win_sz_not_zero

definition persist_on_ack :: "msg \<Rightarrow> bool \<Rightarrow> persist_call list" where
  "persist_on_ack m ping_only =
     (if get_window_sz m = 0
      then (if \<not> ping_only then [Set_ping_only True, Wait_win_sz_not_zero] else [])
      else (if ping_only then [Set_ping_only False, Signal_win_sz_not_zero] else []))"

section \<open>Runs\<close>

text \<open>Sequences of the events that reach the estimators.\<close>

datatype cwc_event = Cwc_Retry | Cwc_Ack msg

fun cwc_step :: "cwc_event \<Rightarrow> rwc_area \<Rightarrow> rwc_area" where
  "cwc_step Cwc_Retry a = cwc_on_retry a"
| "cwc_step (Cwc_Ack m) a = cwc_on_ack m a"

definition cwc_run :: "cwc_event list \<Rightarrow> rwc_area \<Rightarrow> rwc_area" where
  "cwc_run es a = fold cwc_step es a"

definition rtt_run :: "size_t list \<Rightarrow> tc_area \<Rightarrow> tc_area" where
  "rtt_run rs a = fold compute_timeout rs a"

fun fr_run :: "msg list \<Rightarrow> fr_area \<Rightarrow> fr_area \<times> bool list" where
  "fr_run [] a = (a, [])"
| "fr_run (m # ms) a =
     (let (a', r) = fr_on_ack m a; (a'', rs) = fr_run ms a' in (a'', r # rs))"

section \<open>Lemmas\<close>

lemma unat_max: "unat (max a b) = max (unat a) (unat b)"
  by (simp add: max_def word_le_nat_alt)

lemma unat_min: "unat (min a b) = min (unat a) (unat b)"
  by (simp add: min_def word_le_nat_alt)

lemma unat_cwc_on_retry: "unat (congection_win_sz (cwc_on_retry a)) = max (unat (congection_win_sz a) div 2) 1"
  by (simp add: cwc_on_retry_def unat_max unat_div_distrib)

lemma cwc_run_Cons: "cwc_run (e # es) a = cwc_run es (cwc_step e a)"
  by (simp add: cwc_run_def)

lemma mtu_cwc_step [simp]: "mtu (cwc_step e a) = mtu a"
  by (cases e) (simp_all add: cwc_on_retry_def cwc_on_ack_def)

lemma cwc_step_bounds:
  assumes "1 \<le> unat (congection_win_sz a)" and "unat (congection_win_sz a) + unat (mtu a) < 2 ^ 64"
  shows "1 \<le> unat (congection_win_sz (cwc_step e a)) \<and>
    unat (congection_win_sz (cwc_step e a)) \<le> unat (congection_win_sz a) + unat (mtu a)"
  using assms
  by (cases e) (auto simp: unat_cwc_on_retry cwc_on_ack_def unat_plus_no_wrap)

lemma dbl_round_small [simp]: "n < 9007199254740992 \<Longrightarrow> dbl_round n = n"
  by (simp add: dbl_round_def)

lemma unat_eighths_to_size: "d < 2 ^ 67 \<Longrightarrow> unat (eighths_to_size d) = d div 8"
  by (simp add: eighths_to_size_def unat_word_of_nat_u64)

lemma cwc_run_bounds_aux:
  "1 \<le> unat (congection_win_sz a) \<Longrightarrow> unat (congection_win_sz a) + length es * unat (mtu a) < 2 ^ 64 \<Longrightarrow>
   1 \<le> unat (congection_win_sz (cwc_run es a)) \<and>
   unat (congection_win_sz (cwc_run es a)) \<le> unat (congection_win_sz a) + length es * unat (mtu a)"
proof (induction es arbitrary: a)
  case (Cons e es)
  have "unat (congection_win_sz a) + unat (mtu a) < 2 ^ 64" using Cons.prems by simp
  note step = cwc_step_bounds [OF Cons.prems(1) this, of e]
  with Cons.prems Cons.IH [of "cwc_step e a"] show ?case by (simp add: cwc_run_Cons)
qed (simp add: cwc_run_def)

text \<open>One smoothing step in integers, for times below \<open>2^50\<close> milliseconds.\<close>

lemma noclean_compute_exact:
  assumes "unat (SRTT a) < 2 ^ 50" and "unat (RTTVAR a) < 2 ^ 50" and "unat R < 2 ^ 50"
  shows "int (unat (RTTVAR (noclean_compute R a))) =
      (3 * int (unat (RTTVAR a)) + \<bar>int (unat (SRTT a)) - int (unat R)\<bar>) div 4"
    and "unat (SRTT (noclean_compute R a)) = (7 * unat (SRTT a) + unat R) div 8"
proof -
  let ?d = "nat \<bar>sint (SRTT a - R)\<bar>"
  have d: "int ?d = \<bar>int (unat (SRTT a)) - int (unat R)\<bar>"
    using assms by (simp add: sint_diff_small)
  then have small: "?d < 2 ^ 50" using assms by linarith
  have "RTTVAR (noclean_compute R a) = eighths_to_size (6 * unat (RTTVAR a) + 2 * ?d)"
    using assms small by (simp add: noclean_compute_def Let_def)
  then have "unat (RTTVAR (noclean_compute R a)) = (6 * unat (RTTVAR a) + 2 * ?d) div 8"
    using assms small by (simp add: unat_eighths_to_size)
  also have "\<dots> = (3 * unat (RTTVAR a) + ?d) div 4"
    using div_mult_mult1 [of 2 "3 * unat (RTTVAR a) + ?d" 4] by (simp add: algebra_simps)
  finally show "int (unat (RTTVAR (noclean_compute R a))) =
      (3 * int (unat (RTTVAR a)) + \<bar>int (unat (SRTT a)) - int (unat R)\<bar>) div 4"
    by (simp only: d [symmetric] of_nat_add of_nat_mult of_nat_numeral zdiv_int)
  show "unat (SRTT (noclean_compute R a)) = (7 * unat (SRTT a) + unat R) div 8"
    using assms by (simp add: noclean_compute_def Let_def unat_eighths_to_size)
qed

text \<open>The estimators stay in the range of the samples.\<close>

definition rtt_inv :: "nat \<Rightarrow> nat \<Rightarrow> tc_area \<Rightarrow> bool" where
  "rtt_inv lo hi a \<longleftrightarrow> (nm a \<noteq> 0 \<longrightarrow> lo \<le> unat (SRTT a) \<and> unat (SRTT a) \<le> hi \<and> unat (RTTVAR a) \<le> hi)"

lemma compute_timeout_inv:
  assumes "rtt_inv lo hi a" and "lo \<le> unat R" and "unat R \<le> hi" and "hi < 2 ^ 50"
  shows "rtt_inv lo hi (compute_timeout R a)"
proof (cases "nm a = 0")
  case True
  then show ?thesis using assms
    by (simp add: rtt_inv_def compute_timeout_def clean_compute_def unat_div_distrib)
next
  case False
  then have r: "lo \<le> unat (SRTT a)" "unat (SRTT a) \<le> hi" "unat (RTTVAR a) \<le> hi"
    using assms(1) by (auto simp: rtt_inv_def)
  with assms have b: "unat (SRTT a) < 2 ^ 50" "unat (RTTVAR a) < 2 ^ 50" "unat R < 2 ^ 50" by auto
  have "\<bar>int (unat (SRTT a)) - int (unat R)\<bar> \<le> int hi" using r assms by linarith
  then have "unat (RTTVAR (noclean_compute R a)) \<le> hi"
    using r noclean_compute_exact(1) [OF b] by linarith
  moreover have "lo \<le> unat (SRTT (noclean_compute R a))" "unat (SRTT (noclean_compute R a)) \<le> hi"
    using r assms noclean_compute_exact(2) [OF b] by linarith+
  ultimately show ?thesis using False
    by (simp add: rtt_inv_def compute_timeout_def Let_def)
qed

lemma nm_compute_timeout: "nm (compute_timeout R a) = nm a + 1"
  by (simp add: compute_timeout_def Let_def clean_compute_def noclean_compute_def)

lemma rtt_run_inv:
  "rtt_inv lo hi a \<Longrightarrow> \<forall>R \<in> set rs. lo \<le> unat R \<and> unat R \<le> hi \<Longrightarrow> hi < 2 ^ 50 \<Longrightarrow>
   rtt_inv lo hi (rtt_run rs a) \<and> nm (rtt_run rs a) = nm a + word_of_nat (length rs)"
  by (induction rs arbitrary: a) (simp_all add: rtt_run_def compute_timeout_inv nm_compute_timeout)

text \<open>How many of the last acknowledgements are known to be equal: \<open>fr_cnt\<close> counts them.\<close>

definition fr_hist :: "msg list \<Rightarrow> fr_area \<Rightarrow> bool" where
  "fr_hist h a \<longleftrightarrow> 0 \<le> fr_cnt a \<and> fr_cnt a < TCP_FAST_RETRANSMIT_BOUND \<and> fr_cnt a \<le> int (length h) \<and>
     (\<forall>j < nat (fr_cnt a). get_seq (rev h ! j) = fr_last a)"

lemma fr_on_ack_hist:
  assumes "fr_hist h a"
  shows "fr_hist (h @ [m]) (fst (fr_on_ack m a))"
  using assms
  by (auto simp: fr_hist_def fr_on_ack_def Let_def TCP_FAST_RETRANSMIT_BOUND_def nth_Cons'
      split: if_splits)

lemma fr_on_ack_retry:
  assumes "fr_hist h a" and "snd (fr_on_ack m a)"
  shows "3 \<le> length h \<and> (\<forall>j < 3. get_seq (rev h ! j) = get_seq m)"
  using assms
  by (auto simp: fr_hist_def fr_on_ack_def Let_def TCP_FAST_RETRANSMIT_BOUND_def split: if_splits)

lemma fr_run_retry:
  "fr_hist h a \<Longrightarrow> i < length ms \<Longrightarrow> snd (fr_run ms a) ! i \<Longrightarrow>
   3 \<le> length (h @ take i ms) \<and> (\<forall>j < 3. get_seq (rev (h @ take i ms) ! j) = get_seq (ms ! i))"
proof (induction ms arbitrary: h a i)
  case (Cons m ms)
  obtain a' r where step: "fr_on_ack m a = (a', r)" by fastforce
  obtain a'' rs where rest: "fr_run ms a' = (a'', rs)" by fastforce
  show ?case
  proof (cases i)
    case 0
    then show ?thesis
      using Cons.prems fr_on_ack_retry [OF Cons.prems(1), of m] by (simp add: step rest)
  next
    case (Suc k)
    have "fr_hist (h @ [m]) a'" using fr_on_ack_hist [OF Cons.prems(1), of m] by (simp add: step)
    then show ?thesis
      using Cons.IH [of "h @ [m]" a' k] Cons.prems by (simp add: step rest Suc)
  qed
qed simp

lemma length_fr_run [simp]: "length (snd (fr_run ms a)) = length ms"
  by (induction ms arbitrary: a) (simp_all add: Let_def split: prod.split, metis snd_conv)

lemma fr_run_replicate_aux:
  "0 \<le> c \<Longrightarrow> c < 4 \<Longrightarrow> fr_cnt a = int c \<Longrightarrow> (0 < c \<longrightarrow> fr_last a = get_seq m) \<Longrightarrow>
   snd (fr_run (replicate k m) a) = map (\<lambda>i. (i + c) mod 4 = 3) [0..<k]"
proof (induction k arbitrary: a c)
  case (Suc k)
  obtain a' r where step: "fr_on_ack m a = (a', r)" by fastforce
  have shift: "map (\<lambda>i. (i + c) mod 4 = 3) [0..<Suc k] =
      (c mod 4 = 3) # map (\<lambda>i. (i + Suc c mod 4) mod 4 = 3) [0..<k]"
    by (simp add: map_upt_Suc mod_simps del: upt_Suc)
  have "c = 0 \<or> c = 1 \<or> c = 2 \<or> c = 3" using Suc.prems(2) by linarith
  then have "r = (c mod 4 = 3)" and cnt: "fr_cnt a' = int (Suc c mod 4)"
    and "0 < Suc c mod 4 \<longrightarrow> fr_last a' = get_seq m"
    using Suc.prems step
    by (elim disjE; force simp: fr_on_ack_def Let_def TCP_FAST_RETRANSMIT_BOUND_def split: if_splits)+
  then have "snd (fr_run (replicate k m) a') = map (\<lambda>i. (i + Suc c mod 4) mod 4 = 3) [0..<k]"
    by (intro Suc.IH) simp_all
  then show ?case
    unfolding shift using \<open>r = (c mod 4 = 3)\<close> by (auto simp: step Let_def split: prod.split)
qed simp

section \<open>Properties\<close>

text \<open>
  C35: along any sequence of acknowledgements and retransmissions the congestion window never
  falls below one byte and grows by at most one MTU per event.
\<close>

theorem cwc_run_bounds:
  assumes "1 \<le> unat (congection_win_sz a)"
    and "unat (congection_win_sz a) + length es * unat (mtu a) < 2 ^ 64"
  shows "1 \<le> unat (congection_win_sz (cwc_run es a)) \<and>
    unat (congection_win_sz (cwc_run es a)) \<le> unat (congection_win_sz a) + length es * unat (mtu a)"
  using assms by (rule cwc_run_bounds_aux)

theorem cwc_run_bounds_witness:
  "1 \<le> unat (congection_win_sz (cwc_run [Cwc_Ack (msg_new None 0), Cwc_Retry, Cwc_Retry]
     \<lparr>receiver_win_sz = 1000, congection_win_sz = 100, mtu = 1444\<rparr>))"
  using cwc_run_bounds [of "\<lparr>receiver_win_sz = 1000, congection_win_sz = 100, mtu = 1444\<rparr>"
      "[Cwc_Ack (msg_new None 0), Cwc_Retry, Cwc_Retry]"] by simp

text \<open>
  a retransmission halves the congestion window (at least 1 remains), an acknowledgement adds
  one MTU and takes over the window the receiver advertises, and the sender's bound is the
  smaller of both windows.
\<close>

theorem aimd_steps:
  assumes "unat (congection_win_sz a) + unat (mtu a) < 2 ^ 64"
  shows "unat (congection_win_sz (cwc_on_retry a)) = max (unat (congection_win_sz a) div 2) 1 \<and>
    unat (congection_win_sz (cwc_on_ack m a)) = unat (congection_win_sz a) + unat (mtu a) \<and>
    unat (bounded_win_sz (cwc_on_ack m a)) =
      min (unat (th_window (msg_hdr m))) (unat (congection_win_sz a) + unat (mtu a))"
proof -
  have "unat (ucast (th_window (msg_hdr m)) :: u64) = unat (th_window (msg_hdr m))"
    using unat_u16_bound [of "th_window (msg_hdr m)"]
    by (simp add: unsigned_ucast_eq take_bit_nat_eq_self)
  then show ?thesis
    using assms by (simp add: unat_cwc_on_retry cwc_on_ack_def bounded_win_sz_def unat_min
        get_window_sz_def unat_plus_no_wrap)
qed

theorem aimd_steps_witness:
  "unat (congection_win_sz (cwc_on_retry \<lparr>receiver_win_sz = 1000, congection_win_sz = 101, mtu = 1444\<rparr>)) = 50"
  using aimd_steps [of "\<lparr>receiver_win_sz = 1000, congection_win_sz = 101, mtu = 1444\<rparr>"] by simp

text \<open>
  C36: for round-trip times below \<open>2^50\<close> ms the floating-point smoothing is exactly the integer
  recurrence \<open>RTTVAR' = (3 RTTVAR + |SRTT - R|) div 4\<close>, \<open>SRTT' = (7 SRTT + R) div 8\<close>.
\<close>

theorem smoothing_is_integer_recurrence:
  assumes "unat (SRTT a) < 2 ^ 50" and "unat (RTTVAR a) < 2 ^ 50" and "unat R < 2 ^ 50" and "nm a \<noteq> 0"
  shows "int (unat (RTTVAR (compute_timeout R a))) =
      (3 * int (unat (RTTVAR a)) + \<bar>int (unat (SRTT a)) - int (unat R)\<bar>) div 4 \<and>
    unat (SRTT (compute_timeout R a)) = (7 * unat (SRTT a) + unat R) div 8"
  using noclean_compute_exact [OF assms(1-3)] assms(4)
  by (simp add: compute_timeout_def Let_def del: of_nat_unat)

theorem smoothing_is_integer_recurrence_witness:
  "unat (SRTT (compute_timeout 180 \<lparr>SRTT = 100, RTTVAR = 50, nm = 1\<rparr>)) = 110"
  using smoothing_is_integer_recurrence [of "\<lparr>SRTT = 100, RTTVAR = 50, nm = 1\<rparr>" 180] by simp

text \<open>
  when every measured round trip lies between \<open>lo\<close> and \<open>hi\<close> ms, so does the smoothed estimate
  after any non-empty sequence of samples, and the timeout lies between \<open>lo + 300\<close> and
  \<open>hi + max 300 (4 hi)\<close>.
\<close>

theorem rto_bounds:
  assumes "nm a = 0" and "rs \<noteq> []" and "length rs < 2 ^ 64" and "hi < 2 ^ 50"
    and "\<forall>R \<in> set rs. lo \<le> unat R \<and> unat R \<le> hi"
  shows "lo + 300 \<le> unat (get_timeout (rtt_run rs a)) \<and>
    unat (get_timeout (rtt_run rs a)) \<le> hi + max 300 (4 * hi)"
proof -
  let ?a = "rtt_run rs a"
  have "rtt_inv lo hi a" using assms(1) by (simp add: rtt_inv_def)
  with assms(4,5) have inv: "rtt_inv lo hi ?a" and n: "nm ?a = word_of_nat (length rs)"
    using rtt_run_inv [of lo hi a rs] assms(1) by auto
  have "unat (nm ?a) = length rs" using assms(3) by (simp add: n unat_word_of_nat_u64)
  with assms(2) have nz: "nm ?a \<noteq> 0" by auto
  with inv have r: "lo \<le> unat (SRTT ?a)" "unat (SRTT ?a) \<le> hi" "unat (RTTVAR ?a) \<le> hi"
    by (auto simp: rtt_inv_def)
  have "unat (4 * RTTVAR ?a) = 4 * unat (RTTVAR ?a)"
    using r(3) assms(4) by (simp add: unat_word_ariths)
  then have m: "unat (max 300 (4 * RTTVAR ?a)) = max 300 (4 * unat (RTTVAR ?a))"
    by (simp add: unat_max)
  moreover have "unat (SRTT ?a) + max 300 (4 * unat (RTTVAR ?a)) < 2 ^ 64"
    using r assms(4) by (auto simp: max_def)
  ultimately have "unat (get_rto ?a) = unat (SRTT ?a) + max 300 (4 * unat (RTTVAR ?a))"
    by (simp add: get_rto_def unat_plus_no_wrap)
  then show ?thesis using nz r by (auto simp: get_timeout_def max_def)
qed

theorem rto_bounds_witness:
  "10 + 300 \<le> unat (get_timeout (rtt_run [10, 20, 15] \<lparr>SRTT = 0, RTTVAR = 0, nm = 0\<rparr>)) \<and>
   unat (get_timeout (rtt_run [10, 20, 15] \<lparr>SRTT = 0, RTTVAR = 0, nm = 0\<rparr>)) \<le> 20 + max 300 (4 * 20)"
  by (rule rto_bounds) simp_all

text \<open>
  a fast retransmission happens only on the last of four consecutive acknowledgements of the
  same sequence number.
\<close>

theorem fast_retransmit_needs_four:
  assumes "fr_cnt a = 0" and "i < length ms" and "snd (fr_run ms a) ! i"
  shows "3 \<le> i \<and> (\<forall>j < 3. get_seq (ms ! (i - Suc j)) = get_seq (ms ! i))"
proof -
  have "fr_hist [] a" using assms(1) by (simp add: fr_hist_def TCP_FAST_RETRANSMIT_BOUND_def)
  from fr_run_retry [OF this assms(2,3)] assms(2)
  have i: "3 \<le> i" and "\<forall>j < 3. get_seq (rev (take i ms) ! j) = get_seq (ms ! i)" by auto
  moreover have "rev (take i ms) ! j = ms ! (i - Suc j)" if "j < 3" for j
    using that i assms(2) by (simp add: rev_nth)
  ultimately show ?thesis by auto
qed

theorem fast_retransmit_needs_four_witness:
  "snd (fr_run (replicate 4 (msg_new None 0)) \<lparr>fr_last = 0, fr_cnt = 0\<rparr>) ! 3 \<and>
   get_seq (replicate 4 (msg_new None 0) ! (3 - Suc 1)) = get_seq (replicate 4 (msg_new None 0) ! 3)"
proof -
  let ?a = "\<lparr>fr_last = 0, fr_cnt = 0\<rparr>" and ?ms = "replicate 4 (msg_new None 0)"
  have "snd (fr_run ?ms ?a) = map (\<lambda>i. (i + 0) mod 4 = 3) [0..<4]"
    by (rule fr_run_replicate_aux) simp_all
  then have r: "snd (fr_run ?ms ?a) ! 3" by simp
  have "\<forall>j < 3. get_seq (?ms ! (3 - Suc j)) = get_seq (?ms ! 3)"
    using fast_retransmit_needs_four [of ?a 3 ?ms] r by simp
  then show ?thesis using r by simp
qed

text \<open>
  a run of equal acknowledgements triggers a retransmission at every fourth one, and at no
  other.
\<close>

theorem fast_retransmit_every_fourth:
  assumes "fr_cnt a = 0"
  shows "snd (fr_run (replicate k m) a) = map (\<lambda>i. i mod 4 = 3) [0..<k]"
  using fr_run_replicate_aux [of 0 a m k] assms by simp

theorem fast_retransmit_every_fourth_witness:
  "snd (fr_run (replicate 5 (msg_new None 0)) \<lparr>fr_last = 7, fr_cnt = 0\<rparr>) = [False, False, False, True, False]"
  using fast_retransmit_every_fourth [of "\<lparr>fr_last = 7, fr_cnt = 0\<rparr>" 5 "msg_new None 0"]
  by (simp add: upt_rec)

end
