(* ===== verification/Send_Window.thy ===== *)
theory Send_Window
  imports Send_Buffer Congestion
begin

text \<open>
  The send window: \<open>send_cumulative_window_processing\<close> of \<open>src/tcp_proto_output.h\<close> with the
  controller functions of \<open>src/newimpl.cpp\<close> that it calls (\<open>output_refresh_on_msg_pair\<close>,
  \<open>output_refresh_on_msg_pair_prev_window_matched\<close>, \<open>output_on_retry\<close>, the semaphores of the send
  buffer) and the entry point \<open>output_on_ack\<close>. Everything here runs under \<open>send_worker_lock\<close>, so
  each operation is a function on the state.
\<close>

section \<open>State\<close>

text \<open>\<open>buf_empty\<close> and \<open>buf_not_empty\<close> are the counts of the semaphores \<open>send_buf_empty_notif\<close> and
  \<open>send_buf_not_empty_notif\<close>.\<close>

record out_st =
  o_cwp :: cwp_area
  o_buf :: send_buf
  o_cwc :: rwc_area
  o_tc :: tc_area
  o_fr :: fr_area
  buf_empty :: nat
  buf_not_empty :: nat

section \<open>send_cumulative_window_processing\<close>

definition cwp_setup :: "cwp_area \<Rightarrow> send_window" where
  "cwp_setup a = send_window4 (cwp_start a) (cwp_off a) (cwp_send_off a) (cwp_sz a)"

definition cwp_flush :: "send_window \<Rightarrow> cwp_area \<Rightarrow> cwp_area" where
  "cwp_flush w a = a\<lparr>cwp_start := rw_start w, cwp_send_off := sw_sent_off w, cwp_off := rw_off w, cwp_sz := rw_sz w\<rparr>"

definition msg_in_win :: "send_window \<Rightarrow> msg \<Rightarrow> bool" where
  "msg_in_win w m = contains w (SINGLE_WINDOW (seq_to_size (get_seq m)))"

definition msg_in_prev_win :: "send_window \<Rightarrow> msg \<Rightarrow> bool" where
  "msg_in_prev_win w m = contains w (SINGLE_WINDOW (seq_to_size (get_seq m) + 1))"

definition sent_buf_empty :: "send_window \<Rightarrow> bool" where
  "sent_buf_empty w \<longleftrightarrow> sw_sent_off w = rw_off w"

definition scw_get_sz :: "out_st \<Rightarrow> size_t" where
  "scw_get_sz s = get_sz (cwp_setup (o_cwp s))"

definition scw_force_move_start :: "tcp_seq \<Rightarrow> cwp_area \<Rightarrow> cwp_area" where
  "scw_force_move_start start_seq a =
     cwp_flush ((cwp_setup a)\<lparr>rw_start := seq_to_size start_seq, rw_off := 0, sw_sent_off := 0\<rparr>) a"

definition is_sent_buf_empty :: "out_st \<Rightarrow> bool" where
  "is_sent_buf_empty s = sent_buf_empty (cwp_setup (o_cwp s))"

text \<open>The result is the semaphore of the stored message.\<close>

definition scw_send :: "msg \<Rightarrow> out_st \<Rightarrow> (nat \<times> out_st) res" where
  "scw_send m s =
     (let w = cwp_setup (o_cwp s)
      in if sent_sz w < data_len m then Inl Drop
         else (let m' = set_seq (size_to_seq (sent_begin w)) m;
                   s1 = (if sent_buf_empty w then s\<lparr>buf_not_empty := buf_not_empty s + 1\<rparr> else s)
               in case put_msg_at (sw_sent_off w) m' (o_buf s1) of
                    Inl e \<Rightarrow> Inl e
                  | Inr (ret, b) \<Rightarrow>
                      Inr (ret, s1\<lparr>o_buf := b, o_cwp := cwp_flush (inc_sent_off (data_len m) w) (o_cwp s1)\<rparr>)))"

definition scw_retry :: "msg \<Rightarrow> out_st \<Rightarrow> out_st res" where
  "scw_retry m s =
     (let w = cwp_setup (o_cwp s);
          msg_off = get_in_msg_off w (get_seq m) + rw_off w
      in case get_msg_at msg_off (o_buf s) of
           Inl e \<Rightarrow> Inl e
         | Inr p \<Rightarrow> Inr (s\<lparr>o_buf := (o_buf s)\<lparr>sob_buf := mark_msg_used p False (sob_buf (o_buf s))\<rparr>,
                           o_cwp := cwp_flush w (o_cwp s)\<rparr>))"

definition check_msg_complete :: "msg \<Rightarrow> out_st \<Rightarrow> bool" where
  "check_msg_complete m s = (\<not> msg_in_win (cwp_setup (o_cwp s)) m)"

section \<open>Controller functions\<close>

definition output_refresh_on_msg_pair :: "size_t \<Rightarrow> nat \<Rightarrow> msg \<Rightarrow> out_st \<Rightarrow> out_st" where
  "output_refresh_on_msg_pair now p ack s =
     s\<lparr>o_tc := tc_refresh now (load_msg (sob_buf (o_buf s)) p) ack (o_tc s)\<rparr>"

definition output_on_retry :: "msg \<Rightarrow> out_st \<Rightarrow> out_st res" where
  "output_on_retry m s = scw_retry m (s\<lparr>o_cwc := cwc_on_retry (o_cwc s)\<rparr>)"

definition output_refresh_on_msg_pair_prev_window_matched :: "nat \<Rightarrow> msg \<Rightarrow> out_st \<Rightarrow> out_st res" where
  "output_refresh_on_msg_pair_prev_window_matched p ack s =
     (let m = load_msg (sob_buf (o_buf s)) p;
          (f, retry) = fr_on_ack ack (o_fr s);
          s' = s\<lparr>o_fr := f\<rparr>
      in if retry then output_on_retry m s' else Inr s')"

definition on_sent_buf_empty :: "out_st \<Rightarrow> out_st" where
  "on_sent_buf_empty s = s\<lparr>buf_empty := buf_empty s + 1\<rparr>"

section \<open>Acknowledgements\<close>

text \<open>The end of the first branch of \<open>on_ack\<close>, after the range was released.\<close>

definition on_ack_tail :: "send_window \<Rightarrow> out_st \<Rightarrow> out_st res" where
  "on_ack_tail w s =
     (let s1 = (if sent_buf_empty w then on_sent_buf_empty s else s)
      in if get_sz w = 0
         then (case sob_refresh (o_buf s1) of
                 Inl e \<Rightarrow> Inl e
               | Inr b \<Rightarrow> Inr (s1\<lparr>o_buf := b, o_cwp := cwp_flush (send_next_window w) (o_cwp s1)\<rparr>))
         else Inr (s1\<lparr>o_cwp := cwp_flush w (o_cwp s1)\<rparr>))"

definition scw_on_ack :: "size_t \<Rightarrow> msg \<Rightarrow> out_st \<Rightarrow> out_st res option" where
  "scw_on_ack now m s =
     (let w = cwp_setup (o_cwp s)
      in if msg_in_win w m
         then (let old_off = rw_off w;
                   w' = set_off_from_seq (get_seq m) w;
                   new_off = rw_off w'
               in case get_msg_at old_off (o_buf s) of
                    Inl e \<Rightarrow> Some (Inl e)
                  | Inr p \<Rightarrow>
                      (let s1 = output_refresh_on_msg_pair now p m s
                       in case release_range old_off (new_off - 1) (o_buf s1) of
                            None \<Rightarrow> None
                          | Some (Inl e) \<Rightarrow> Some (Inl e)
                          | Some (Inr b) \<Rightarrow> Some (on_ack_tail w' (s1\<lparr>o_buf := b\<rparr>))))
         else if msg_in_prev_win w m
         then (case get_msg_at (rw_off w) (o_buf s) of
                 Inl e \<Rightarrow> Some (Inl e)
               | Inr p \<Rightarrow>
                   Some (case output_refresh_on_msg_pair_prev_window_matched p m s of
                           Inl e \<Rightarrow> Inl e
                         | Inr s' \<Rightarrow> Inr (s'\<lparr>o_cwp := cwp_flush w (o_cwp s')\<rparr>)))
         else Some (Inr s))"

text \<open>The entry point: acknowledgements count only on an established connection.\<close>

definition output_on_ack :: "tcp_state \<Rightarrow> size_t \<Rightarrow> msg \<Rightarrow> out_st \<Rightarrow> out_st res option" where
  "output_on_ack state now m s =
     (if state = ESTABLISHED then scw_on_ack now m (s\<lparr>o_cwc := cwc_on_ack m (o_cwc s)\<rparr>) else Some (Inr s))"

section \<open>The next message to send\<close>

text \<open>
  The scan of \<open>next_msg\<close> for a message that is not marked; \<open>off_t\<close> is signed, so the loop compares
  signed numbers. \<open>None\<close> when the loop does not end.
\<close>

partial_function (option) next_msg_loop :: "off_t \<Rightarrow> out_st \<Rightarrow> (nat \<times> out_st) res option" where
  "next_msg_loop off s =
     (if sint off < sint (cwp_send_off (o_cwp s))
      then (case get_msg_at off (o_buf s) of
              Inl e \<Rightarrow> Some (Inl e)
            | Inr p \<Rightarrow>
                (if is_msg_used p (sob_buf (o_buf s))
                 then next_msg_loop (off + get_msg_data_sz p (sob_buf (o_buf s))) s
                 else Some (Inr (p, s\<lparr>o_buf := (o_buf s)\<lparr>sob_buf := mark_msg_used p True (sob_buf (o_buf s))\<rparr>\<rparr>))))
      else Some (Inl Timeout))"

text \<open>
  \<open>next_msg\<close>: with nothing to send it waits (\<open>None\<close>) until the buffer fills, or throws once the
  worker was stopped.
\<close>

definition next_msg :: "bool \<Rightarrow> out_st \<Rightarrow> (nat \<times> out_st) res option" where
  "next_msg worker_active s =
     (let w = cwp_setup (o_cwp s)
      in if sent_buf_empty w then (if worker_active then None else Some (Inl Timeout))
         else next_msg_loop (rw_off w) s)"

text \<open>A sequence of acknowledgements on an established connection.\<close>

fun on_acks :: "size_t \<Rightarrow> msg list \<Rightarrow> out_st \<Rightarrow> out_st res option" where
  "on_acks now [] s = Some (Inr s)"
| "on_acks now (m # ms) s =
     (case output_on_ack ESTABLISHED now m s of Some (Inr t) \<Rightarrow> on_acks now ms t | r \<Rightarrow> r)"

section \<open>What the sender's state means\<close>

text \<open>
  \<open>out_rep s ps qs\<close>: the segments of the current window are \<open>ps @ qs\<close>; \<open>ps\<close> are acknowledged and
  \<open>qs\<close> are outstanding, and both offsets stand at the corresponding positions of the stream.
\<close>

definition out_rep :: "out_st \<Rightarrow> u8 list list \<Rightarrow> u8 list list \<Rightarrow> bool" where
  "out_rep s ps qs \<longleftrightarrow> cwp_sz (o_cwp s) = OUTPUT_WINDOW_SZ \<and> unat (cwp_start (o_cwp s)) < 4611686018427387904 \<and>
     buf_rep (cwp_start (o_cwp s)) (o_buf s) (ps @ qs) \<and>
     cwp_off (o_cwp s) = word_of_nat (stream_len ps) \<and> cwp_send_off (o_cwp s) = word_of_nat (stream_len (ps @ qs))"

section \<open>Lemmas\<close>

lemma unat_OUTPUT_WINDOW_SZ [simp]: "unat OUTPUT_WINDOW_SZ = 1000"
  by (simp add: OUTPUT_WINDOW_SZ_def)

lemma cwp_setup_sel [simp]:
  "rw_start (cwp_setup a) = cwp_start a" "rw_off (cwp_setup a) = cwp_off a" "rw_sz (cwp_setup a) = cwp_sz a"
  "sw_sent_off (cwp_setup a) = cwp_send_off a"
  by (simp_all add: cwp_setup_def send_window4_def)

lemma cwp_flush_setup [simp]: "cwp_flush (cwp_setup a) a = a"
  by (simp add: cwp_flush_def)

lemma out_rep_nat:
  assumes "out_rep s ps qs"
  shows "unat (cwp_off (o_cwp s)) = stream_len ps" "unat (cwp_send_off (o_cwp s)) = stream_len (ps @ qs)"
    "stream_len (ps @ qs) \<le> 1000" "win_ok (cwp_setup (o_cwp s))"
proof -
  have rep: "buf_rep (cwp_start (o_cwp s)) (o_buf s) (ps @ qs)" using assms by (simp add: out_rep_def)
  show "unat (cwp_off (o_cwp s)) = stream_len ps"
    using assms buf_rep_prefix_bounds(1) [OF rep] by (simp add: out_rep_def)
  moreover show "unat (cwp_send_off (o_cwp s)) = stream_len (ps @ qs)"
    using assms buf_rep_bounds(3) [OF rep] by (simp add: out_rep_def)
  moreover show "stream_len (ps @ qs) \<le> 1000" using buf_rep_bounds(1) [OF rep] .
  ultimately show "win_ok (cwp_setup (o_cwp s))" using assms by (simp add: win_ok_def out_rep_def)
qed

lemma sent_buf_empty_iff:
  assumes "out_rep s ps qs"
  shows "sent_buf_empty (cwp_setup (o_cwp s)) \<longleftrightarrow> qs = []"
proof -
  have "list_all (\<lambda>p. p \<noteq> []) qs" using assms chain_nonempty by (fastforce simp: out_rep_def buf_rep_def)
  then have "stream_len qs = 0 \<longleftrightarrow> qs = []" by (cases qs) auto
  then show ?thesis
    using out_rep_nat(1,2) [OF assms] by (auto simp: sent_buf_empty_def word_unat_eq_iff)
qed

text \<open>Sending: refused when the payload does not fit, else stored behind the outstanding segments.\<close>

lemma scw_send_drop:
  assumes "out_rep s ps qs" and "1000 < stream_len (ps @ qs) + unat (data_len m)"
  shows "scw_send m s = Inl Drop"
proof -
  have "unat (sent_sz (cwp_setup (o_cwp s))) = 1000 - stream_len (ps @ qs)"
    using out_rep_nat [OF assms(1)] assms(1) by (simp add: sent_sz_def unat_minus_no_wrap out_rep_def)
  then have "sent_sz (cwp_setup (o_cwp s)) < data_len m"
    using assms(2) out_rep_nat(3) [OF assms(1)] unfolding word_less_nat_alt by linarith
  then show ?thesis by (simp add: scw_send_def)
qed

lemma set_seq_sel [simp]:
  "get_seq (set_seq q m) = q" "pbuf (packet (set_seq q m)) = pbuf (packet m)"
  "data_len (set_seq q m) = data_len m" "buf_len (set_seq q m) = buf_len m"
  by (simp_all add: msg_access_defs)

lemma tmp_msg_sel [simp]:
  "pbuf (packet (tmp_msg p)) = p" "data_len (tmp_msg p) = word_of_nat (length p)" "buf_len (tmp_msg p) = word_of_nat (length p)"
  by (simp_all add: tmp_msg_def zero_packet_def)

lemma scw_send_ok:
  assumes "out_rep s ps qs" and "p \<noteq> []" and "stream_len (ps @ qs) + length p \<le> 1000"
  shows "\<exists>t. scw_send (tmp_msg p) s = Inr (slots_len (ps @ qs), t) \<and> out_rep t ps (qs @ [p]) \<and>
    sob_sem (o_buf t) = (sob_sem (o_buf s))(slots_len (ps @ qs) := 0) \<and>
    o_cwc t = o_cwc s \<and> o_tc t = o_tc s \<and> o_fr t = o_fr s \<and> buf_empty t = buf_empty s \<and>
    buf_not_empty t = buf_not_empty s + of_bool (qs = []) \<and> cwp_start (o_cwp t) = cwp_start (o_cwp s)"
proof -
  let ?w = "cwp_setup (o_cwp s)" and ?o = "stream_len (ps @ qs)"
  let ?m = "set_seq (size_to_seq (sent_begin ?w)) (tmp_msg p)"
  have rep: "buf_rep (cwp_start (o_cwp s)) (o_buf s) (ps @ qs)" and so: "cwp_send_off (o_cwp s) = word_of_nat ?o"
    using assms(1) by (simp_all add: out_rep_def)
  have n: "unat (word_of_nat (length p) :: size_t) = length p" using assms(3) by (simp add: unat_word_of_nat_u64)
  have sz: "\<not> sent_sz ?w < data_len (tmp_msg p)"
    using out_rep_nat [OF assms(1)] assms(1,3) n by (simp add: sent_sz_def unat_minus_no_wrap out_rep_def word_less_nat_alt)
  have "next_put (cwp_start (o_cwp s)) (ps @ qs) ?m"
    using assms(2,3) n so by (simp add: next_put_def sent_begin_def)
  from put_msg_at_ok [OF rep this] obtain b where b: "put_msg_at (word_of_nat ?o) ?m (o_buf s) = Inr (slots_len (ps @ qs), b)"
      "buf_rep (cwp_start (o_cwp s)) b ((ps @ qs) @ [p])" "sob_sem b = (sob_sem (o_buf s))(slots_len (ps @ qs) := 0)"
    by auto
  let ?s1 = "if qs = [] then s\<lparr>buf_not_empty := buf_not_empty s + 1\<rparr> else s"
  let ?t = "?s1\<lparr>o_buf := b, o_cwp := (o_cwp s)\<lparr>cwp_send_off := cwp_send_off (o_cwp s) + word_of_nat (length p)\<rparr>\<rparr>"
  have "put_msg_at (cwp_send_off (o_cwp s)) ?m (o_buf s) = Inr (slots_len (ps @ qs), b)" using b(1) unfolding so .
  then have "scw_send (tmp_msg p) s = Inr (slots_len (ps @ qs), ?t)"
    using sz sent_buf_empty_iff [OF assms(1)] unfolding scw_send_def Let_def
    by (simp add: cwp_flush_def inc_sent_off_def)
  moreover have "out_rep ?t ps (qs @ [p])" using assms(1) b(2) so by (simp add: out_rep_def add.assoc)
  ultimately show ?thesis using b(3) by auto
qed

text \<open>Membership in a window that does not cross the wrap of the sequence space.\<close>

lemma contains_single:
  assumes "win_ok w" and "unat (win_end w) \<le> 4294967296" and "unat x < 4294967296"
  shows "contains w (SINGLE_WINDOW x) \<longleftrightarrow> unat (win_begin w) \<le> unat x \<and> unat x < unat (win_end w)"
proof -
  have e: "unat (x + 1) = unat x + 1" using assms(3) unat_plus_no_wrap [of x 1] by simp
  have "contains w (SINGLE_WINDOW x) \<longleftrightarrow>
    (if unat (win_end w) mod 4294967296 < unat (win_begin w) \<and> unat x + 1 < unat (win_end w) mod 4294967296
     then (if unat x < (unat x + 1) mod 4294967296
           then unat (win_begin w) \<le> unat x + 4294967296 else unat (win_begin w) \<le> unat x) \<and>
          unat x + 1 + 4294967296 \<le> unat (win_end w)
     else unat (win_begin w) \<le> unat x \<and> unat x + 1 \<le> unat (win_end w))"
    unfolding SINGLE_WINDOW_def using assms by (subst contains_nat) (simp_all add: e)
  moreover have "\<not> (unat (win_end w) mod 4294967296 < unat (win_begin w) \<and> unat x + 1 < unat (win_end w) mod 4294967296)"
    using assms(2) win_ok_begin_le_end [OF assms(1)] by (cases "unat (win_end w) = 4294967296") auto
  ultimately show ?thesis by auto
qed

lemma set_off_at:
  assumes "out_rep s ps qs" and "unat (cwp_start (o_cwp s)) + 1000 \<le> 4294967296"
    and "unat (get_seq m) = unat (cwp_start (o_cwp s)) + k" and "stream_len ps \<le> k" and "k < 1000"
  shows "msg_in_win (cwp_setup (o_cwp s)) m"
    and "unat (rw_off (set_off_from_seq (get_seq m) (cwp_setup (o_cwp s)))) = k + 1"
proof -
  let ?w = "cwp_setup (o_cwp s)"
  note nat = out_rep_nat [OF assms(1)]
  have sz: "cwp_sz (o_cwp s) = OUTPUT_WINDOW_SZ" using assms(1) by (simp add: out_rep_def)
  have b: "unat (win_begin ?w) = unat (cwp_start (o_cwp s)) + stream_len ps"
    by (simp add: win_ok_begin [OF nat(4)] nat(1))
  have e: "unat (win_end ?w) = unat (cwp_start (o_cwp s)) + 1000" by (simp add: win_ok_end [OF nat(4)] sz)
  show "msg_in_win ?w m"
    using assms(2-5) b e unat_u32_bound [of "get_seq m"] by (simp add: msg_in_win_def contains_single [OF nat(4)])
  have lap: "first_lap ?w" using assms(2,4,5) b by (simp add: first_lap_def)
  have d: "circ_dist ?w (get_seq m) = k - stream_len ps" using assms(3,4) b by (simp add: circ_dist_nat [OF lap])
  then have "in_circle ?w (get_seq m) 1"
    using assms(4,5) by (simp add: in_circle_def win_ok_get_sz [OF nat(4)] nat(1) sz)
  from unat_set_off_from_seq(1) [OF nat(4) this] show "unat (rw_off (set_off_from_seq (get_seq m) ?w)) = k + 1"
    using assms(4) d by (simp add: nat(1))
qed

lemma set_off_stream:
  assumes "out_rep s ps (as @ bs)" and "as \<noteq> []" and "unat (cwp_start (o_cwp s)) + 1000 \<le> 4294967296"
    and "unat (get_seq m) + 1 = unat (cwp_start (o_cwp s)) + stream_len (ps @ as)"
  shows "msg_in_win (cwp_setup (o_cwp s)) m"
    and "rw_off (set_off_from_seq (get_seq m) (cwp_setup (o_cwp s))) = word_of_nat (stream_len (ps @ as))"
proof -
  let ?k = "stream_len (ps @ as) - 1" and ?w = "cwp_setup (o_cwp s)"
  have "list_all (\<lambda>p. p \<noteq> []) as" using assms(1) chain_nonempty by (fastforce simp: out_rep_def buf_rep_def)
  then have pos: "0 < stream_len as" using assms(2) by (cases as) auto
  have k: "unat (get_seq m) = unat (cwp_start (o_cwp s)) + ?k" "stream_len ps \<le> ?k" "?k < 1000"
    using assms(4) pos out_rep_nat(3) [OF assms(1)] by simp_all
  note at = set_off_at [OF assms(1,3) k]
  show "msg_in_win ?w m" by (rule at(1))
  show "rw_off (set_off_from_seq (get_seq m) ?w) = word_of_nat (stream_len (ps @ as))"
    using at(2) pos word_of_nat_unat [of "rw_off (set_off_from_seq (get_seq m) ?w)"] by simp
qed

text \<open>The last part of \<open>on_ack\<close>: the window stands behind the acknowledged segments.\<close>

lemma on_ack_tail_ok:
  assumes "out_rep s ps (as @ bs)" and "unat (cwp_start (o_cwp s)) + 1000 \<le> 4294967296"
    and "w = (cwp_setup (o_cwp s))\<lparr>rw_off := word_of_nat (stream_len (ps @ as))\<rparr>"
  shows "\<exists>t. on_ack_tail w s = Inr t \<and>
    (if stream_len (ps @ as) = 1000 then out_rep t [] [] \<and> cwp_start (o_cwp t) = cwp_start (o_cwp s) + 1000
     else out_rep t (ps @ as) bs \<and> cwp_start (o_cwp t) = cwp_start (o_cwp s)) \<and>
    sob_sem (o_buf t) = sob_sem (o_buf s) \<and> buf_empty t = buf_empty s + of_bool (bs = []) \<and>
    buf_not_empty t = buf_not_empty s \<and> o_cwc t = o_cwc s \<and> o_fr t = o_fr s \<and> o_tc t = o_tc s"
proof -
  have rep: "buf_rep (cwp_start (o_cwp s)) (o_buf s) ((ps @ as) @ bs)" and sz: "cwp_sz (o_cwp s) = OUTPUT_WINDOW_SZ"
      and so: "cwp_send_off (o_cwp s) = word_of_nat (stream_len ((ps @ as) @ bs))"
    using assms(1) by (simp_all add: out_rep_def add.assoc)
  let ?o = "word_of_nat (stream_len (ps @ as)) :: off_t"
  have o: "unat ?o = stream_len (ps @ as)" using buf_rep_prefix_bounds(1) [OF rep] .
  let ?u = "s\<lparr>o_cwp := (o_cwp s)\<lparr>cwp_off := ?o\<rparr>\<rparr>"
  have u: "out_rep ?u (ps @ as) bs" using assms(1) by (simp add: out_rep_def add.assoc)
  have e: "sent_buf_empty w \<longleftrightarrow> bs = []"
    using sent_buf_empty_iff [OF u] by (simp add: assms(3) sent_buf_empty_def)
  let ?s1 = "if bs = [] then on_sent_buf_empty s else s"
  have z: "get_sz w = 0 \<longleftrightarrow> stream_len (ps @ as) = 1000"
    unfolding get_sz_0_iff assms(3) using o by (simp add: sz word_unat_eq_iff)
  show ?thesis
  proof (cases "stream_len (ps @ as) = 1000")
    case True
    obtain b where b: "sob_refresh (o_buf s) = Inr b" "buf_rep (cwp_start (o_cwp s) + 1000) b []" "sob_sem b = sob_sem (o_buf s)"
      using sob_refresh_ok by blast
    have "unat (cwp_start (o_cwp s) + 1000) < 4611686018427387904"
      using assms(2) unat_plus_no_wrap [of "cwp_start (o_cwp s)" 1000] by simp
    with True z e b sz show ?thesis
      by (auto simp: on_ack_tail_def on_sent_buf_empty_def cwp_flush_def assms(3) send_next_window_def next_window_def
          out_rep_def OUTPUT_WINDOW_SZ_def)
  next
    case False
    with z e u show ?thesis
      by (auto simp: on_ack_tail_def on_sent_buf_empty_def cwp_flush_def assms(3) out_rep_def add.assoc)
  qed
qed

text \<open>A cumulative acknowledgement of the outstanding segments \<open>as\<close>.\<close>

lemma scw_on_ack_eq:
  assumes "out_rep s ps (as @ bs)" and "as \<noteq> []" and "unat (cwp_start (o_cwp s)) + 1000 \<le> 4294967296"
    and "unat (get_seq m) + 1 = unat (cwp_start (o_cwp s)) + stream_len (ps @ as)"
  shows "scw_on_ack now m s = Some (on_ack_tail (set_off_from_seq (get_seq m) (cwp_setup (o_cwp s)))
    ((output_refresh_on_msg_pair now (slots_len ps + off_msg_data) m s)\<lparr>o_buf := post_all (starts (slots_len ps) as) (o_buf s)\<rparr>))"
proof -
  have rep: "buf_rep (cwp_start (o_cwp s)) (o_buf s) (ps @ as @ bs)" using assms(1) by (simp add: out_rep_def)
  have off: "cwp_off (o_cwp s) = word_of_nat (stream_len ps)" using assms(1) by (simp add: out_rep_def)
  show ?thesis
    using set_off_stream [OF assms] get_msg_at_ok [OF rep] release_range_ok [OF rep] unfolding scw_on_ack_def Let_def
    by (simp add: off output_refresh_on_msg_pair_def del: stream_len_simps of_nat_add)
qed

lemma scw_on_ack_ok:
  assumes "out_rep s ps (as @ bs)" and "as \<noteq> []" and "unat (cwp_start (o_cwp s)) + 1000 \<le> 4294967296"
    and "unat (get_seq m) + 1 = unat (cwp_start (o_cwp s)) + stream_len (ps @ as)"
  shows "\<exists>t. scw_on_ack now m s = Some (Inr t) \<and>
    (if stream_len (ps @ as) = 1000 then out_rep t [] [] \<and> cwp_start (o_cwp t) = cwp_start (o_cwp s) + 1000
     else out_rep t (ps @ as) bs \<and> cwp_start (o_cwp t) = cwp_start (o_cwp s)) \<and>
    sob_sem (o_buf t) = sob_sem (post_all (starts (slots_len ps) as) (o_buf s)) \<and>
    buf_empty t = buf_empty s + of_bool (bs = []) \<and> buf_not_empty t = buf_not_empty s \<and> o_cwc t = o_cwc s \<and> o_fr t = o_fr s"
proof -
  let ?w = "cwp_setup (o_cwp s)" and ?w' = "set_off_from_seq (get_seq m) (cwp_setup (o_cwp s))"
  note w = set_off_stream [OF assms]
  let ?s1 = "output_refresh_on_msg_pair now (slots_len ps + off_msg_data) m s"
  let ?s2 = "?s1\<lparr>o_buf := post_all (starts (slots_len ps) as) (o_buf s)\<rparr>"
  have s2: "out_rep ?s2 ps (as @ bs)" using assms(1) by (simp add: out_rep_def output_refresh_on_msg_pair_def)
  note on = scw_on_ack_eq [OF assms, of now]
  have w': "?w' = (cwp_setup (o_cwp ?s2))\<lparr>rw_off := word_of_nat (stream_len (ps @ as))\<rparr>"
    using w(2) by (simp add: set_off_from_seq_def win_inc_def output_refresh_on_msg_pair_def)
  have "unat (cwp_start (o_cwp ?s2)) + 1000 \<le> 4294967296" using assms(3) by (simp add: output_refresh_on_msg_pair_def)
  from on_ack_tail_ok [OF s2 this w'] obtain t where t: "on_ack_tail ?w' ?s2 = Inr t \<and>
    (if stream_len (ps @ as) = 1000 then out_rep t [] [] \<and> cwp_start (o_cwp t) = cwp_start (o_cwp ?s2) + 1000
     else out_rep t (ps @ as) bs \<and> cwp_start (o_cwp t) = cwp_start (o_cwp ?s2)) \<and>
    sob_sem (o_buf t) = sob_sem (o_buf ?s2) \<and> buf_empty t = buf_empty ?s2 + of_bool (bs = []) \<and>
    buf_not_empty t = buf_not_empty ?s2 \<and> o_cwc t = o_cwc ?s2 \<and> o_fr t = o_fr ?s2" by blast
  then show ?thesis unfolding on by (intro exI [of _ t]) (simp add: output_refresh_on_msg_pair_def)
qed

lemma output_on_ack_ok:
  assumes "out_rep s ps (as @ bs)" and "as \<noteq> []" and "unat (cwp_start (o_cwp s)) + 1000 \<le> 2 ^ 32"
    and "unat (get_seq m) + 1 = unat (cwp_start (o_cwp s)) + stream_len (ps @ as)"
  shows "\<exists>t. output_on_ack ESTABLISHED now m s = Some (Inr t) \<and>
    (if stream_len (ps @ as) = 1000 then out_rep t [] [] \<and> cwp_start (o_cwp t) = cwp_start (o_cwp s) + 1000
     else out_rep t (ps @ as) bs \<and> cwp_start (o_cwp t) = cwp_start (o_cwp s)) \<and>
    sob_sem (o_buf t) = sob_sem (post_all (starts (slots_len ps) as) (o_buf s)) \<and>
    buf_empty t = buf_empty s + of_bool (bs = []) \<and> o_cwc t = cwc_on_ack m (o_cwc s)"
proof -
  let ?s = "s\<lparr>o_cwc := cwc_on_ack m (o_cwc s)\<rparr>"
  have "out_rep ?s ps (as @ bs)" using assms(1) by (simp add: out_rep_def)
  from scw_on_ack_ok [OF this assms(2), of m now] assms(3,4)
  obtain t where "scw_on_ack now m ?s = Some (Inr t)"
    "if stream_len (ps @ as) = 1000 then out_rep t [] [] \<and> cwp_start (o_cwp t) = cwp_start (o_cwp s) + 1000
     else out_rep t (ps @ as) bs \<and> cwp_start (o_cwp t) = cwp_start (o_cwp s)"
    "sob_sem (o_buf t) = sob_sem (post_all (starts (slots_len ps) as) (o_buf s))"
    "buf_empty t = buf_empty s + of_bool (bs = [])" "o_cwc t = cwc_on_ack m (o_cwc s)"
    by auto
  then show ?thesis by (intro exI [of _ t]) (simp add: output_on_ack_def)
qed

text \<open>Retransmission: the message with the sequence number of an outstanding segment is found and unmarked.\<close>

lemma retry_offset:
  assumes "out_rep s ps (qs @ rs)"
  shows "get_in_msg_off (cwp_setup (o_cwp s)) (size_to_seq (cwp_start (o_cwp s) + word_of_nat (stream_len (ps @ qs)))) +
    cwp_off (o_cwp s) = word_of_nat (stream_len (ps @ qs))"
proof -
  let ?w = "cwp_setup (o_cwp s)" and ?q = "size_to_seq (cwp_start (o_cwp s) + word_of_nat (stream_len (ps @ qs)))"
  have off: "cwp_off (o_cwp s) = word_of_nat (stream_len ps)" using assms by (simp add: out_rep_def)
  have le: "stream_len qs \<le> 1000" using out_rep_nat(3) [OF assms] by simp
  have "?q - size_to_seq (win_begin ?w) = size_to_seq (word_of_nat (stream_len qs))"
    by (simp add: win_begin_def off flip: size_to_seq_diff)
  then have "circ_dist ?w ?q = stream_len qs"
    using le by (simp add: circ_dist_def unat_size_to_seq unat_word_of_nat_u64)
  then have "get_in_msg_off ?w ?q = word_of_nat (stream_len qs)"
    using unat_get_in_msg_off [of ?w ?q] word_of_nat_unat [of "get_in_msg_off ?w ?q"] by simp
  then show ?thesis by (simp add: off add.commute)
qed

lemma scw_retry_ok:
  assumes "out_rep s ps (qs @ r # rs)" and "get_seq m = size_to_seq (cwp_start (o_cwp s) + word_of_nat (stream_len (ps @ qs)))"
  shows "\<exists>t. scw_retry m s = Inr t \<and> out_rep t ps (qs @ r # rs) \<and>
    \<not> is_msg_used (slots_len (ps @ qs) + off_msg_data) (sob_buf (o_buf t)) \<and> o_cwp t = o_cwp s \<and> o_cwc t = o_cwc s \<and>
    sob_sem (o_buf t) = sob_sem (o_buf s) \<and> buf_empty t = buf_empty s"
proof -
  have rep: "buf_rep (cwp_start (o_cwp s)) (o_buf s) ((ps @ qs) @ r # rs)" using assms(1) by (simp add: out_rep_def)
  let ?b = "mark_msg_used (slots_len (ps @ qs) + off_msg_data) False (sob_buf (o_buf s))"
  have "scw_retry m s = Inr (s\<lparr>o_buf := (o_buf s)\<lparr>sob_buf := ?b\<rparr>\<rparr>)"
    using retry_offset [OF assms(1)] get_msg_at_ok [OF rep]
    unfolding scw_retry_def Let_def assms(2) by simp
  moreover have "out_rep (s\<lparr>o_buf := (o_buf s)\<lparr>sob_buf := ?b\<rparr>\<rparr>) ps (qs @ r # rs)"
    using assms(1) mark_msg_used_rep [OF rep, of False] by (simp add: out_rep_def)
  ultimately show ?thesis by (simp add: is_msg_used_def mark_msg_used_def)
qed

text \<open>The next message is the oldest outstanding one when that one is not marked.\<close>

lemma next_msg_eq:
  assumes "out_rep s ps (q # qs)" and "\<not> is_msg_used (slots_len ps + off_msg_data) (sob_buf (o_buf s))"
  shows "next_msg active s = Some (Inr (slots_len ps + off_msg_data, s\<lparr>o_buf := (o_buf s)\<lparr>sob_buf :=
    mark_msg_used (slots_len ps + off_msg_data) True (sob_buf (o_buf s))\<rparr>\<rparr>))" (is "_ = Some (Inr (_, ?t))")
proof -
  have rep: "buf_rep (cwp_start (o_cwp s)) (o_buf s) (ps @ q # qs)" using assms(1) by (simp add: out_rep_def)
  have off: "cwp_off (o_cwp s) = word_of_nat (stream_len ps)" using assms(1) by (simp add: out_rep_def)
  have "0 < length q" using rep by (auto simp: buf_rep_def chain_append)
  then have lt: "sint (cwp_off (o_cwp s)) < sint (cwp_send_off (o_cwp s))"
    using out_rep_nat [OF assms(1)] sint_small [of "cwp_off (o_cwp s)"] sint_small [of "cwp_send_off (o_cwp s)"]
    by (simp del: of_nat_unat length_greater_0_conv)
  have "next_msg_loop (cwp_off (o_cwp s)) s = Some (Inr (slots_len ps + off_msg_data, ?t))"
    using lt assms(2) get_msg_at_ok [OF rep] by (subst next_msg_loop.simps) (simp add: off)
  then show ?thesis using sent_buf_empty_iff [OF assms(1)] by (simp add: next_msg_def)
qed

lemma next_msg_ok:
  assumes "out_rep s ps (q # qs)" and "\<not> is_msg_used (slots_len ps + off_msg_data) (sob_buf (o_buf s))"
  shows "\<exists>t. next_msg active s = Some (Inr (slots_len ps + off_msg_data, t)) \<and> out_rep t ps (q # qs) \<and>
    is_msg_used (slots_len ps + off_msg_data) (sob_buf (o_buf t)) \<and> o_cwp t = o_cwp s \<and> o_cwc t = o_cwc s \<and>
    sob_sem (o_buf t) = sob_sem (o_buf s) \<and> buf_empty t = buf_empty s"
proof -
  have "buf_rep (cwp_start (o_cwp s)) (o_buf s) (ps @ q # qs)" using assms(1) by (simp add: out_rep_def)
  from mark_msg_used_rep [OF this, of True] assms(1)
  have "out_rep (s\<lparr>o_buf := (o_buf s)\<lparr>sob_buf := mark_msg_used (slots_len ps + off_msg_data) True (sob_buf (o_buf s))\<rparr>\<rparr>) ps (q # qs)"
    by (simp add: out_rep_def)
  with next_msg_eq [OF assms] show ?thesis by (simp add: is_msg_used_def mark_msg_used_def)
qed

lemma out_rep_slot:
  "out_rep s ps (qs @ r # rs) \<Longrightarrow> get_data (load_msg (sob_buf (o_buf s)) (slots_len (ps @ qs) + off_msg_data)) = r \<and>
   get_seq (load_msg (sob_buf (o_buf s)) (slots_len (ps @ qs) + off_msg_data)) =
     size_to_seq (cwp_start (o_cwp s) + word_of_nat (stream_len (ps @ qs)))"
  using sb.get_rep [of "cwp_start (o_cwp s)" "o_buf s" "ps @ qs" r rs]
    get_msg_at_ok [of "cwp_start (o_cwp s)" "o_buf s" "ps @ qs" "r # rs"]
  by (auto simp: out_rep_def)

text \<open>A repeated acknowledgement of the byte before the window.\<close>

lemma dup_ack_windows:
  assumes "out_rep s ps qs" and "unat (cwp_start (o_cwp s)) + 1000 \<le> 4294967296" and "stream_len ps < 1000"
    and "unat (get_seq m) + 1 = unat (cwp_start (o_cwp s)) + stream_len ps"
  shows "\<not> msg_in_win (cwp_setup (o_cwp s)) m" and "msg_in_prev_win (cwp_setup (o_cwp s)) m"
proof -
  let ?w = "cwp_setup (o_cwp s)"
  note nat = out_rep_nat [OF assms(1)]
  have b: "unat (win_begin ?w) = unat (cwp_start (o_cwp s)) + stream_len ps" by (simp add: win_ok_begin [OF nat(4)] nat(1))
  have e: "unat (win_end ?w) = unat (cwp_start (o_cwp s)) + 1000"
    using assms(1) by (simp add: win_ok_end [OF nat(4)] out_rep_def)
  have q: "unat (seq_to_size (get_seq m) + 1) = unat (get_seq m) + 1"
    using unat_u32_bound [of "get_seq m"] unat_plus_no_wrap [of "seq_to_size (get_seq m)" 1] by simp
  show "\<not> msg_in_win ?w m"
    using assms(2,4) b e unat_u32_bound [of "get_seq m"] by (simp add: msg_in_win_def contains_single [OF nat(4)])
  show "msg_in_prev_win ?w m"
    using assms(2-4) b e q by (simp add: msg_in_prev_win_def contains_single [OF nat(4)])
qed

lemma dup_ack_step:
  assumes "out_rep s ps qs" and "unat (cwp_start (o_cwp s)) + 1000 \<le> 4294967296" and "stream_len ps < 1000"
    and "unat (get_seq m) + 1 = unat (cwp_start (o_cwp s)) + stream_len ps"
  shows "scw_on_ack now m s =
    Some (if snd (fr_on_ack m (o_fr s))
          then output_on_retry (load_msg (sob_buf (o_buf s)) (slots_len ps + off_msg_data)) (s\<lparr>o_fr := fst (fr_on_ack m (o_fr s))\<rparr>)
          else Inr (s\<lparr>o_fr := fst (fr_on_ack m (o_fr s))\<rparr>))"
proof -
  have rep: "buf_rep (cwp_start (o_cwp s)) (o_buf s) (ps @ qs)" and off: "cwp_off (o_cwp s) = word_of_nat (stream_len ps)"
    using assms(1) by (simp_all add: out_rep_def)
  have flush: "(case output_on_retry m' (s\<lparr>o_fr := f\<rparr>) of Inl e \<Rightarrow> Inl e
      | Inr s' \<Rightarrow> Inr (s'\<lparr>o_cwp := cwp_flush (cwp_setup (o_cwp s)) (o_cwp s')\<rparr>)) = output_on_retry m' (s\<lparr>o_fr := f\<rparr>)" for m' f
    by (auto simp: output_on_retry_def scw_retry_def Let_def split: sum.splits)
  show ?thesis
    using dup_ack_windows [OF assms] get_msg_at_ok [OF rep]
    by (simp add: scw_on_ack_def Let_def off output_refresh_on_msg_pair_prev_window_matched_def split_beta flush)
qed

lemma stream_len_prefix:
  assumes "us @ vs = ps @ q # qs" and "list_all (\<lambda>p. p \<noteq> []) us" and "list_all (\<lambda>p. p \<noteq> []) vs"
  shows "stream_len us < stream_len ps \<longleftrightarrow> length us < length ps"
proof -
  have pos: "0 < stream_len zs" if "list_all (\<lambda>p. p \<noteq> []) zs" "zs \<noteq> []" for zs
    using that by (cases zs) auto
  from assms(1) consider zs where "us = ps @ zs" | zs where "ps = us @ zs" "vs = zs @ q # qs"
    by (auto simp: append_eq_append_conv2)
  then show ?thesis using pos assms by cases auto
qed

section \<open>Properties\<close>

text \<open>The sender's state right after the handshake.\<close>

definition established_out :: "tcp_seq \<Rightarrow> out_st" where
  "established_out start = \<lparr>o_cwp = scw_force_move_start start (cwp (on_init zero_mem)), o_buf = empty_buf,
     o_cwc = rwc (on_init zero_mem), o_tc = tc (on_init zero_mem), o_fr = fr (on_init zero_mem),
     buf_empty = 0, buf_not_empty = 0\<rparr>"

lemma established_out_rep: "out_rep (established_out start) [] []"
  using unat_u32_bound [of start]
  by (simp add: out_rep_def established_out_def scw_force_move_start_def cwp_flush_def empty_buf_rep
      on_init_def init_below_numeral mem_tags_def zero_mem_def)

lemma established_out_start: "cwp_start (o_cwp (established_out start)) = seq_to_size start"
  by (simp add: established_out_def scw_force_move_start_def cwp_flush_def)

lemma established_out_fr: "fr_cnt (o_fr (established_out start)) = 0"
  by (simp add: established_out_def on_init_def init_below_numeral mem_tags_def zero_mem_def)

text \<open>C14: Sending a package into the window: it is dropped exactly when it exceeds what is left of the
  window; otherwise it is stored behind the outstanding segments, its semaphore starts at zero, and
  the worker is signalled when the buffer was empty before.\<close>

theorem scw_send_appends:
  assumes "out_rep s ps qs" and "p \<noteq> []" and "length p < 2 ^ 32"
  shows "if stream_len (ps @ qs) + length p \<le> 1000
    then \<exists>f t. scw_send (tmp_msg p) s = Inr (f, t) \<and> out_rep t ps (qs @ [p]) \<and> sob_sem (o_buf t) f = 0 \<and>
      buf_not_empty t = buf_not_empty s + (if qs = [] then 1 else 0)
    else scw_send (tmp_msg p) s = Inl Drop"
proof (cases "stream_len (ps @ qs) + length p \<le> 1000")
  case True
  with scw_send_ok [OF assms(1,2)] show ?thesis by fastforce
next
  case False
  with assms(3) scw_send_drop [OF assms(1), of "tmp_msg p"] show ?thesis by (simp add: unat_word_of_nat_u64)
qed

theorem scw_send_appends_witness:
  "\<exists>f t. scw_send (tmp_msg [1, 2, 3]) (established_out 100) = Inr (f, t) \<and> out_rep t [] [[1, 2, 3]] \<and> sob_sem (o_buf t) f = 0"
  using scw_send_appends [OF established_out_rep [of 100], of "[1, 2, 3]"] by auto

text \<open>C9: A cumulative acknowledgement of outstanding segments moves the window behind them: exactly their
  senders are woken, once each; the later segments stay outstanding; the empty-buffer signal is
  given when none is left; and a completely acknowledged window is followed by the next one,
  starting 1000 bytes later with an empty buffer. The call always returns.\<close>

theorem ack_advances_window:
  assumes "out_rep s ps (as @ bs)" and "as \<noteq> []" and "unat (cwp_start (o_cwp s)) + 1000 \<le> 2 ^ 32"
    and "unat (get_seq m) + 1 = unat (cwp_start (o_cwp s)) + stream_len (ps @ as)"
  shows "\<exists>t. output_on_ack ESTABLISHED now m s = Some (Inr t) \<and>
    (if stream_len (ps @ as) = 1000 then out_rep t [] [] \<and> cwp_start (o_cwp t) = cwp_start (o_cwp s) + 1000
     else out_rep t (ps @ as) bs \<and> cwp_start (o_cwp t) = cwp_start (o_cwp s)) \<and>
    sob_sem (o_buf t) = sob_sem (post_all (starts (slots_len ps) as) (o_buf s)) \<and>
    buf_empty t = buf_empty s + of_bool (bs = []) \<and> o_cwc t = cwc_on_ack m (o_cwc s)"
  using assms by (rule output_on_ack_ok)

text \<open>A state with one segment sent.\<close>

lemma one_sent: "\<exists>f t. scw_send (tmp_msg [1, 2, 3]) (established_out 100) = Inr (f, t) \<and> out_rep t [] [[1, 2, 3]] \<and>
    cwp_start (o_cwp t) = 100 \<and> sob_sem (o_buf t) 0 = 0"
  using scw_send_ok [OF established_out_rep [of 100], of "[1, 2, 3]"]
  by (auto simp: established_out_start seq_to_size_def)

definition ack_msg :: "tcp_seq \<Rightarrow> msg" where
  "ack_msg q = set_seq q (set_ack (msg_new None 0))"

lemma get_seq_ack_msg [simp]: "get_seq (ack_msg q) = q"
  by (simp add: ack_msg_def)

theorem ack_advances_window_witness:
  "\<exists>f s t. scw_send (tmp_msg [1, 2, 3]) (established_out 100) = Inr (f, s) \<and>
     output_on_ack ESTABLISHED 0 (ack_msg 102) s = Some (Inr t) \<and> out_rep t [[1, 2, 3]] [] \<and> sob_sem (o_buf t) 0 = 1"
proof -
  obtain f s where s: "scw_send (tmp_msg [1, 2, 3]) (established_out 100) = Inr (f, s)" "out_rep s [] ([[1, 2, 3]] @ [])"
      "cwp_start (o_cwp s) = 100" "sob_sem (o_buf s) 0 = 0"
    using one_sent by auto
  with ack_advances_window [OF s(2), of "ack_msg 102" 0] show ?thesis by (auto simp: post_all_def)
qed

text \<open>C15: After a timeout of the oldest outstanding segment the congestion window is halved and the segment
  is the next one to be sent again, with its payload and sequence number unchanged.\<close>

theorem retry_resends_oldest:
  assumes "out_rep s ps (q # qs)" and "get_seq m = size_to_seq (cwp_start (o_cwp s) + word_of_nat (stream_len ps))"
  shows "\<exists>t p u. output_on_retry m s = Inr t \<and> o_cwc t = cwc_on_retry (o_cwc s) \<and>
    next_msg active t = Some (Inr (p, u)) \<and> get_data (load_msg (sob_buf (o_buf u)) p) = q \<and>
    get_seq (load_msg (sob_buf (o_buf u)) p) = get_seq m \<and> out_rep u ps (q # qs)"
proof -
  let ?s = "s\<lparr>o_cwc := cwc_on_retry (o_cwc s)\<rparr>"
  have "out_rep ?s ps ([] @ q # qs)" using assms(1) by (simp add: out_rep_def)
  from scw_retry_ok [OF this] assms(2) obtain t where t: "scw_retry m ?s = Inr t" "out_rep t ps (q # qs)"
      "\<not> is_msg_used (slots_len ps + off_msg_data) (sob_buf (o_buf t))" "o_cwp t = o_cwp s" "o_cwc t = cwc_on_retry (o_cwc s)"
    by auto
  from next_msg_ok [OF t(2,3), of active] obtain u where u: "next_msg active t = Some (Inr (slots_len ps + off_msg_data, u))"
      "out_rep u ps ([] @ q # qs)" "o_cwp u = o_cwp t" by auto
  with out_rep_slot [OF u(2)] assms(2) t u show ?thesis by (auto simp: output_on_retry_def)
qed

theorem retry_resends_oldest_witness:
  "\<exists>f s t p u. scw_send (tmp_msg [1, 2, 3]) (established_out 100) = Inr (f, s) \<and> output_on_retry (ack_msg 100) s = Inr t \<and>
     next_msg True t = Some (Inr (p, u)) \<and> get_data (load_msg (sob_buf (o_buf u)) p) = [1, 2, 3]"
proof -
  obtain f s where s: "scw_send (tmp_msg [1, 2, 3]) (established_out 100) = Inr (f, s)" "out_rep s [] [[1, 2, 3]]"
      "cwp_start (o_cwp s) = 100"
    using one_sent by auto
  with retry_resends_oldest [OF s(2), of "ack_msg 100" True] show ?thesis by (auto simp: size_to_seq_def)
qed

text \<open>The timer of the send worker sees a segment as complete exactly when it was acknowledged: a message
  with the sequence number of an outstanding segment is not complete, one of an acknowledged
  segment of the window is.\<close>

theorem complete_iff_acknowledged:
  assumes "out_rep s ps (q # qs)" and "unat (cwp_start (o_cwp s)) + 1000 \<le> 2 ^ 32"
    and "us @ vs = ps @ q # qs" and "vs \<noteq> []" and "unat (get_seq m) = unat (cwp_start (o_cwp s)) + stream_len us"
  shows "check_msg_complete m s \<longleftrightarrow> length us < length ps"
proof -
  let ?w = "cwp_setup (o_cwp s)"
  note nat = out_rep_nat [OF assms(1)]
  have "chain (sob_buf (o_buf s)) (off_map (o_buf s)) (cwp_start (o_cwp s)) (us @ vs) 0 0"
    using assms(1,3) by (simp add: out_rep_def buf_rep_def)
  then have ne: "list_all (\<lambda>p. p \<noteq> []) us" "list_all (\<lambda>p. p \<noteq> []) vs" using chain_nonempty by force+
  have vs: "0 < stream_len vs" using assms(4) ne(2) by (cases vs) auto
  have tot: "stream_len us + stream_len vs \<le> 1000" using nat(3) assms(3) stream_len_simps(3) by metis
  have b: "unat (win_begin ?w) = unat (cwp_start (o_cwp s)) + stream_len ps" by (simp add: win_ok_begin [OF nat(4)] nat(1))
  have e: "unat (win_end ?w) = unat (cwp_start (o_cwp s)) + 1000"
    using assms(1) by (simp add: win_ok_end [OF nat(4)] out_rep_def)
  have "check_msg_complete m s \<longleftrightarrow> stream_len us < stream_len ps"
    using assms(2,5) vs tot b e unat_u32_bound [of "get_seq m"]
    by (auto simp: check_msg_complete_def msg_in_win_def contains_single [OF nat(4)])
  then show ?thesis using stream_len_prefix [OF assms(3)] ne by auto
qed

theorem complete_iff_acknowledged_witness:
  "\<exists>f s. scw_send (tmp_msg [1, 2, 3]) (established_out 100) = Inr (f, s) \<and> \<not> check_msg_complete (ack_msg 100) s"
proof -
  obtain f s where s: "scw_send (tmp_msg [1, 2, 3]) (established_out 100) = Inr (f, s)" "out_rep s [] [[1, 2, 3]]"
      "cwp_start (o_cwp s) = 100"
    using one_sent by auto
  with complete_iff_acknowledged [OF s(2), of "[]" "[[1, 2, 3]]" "ack_msg 100"] show ?thesis by auto
qed

lemma on_acks_dup:
  assumes "out_rep s ps qs" and "unat (cwp_start (o_cwp s)) + 1000 \<le> 4294967296" and "stream_len ps < 1000"
    and "unat (get_seq m) + 1 = unat (cwp_start (o_cwp s)) + stream_len ps"
    and "\<not> snd (fr_on_ack m (o_fr s))"
  shows "\<exists>t. output_on_ack ESTABLISHED now m s = Some (Inr t) \<and> out_rep t ps qs \<and> o_cwp t = o_cwp s \<and> o_buf t = o_buf s \<and>
    o_fr t = fst (fr_on_ack m (o_fr s))"
proof -
  let ?s = "s\<lparr>o_cwc := cwc_on_ack m (o_cwc s)\<rparr>"
  have "out_rep ?s ps qs" using assms(1) by (simp add: out_rep_def)
  from dup_ack_step [OF this] assms(2-5) assms(1) show ?thesis by (auto simp: output_on_ack_def out_rep_def)
qed

lemma dup_ack_fault:
  assumes "out_rep s ps []" and "unat (cwp_start (o_cwp s)) + 1000 \<le> 4294967296" and "stream_len ps < 1000"
    and "unat (get_seq m) + 1 = unat (cwp_start (o_cwp s)) + stream_len ps" and "snd (fr_on_ack m (o_fr s))"
    and "OUTPUT_SEND_BUF_SZ \<le> circ_dist (cwp_setup (o_cwp s))
      (get_seq (load_msg (sob_buf (o_buf s)) (slots_len ps + off_msg_data)))"
  shows "output_on_ack ESTABLISHED now m s = Some (Inl Fault)"
proof -
  let ?s = "s\<lparr>o_cwc := cwc_on_ack m (o_cwc s)\<rparr>" and ?w = "cwp_setup (o_cwp s)"
  let ?q = "get_seq (load_msg (sob_buf (o_buf s)) (slots_len ps + off_msg_data))"
  have rep: "out_rep ?s ps []" using assms(1) by (simp add: out_rep_def)
  have "circ_dist ?w ?q < 4294967296" by (simp add: circ_dist_def unat_u32_bound)
  then have "unat (get_in_msg_off ?w ?q + cwp_off (o_cwp s)) = circ_dist ?w ?q + stream_len ps"
    using out_rep_nat(1) [OF assms(1)] assms(3) unat_plus_no_wrap [of "get_in_msg_off ?w ?q" "cwp_off (o_cwp s)"]
    by (simp add: unat_get_in_msg_off)
  then have "get_msg_at (get_in_msg_off ?w ?q + cwp_off (o_cwp s)) (o_buf s) = Inl Fault"
    using assms(6) by (simp add: get_msg_at_def real_off_def)
  then show ?thesis
    using dup_ack_step [OF rep] assms(2-5) by (simp add: output_on_ack_def output_on_retry_def scw_retry_def)
qed

text \<open>Four repeated acknowledgements while nothing is outstanding make the sender read outside its
  offset map: the fast retransmission takes the bytes behind the last message for a message, and
  the sequence number it finds there is turned into an offset without a check.\<close>

theorem four_dup_acks_on_empty_buffer_fault:
  assumes "out_rep s ps []" and "unat (cwp_start (o_cwp s)) + 1000 \<le> 2 ^ 32" and "stream_len ps < 1000"
    and "unat (get_seq m) + 1 = unat (cwp_start (o_cwp s)) + stream_len ps" and "fr_cnt (o_fr s) = 0"
    and "OUTPUT_SEND_BUF_SZ \<le> circ_dist (cwp_setup (o_cwp s))
      (get_seq (load_msg (sob_buf (o_buf s)) (slots_len ps + off_msg_data)))"
  shows "on_acks now [m, m, m, m] s = Some (Inl Fault)"
proof -
  let ?F = "\<lambda>n. \<lparr>fr_last = get_seq m, fr_cnt = n\<rparr>"
  have lap: "unat (cwp_start (o_cwp s)) + 1000 \<le> 4294967296" using assms(2) by simp
  have f1: "fr_on_ack m (o_fr s) = (?F 1, False)" using assms(5) by (simp add: fr_on_ack_def Let_def)
  have f2: "fr_on_ack m (?F 1) = (?F 2, False)" "fr_on_ack m (?F 2) = (?F 3, False)" "snd (fr_on_ack m (?F 3))"
    by (simp_all add: fr_on_ack_def Let_def TCP_FAST_RETRANSMIT_BOUND_def)
  obtain t1 where t1: "output_on_ack ESTABLISHED now m s = Some (Inr t1)" "out_rep t1 ps []" "o_cwp t1 = o_cwp s"
      "o_buf t1 = o_buf s" "o_fr t1 = ?F 1"
    using on_acks_dup [OF assms(1) lap assms(3,4), of now] f1 by auto
  obtain t2 where t2: "output_on_ack ESTABLISHED now m t1 = Some (Inr t2)" "out_rep t2 ps []" "o_cwp t2 = o_cwp s"
      "o_buf t2 = o_buf s" "o_fr t2 = ?F 2"
    using on_acks_dup [OF t1(2), of m now] lap assms(3,4) f2 t1 by auto
  obtain t3 where t3: "output_on_ack ESTABLISHED now m t2 = Some (Inr t3)" "out_rep t3 ps []" "o_cwp t3 = o_cwp s"
      "o_buf t3 = o_buf s" "o_fr t3 = ?F 3"
    using on_acks_dup [OF t2(2), of m now] lap assms(3,4) f2 t2 by auto
  have "output_on_ack ESTABLISHED now m t3 = Some (Inl Fault)"
    using dup_ack_fault [OF t3(2), of m now] lap assms(3,4,6) f2 t3 by simp
  with t1(1) t2(1) t3(1) show ?thesis by simp
qed

lemma get_seq_zero_buf: "get_seq (load_msg (\<lambda>_. 0) a) = 0"
  by (simp add: load_msg_def load_packet_def load_TCPHDR_def load_tcphdr_def get_seq_def msg_hdr_def ld32_def
      mem_read_def upt_rec)

theorem four_dup_acks_on_empty_buffer_fault_witness:
  "on_acks 0 [ack_msg 99, ack_msg 99, ack_msg 99, ack_msg 99] (established_out 100) = Some (Inl Fault)"
proof (rule four_dup_acks_on_empty_buffer_fault [OF established_out_rep])
  let ?s = "established_out 100"
  have st: "cwp_start (o_cwp ?s) = 100" "cwp_off (o_cwp ?s) = 0"
    by (simp_all add: established_out_def scw_force_move_start_def cwp_flush_def seq_to_size_def)
  have z: "sob_buf (o_buf ?s) = (\<lambda>_. 0)" by (simp add: established_out_def empty_buf_def)
  show "OUTPUT_SEND_BUF_SZ \<le> circ_dist (cwp_setup (o_cwp ?s)) (get_seq (load_msg (sob_buf (o_buf ?s)) (slots_len [] + off_msg_data)))"
    unfolding z get_seq_zero_buf
    by (subst circ_dist_nat) (simp_all add: first_lap_def win_begin_def st OUTPUT_SEND_BUF_SZ_def)
qed (simp_all add: established_out_fr established_out_start seq_to_size_def)

text \<open>An acknowledgement of a byte of the window that was never sent is accepted: the window's offset
  moves past the end of the sent data, the buffer no longer counts as empty, and the send worker
  finds nothing to send and gives up with a timeout each time.\<close>

theorem ack_beyond_sent_accepted:
  assumes "out_rep s ps qs" and "unat (cwp_start (o_cwp s)) + 1000 \<le> 2 ^ 32"
    and "unat (get_seq m) = unat (cwp_start (o_cwp s)) + k" and "stream_len (ps @ qs) \<le> k" and "k < 999"
    and "off_map (o_buf s) (k + 1) = 0"
  shows "\<exists>t. scw_on_ack now m s = Some (Inr t) \<and> unat (cwp_off (o_cwp t)) = k + 1 \<and>
    unat (cwp_send_off (o_cwp t)) < unat (cwp_off (o_cwp t)) \<and> \<not> is_sent_buf_empty t \<and>
    next_msg active t = Some (Inl Timeout)"
proof -
  let ?w = "cwp_setup (o_cwp s)" and ?w' = "set_off_from_seq (get_seq m) (cwp_setup (o_cwp s))"
  note nat = out_rep_nat [OF assms(1)]
  have sz: "cwp_sz (o_cwp s) = OUTPUT_WINDOW_SZ" and rep: "buf_rep (cwp_start (o_cwp s)) (o_buf s) (ps @ qs)"
      and off: "cwp_off (o_cwp s) = word_of_nat (stream_len ps)"
    using assms(1) by (simp_all add: out_rep_def)
  have inw: "msg_in_win ?w m" and o: "unat (rw_off ?w') = k + 1"
    using set_off_at [OF assms(1) _ assms(3)] assms(2,4,5) by simp_all
  have w': "sw_sent_off ?w' = cwp_send_off (o_cwp s)" "rw_sz ?w' = OUTPUT_WINDOW_SZ"
    by (simp_all add: set_off_from_seq_def win_inc_def sz)
  let ?s1 = "output_refresh_on_msg_pair now (slots_len ps + off_msg_data) m s"
  let ?t = "?s1\<lparr>o_cwp := cwp_flush ?w' (o_cwp s)\<rparr>"
  have "release_range (cwp_off (o_cwp s)) (rw_off ?w' - 1) (o_buf s) = Some (Inr (o_buf s))"
    using real_off_ok [OF rep] o assms(5,6) release_loop.simps [of "word_of_nat (slots_len ps)" 0]
    by (simp add: release_range_def off real_off_def [of "rw_off ?w'"] OUTPUT_SEND_BUF_SZ_def)
  then have "scw_on_ack now m s = Some (on_ack_tail ?w' ?s1)"
    using inw get_msg_at_ok [OF rep] off by (simp add: scw_on_ack_def Let_def output_refresh_on_msg_pair_def)
  moreover have lt: "unat (cwp_send_off (o_cwp s)) < unat (rw_off ?w')" using o nat(2) assms(4) by simp
  then have ne: "\<not> sent_buf_empty ?w'" using w' by (auto simp: sent_buf_empty_def)
  have "rw_off ?w' \<noteq> 1000" using o assms(5) by auto
  then have "get_sz ?w' \<noteq> 0" using w' by (simp add: get_sz_0_iff OUTPUT_WINDOW_SZ_def)
  with ne have "on_ack_tail ?w' ?s1 = Inr ?t" by (simp add: on_ack_tail_def output_refresh_on_msg_pair_def)
  moreover have sel: "cwp_off (o_cwp ?t) = rw_off ?w'" "cwp_send_off (o_cwp ?t) = cwp_send_off (o_cwp s)"
    by (simp_all add: cwp_flush_def w')
  moreover have ne': "\<not> is_sent_buf_empty ?t" using lt sel by (auto simp: is_sent_buf_empty_def sent_buf_empty_def)
  moreover have "\<not> sint (rw_off ?w') < sint (cwp_send_off (o_cwp s))"
    using o lt assms(5) sint_small [of "rw_off ?w'"] sint_small [of "cwp_send_off (o_cwp s)"] by (simp del: of_nat_unat)
  then have "next_msg active ?t = Some (Inl Timeout)"
    using ne' sel by (simp add: next_msg_def is_sent_buf_empty_def Let_def next_msg_loop.simps [of "rw_off ?w'"])
  ultimately show ?thesis using o lt by auto
qed

theorem ack_beyond_sent_accepted_witness:
  "\<exists>t. scw_on_ack 0 (ack_msg 149) (established_out 100) = Some (Inr t) \<and> unat (cwp_off (o_cwp t)) = 50 \<and>
     next_msg True t = Some (Inl Timeout)"
proof -
  have "off_map (o_buf (established_out 100)) (49 + 1) = 0" by (simp add: established_out_def empty_buf_def)
  then show ?thesis
    using ack_beyond_sent_accepted [OF established_out_rep [of 100], of "ack_msg 149" 49 0 True]
    by (auto simp: established_out_start seq_to_size_def)
qed

end
