(* ===== verification/Send_Path.thy ===== *)
theory Send_Path
  imports Send_Window
begin

text \<open>
  The sending thread: \<open>nagles::send\<close> of \<open>src/tcp_proto_output.h\<close> inside
  \<open>socket_full_impl::send\<close> of \<open>src/newimpl.cpp\<close>, with \<open>output_send_as_single_package\<close> and
  \<open>output_wait_on_send_buf_empty\<close>. The thread holds \<open>send_worker_lock\<close> except where it waits for
  the empty buffer, waits for the futures of a round, or is between two rounds; there the receive
  worker (acknowledgements) and the send worker (next message, retransmission) may run. A section
  under the lock is atomic; \<open>spc\<close> says where the thread stands.
\<close>

section \<open>The thread\<close>

datatype spc = S_Top | S_Loop | S_Check_drop | S_Check_seg nat | S_Sleep_drop | S_Sleep_seg nat
  | S_Futures "nat list" | S_Return | S_Exn tcp_exn

text \<open>
  \<open>sc_data\<close> is what \<open>nagles::send\<close> still has to send in this round, \<open>sc_rest\<close> what \<open>send\<close> still
  has after the round, \<open>sc_futs\<close> the futures collected; \<open>sc_log\<close> is the history of the segments
  sent, which no step reads.
\<close>

record send_cfg =
  sc_st :: out_st
  sc_pc :: spc
  sc_data :: "u8 list"
  sc_rest :: "u8 list"
  sc_futs :: "nat list"
  sc_log :: "u8 list list"

definition output_send_as_single_package :: "u8 list \<Rightarrow> out_st \<Rightarrow> (nat \<times> out_st) res" where
  "output_send_as_single_package data s = scw_send (tmp_msg data) s"

text \<open>After a package of \<open>n\<close> bytes was sent: remember its future and go on behind it.\<close>

definition package_sent :: "nat \<Rightarrow> nat \<Rightarrow> out_st \<Rightarrow> send_cfg \<Rightarrow> send_cfg" where
  "package_sent n f s c = c\<lparr>sc_st := s, sc_pc := S_Loop, sc_data := drop n (sc_data c), sc_futs := sc_futs c @ [f],
     sc_log := sc_log c @ [take n (sc_data c)]\<rparr>"

text \<open>One round of the loop of \<open>nagles::send\<close>, up to a wait.\<close>

definition nagles_iter :: "send_cfg \<Rightarrow> send_cfg" where
  "nagles_iter c =
     (if sc_data c = [] then c\<lparr>sc_pc := S_Futures (sc_futs c)\<rparr>
      else let m = unat (mtu (o_cwc (sc_st c)));
               win_sz = unat (bounded_win_sz (o_cwc (sc_st c)));
               data_sz = length (sc_data c)
           in if m < win_sz \<and> m \<le> data_sz
              then (case output_send_as_single_package (take m (sc_data c)) (sc_st c) of
                      Inl Drop \<Rightarrow> c\<lparr>sc_pc := S_Check_drop\<rparr>
                    | Inl e \<Rightarrow> c\<lparr>sc_pc := S_Exn e\<rparr>
                    | Inr (f, s) \<Rightarrow> package_sent m f s c)
              else c\<lparr>sc_pc := S_Check_seg (min m (min win_sz data_sz))\<rparr>)"

text \<open>The steps of the thread; \<open>None\<close> where it is blocked or has returned.\<close>

definition send_thread :: "send_cfg \<Rightarrow> send_cfg option" where
  "send_thread c =
     (let s = sc_st c in
      case sc_pc c of
        S_Top \<Rightarrow>
          (if sc_rest c = [] then Some (c\<lparr>sc_pc := S_Return\<rparr>)
           else (let bound = min (unat (scw_get_sz s)) (length (sc_rest c))
                 in Some (c\<lparr>sc_pc := S_Loop, sc_data := take bound (sc_rest c), sc_rest := drop bound (sc_rest c),
                            sc_futs := []\<rparr>)))
      | S_Loop \<Rightarrow> Some (nagles_iter c)
      | S_Check_drop \<Rightarrow> Some (c\<lparr>sc_pc := (if is_sent_buf_empty s then S_Loop else S_Sleep_drop)\<rparr>)
      | S_Check_seg n \<Rightarrow>
          (if is_sent_buf_empty s
           then (case output_send_as_single_package (take n (sc_data c)) s of
                   Inl e \<Rightarrow> Some (c\<lparr>sc_pc := S_Exn e\<rparr>)
                 | Inr (f, s') \<Rightarrow> Some (package_sent n f s' c))
           else Some (c\<lparr>sc_pc := S_Sleep_seg n\<rparr>))
      | S_Sleep_drop \<Rightarrow>
          (if buf_empty s = 0 then None
           else Some (c\<lparr>sc_st := s\<lparr>buf_empty := buf_empty s - 1\<rparr>, sc_pc := S_Check_drop\<rparr>))
      | S_Sleep_seg n \<Rightarrow>
          (if buf_empty s = 0 then None
           else Some (c\<lparr>sc_st := s\<lparr>buf_empty := buf_empty s - 1\<rparr>, sc_pc := S_Check_seg n\<rparr>))
      | S_Futures [] \<Rightarrow> Some (c\<lparr>sc_pc := S_Top\<rparr>)
      | S_Futures (f # fs) \<Rightarrow>
          (if sob_sem (o_buf s) f = 0 then None
           else Some (c\<lparr>sc_st := s\<lparr>o_buf := (o_buf s)\<lparr>sob_sem := (sob_sem (o_buf s))(f := sob_sem (o_buf s) f - 1)\<rparr>\<rparr>,
                        sc_pc := S_Futures fs\<rparr>))
      | S_Return \<Rightarrow> None
      | S_Exn e \<Rightarrow> None)"

definition lock_free :: "spc \<Rightarrow> bool" where
  "lock_free pc = (case pc of S_Top \<Rightarrow> True | S_Sleep_drop \<Rightarrow> True | S_Sleep_seg n \<Rightarrow> True | S_Futures fs \<Rightarrow> True
     | S_Return \<Rightarrow> True | _ \<Rightarrow> False)"

section \<open>The other threads\<close>

text \<open>
  What runs while the lock is free, during the first lap of the sequence space: acknowledgements of
  complete segments that were sent, repeated acknowledgements of the byte before an outstanding
  segment, and the send worker's \<open>next_msg\<close> and \<open>output_on_retry\<close>. The peer leaves its window open
  and the congestion window does not pass the 64-bit range.
\<close>

inductive peer_step :: "out_st \<Rightarrow> out_st \<Rightarrow> bool" where
  peer_ack: "out_rep s ps (as @ bs) \<Longrightarrow> as \<noteq> [] \<or> bs \<noteq> [] \<Longrightarrow> unat (cwp_start (o_cwp s)) + 1000 \<le> 2 ^ 32 \<Longrightarrow>
    unat (get_seq m) + 1 = unat (cwp_start (o_cwp s)) + stream_len (ps @ as) \<Longrightarrow> get_window_sz m \<noteq> 0 \<Longrightarrow>
    unat (congection_win_sz (o_cwc s)) + unat (mtu (o_cwc s)) < 2 ^ 64 \<Longrightarrow>
    output_on_ack ESTABLISHED now m s = Some (Inr t) \<Longrightarrow> peer_step s t"
| peer_next: "out_rep s ps (q # qs) \<Longrightarrow> \<not> is_msg_used (slots_len ps + off_msg_data) (sob_buf (o_buf s)) \<Longrightarrow>
    next_msg True s = Some (Inr (p, t)) \<Longrightarrow> peer_step s t"
| peer_retry: "out_rep s ps (qs @ r # rs) \<Longrightarrow>
    get_seq m = size_to_seq (cwp_start (o_cwp s) + word_of_nat (stream_len (ps @ qs))) \<Longrightarrow>
    output_on_retry m s = Inr t \<Longrightarrow> peer_step s t"

inductive send_step :: "send_cfg \<Rightarrow> send_cfg \<Rightarrow> bool" where
  thread: "send_thread c = Some d \<Longrightarrow> send_step c d"
| peer: "lock_free (sc_pc c) \<Longrightarrow> peer_step (sc_st c) t \<Longrightarrow> send_step c (c\<lparr>sc_st := t\<rparr>)"

text \<open>A call of \<open>send\<close> with the bytes \<open>data\<close> when nothing is outstanding.\<close>

definition send_call :: "u8 list \<Rightarrow> out_st \<Rightarrow> send_cfg" where
  "send_call data s = \<lparr>sc_st = s, sc_pc = S_Top, sc_data = [], sc_rest = data, sc_futs = [], sc_log = []\<rparr>"

definition send_start :: "u8 list \<Rightarrow> send_cfg \<Rightarrow> bool" where
  "send_start data c \<longleftrightarrow> (\<exists>s ps. c = send_call data s \<and> out_rep s ps [] \<and> stream_len ps < 1000 \<and>
     mtu (o_cwc s) \<noteq> 0 \<and> bounded_win_sz (o_cwc s) \<noteq> 0)"

section \<open>The segments of a state are unique\<close>

lemma slot_at_unique: "slot_at buf a q p \<Longrightarrow> slot_at buf a q' p' \<Longrightarrow> p = p'"
  by (simp add: slot_at_def Let_def)

lemma chain_unique:
  "chain buf om start ps off a \<Longrightarrow> chain buf om start qs off a \<Longrightarrow> slots_len ps = slots_len qs \<Longrightarrow> ps = qs"
proof (induction ps arbitrary: qs off a)
  case Nil
  then show ?case using slot_sz_bounds(1) by (cases qs) (auto simp: slot_sz_def)
next
  case (Cons p ps)
  then obtain q qs' where qs: "qs = q # qs'"
    using slot_sz_bounds(1) [of p] by (cases qs) auto
  with Cons.prems have "p = q" by (auto dest: slot_at_unique)
  with Cons qs show ?case by auto
qed

lemma out_rep_unique:
  assumes "out_rep s ps qs" and "out_rep s ps' qs'"
  shows "ps = ps' \<and> qs = qs'"
proof -
  let ?st = "cwp_start (o_cwp s)"
  have rep: "buf_rep ?st (o_buf s) (ps @ qs)" "buf_rep ?st (o_buf s) (ps' @ qs')"
    using assms by (simp_all add: out_rep_def)
  have "word_of_nat (slots_len (ps @ qs)) = (word_of_nat (slots_len (ps' @ qs')) :: off_t)"
    using rep by (metis buf_rep_def)
  then have "slots_len (ps @ qs) = slots_len (ps' @ qs')"
    using buf_rep_bounds(4) [OF rep(1)] buf_rep_bounds(4) [OF rep(2)] by metis
  then have eq: "ps @ qs = ps' @ qs'"
    using rep chain_unique unfolding buf_rep_def by blast
  have ne: "list_all (\<lambda>p. p \<noteq> []) (ps @ qs)" "list_all (\<lambda>p. p \<noteq> []) (ps' @ qs')"
    using rep chain_nonempty unfolding buf_rep_def by blast+
  have len: "stream_len ps = stream_len ps'"
    using out_rep_nat(1) [OF assms(1)] out_rep_nat(1) [OF assms(2)] by simp
  have pos: "stream_len zs = 0 \<longleftrightarrow> zs = []" if "list_all (\<lambda>p. p \<noteq> []) zs" for zs
    using that by (cases zs) auto
  from eq consider zs where "ps' = ps @ zs" "qs = zs @ qs'" | zs where "ps = ps' @ zs" "qs' = zs @ qs"
    by (auto simp: append_eq_append_conv2)
  then show ?thesis using len ne pos by cases auto
qed

lemma starts_append: "starts a (ps @ qs) = starts a ps \<union> starts (a + slots_len ps) qs"
  by (induction ps arbitrary: a) (auto simp: add.assoc)

lemma starts_less: "x \<in> starts a ps \<Longrightarrow> x < a + slots_len ps"
proof (induction ps arbitrary: a)
  case (Cons p ps)
  then show ?case using slot_sz_bounds(1) [of p] by fastforce
qed simp

section \<open>Invariant\<close>

definition win_open :: "out_st \<Rightarrow> bool" where
  "win_open s \<longleftrightarrow> mtu (o_cwc s) \<noteq> 0 \<and> bounded_win_sz (o_cwc s) \<noteq> 0"

text \<open>Every outstanding segment has an unposted future among those that the thread will wait for.\<close>

definition covered :: "nat list \<Rightarrow> out_st \<Rightarrow> u8 list list \<Rightarrow> u8 list list \<Rightarrow> bool" where
  "covered fs s ps qs \<longleftrightarrow> (\<forall>a \<in> starts (slots_len ps) qs. a \<in> set fs \<and> sob_sem (o_buf s) a = 0)"

definition pc_inv :: "send_cfg \<Rightarrow> u8 list list \<Rightarrow> u8 list list \<Rightarrow> bool" where
  "pc_inv c ps qs =
     (let fit = (stream_len (ps @ qs) + length (sc_data c) \<le> 1000 \<and> covered (sc_futs c) (sc_st c) ps qs);
          seg = (\<lambda>n. 0 < n \<and> n \<le> length (sc_data c) \<and> n \<le> unat (mtu (o_cwc (sc_st c))))
      in case sc_pc c of
           S_Top \<Rightarrow> qs = [] \<and> sc_data c = []
         | S_Loop \<Rightarrow> fit
         | S_Check_seg n \<Rightarrow> fit \<and> seg n
         | S_Sleep_seg n \<Rightarrow> fit \<and> seg n \<and> (qs = [] \<longrightarrow> 0 < buf_empty (sc_st c))
         | S_Futures fs \<Rightarrow> sc_data c = [] \<and> covered fs (sc_st c) ps qs
         | S_Return \<Rightarrow> qs = [] \<and> sc_data c = [] \<and> sc_rest c = []
         | _ \<Rightarrow> False)"

definition send_inv :: "u8 list \<Rightarrow> send_cfg \<Rightarrow> bool" where
  "send_inv data c \<longleftrightarrow>
     (\<exists>ps qs. out_rep (sc_st c) ps qs \<and> stream_len ps < 1000 \<and> pc_inv c ps qs) \<and> win_open (sc_st c) \<and>
     concat (sc_log c) @ sc_data c @ sc_rest c = data \<and>
     (\<forall>p \<in> set (sc_log c). p \<noteq> [] \<and> length p \<le> unat (mtu (o_cwc (sc_st c))))"

section \<open>The other threads keep the invariant\<close>

lemma bounded_win_sz_0_iff: "bounded_win_sz a \<noteq> 0 \<longleftrightarrow> receiver_win_sz a \<noteq> 0 \<and> congection_win_sz a \<noteq> 0"
  by (auto simp: bounded_win_sz_def min_def word_le_nat_alt word_unat_eq_iff)

lemma win_open_cwc: "win_open s \<Longrightarrow> o_cwc t = o_cwc s \<Longrightarrow> win_open t"
  by (simp add: win_open_def)

lemma win_open_ack:
  assumes "win_open s" and "get_window_sz m \<noteq> 0" and "unat (congection_win_sz (o_cwc s)) + unat (mtu (o_cwc s)) < 2 ^ 64"
    and "o_cwc t = cwc_on_ack m (o_cwc s)"
  shows "win_open t"
proof -
  have "unat (congection_win_sz (o_cwc s) + mtu (o_cwc s)) = unat (congection_win_sz (o_cwc s)) + unat (mtu (o_cwc s))"
    using assms(3) by (intro unat_plus_no_wrap) simp
  moreover have "0 < unat (mtu (o_cwc s))" using assms(1) by (simp add: win_open_def word_unat_eq_iff)
  ultimately have "congection_win_sz (o_cwc s) + mtu (o_cwc s) \<noteq> 0" by (metis add_is_0 less_numeral_extra(3) unsigned_0)
  then show ?thesis
    using assms(1,2,4) by (simp add: win_open_def bounded_win_sz_0_iff cwc_on_ack_def)
qed

lemma win_open_retry: "win_open s \<Longrightarrow> o_cwc t = cwc_on_retry (o_cwc s) \<Longrightarrow> win_open t"
  by (auto simp: win_open_def bounded_win_sz_0_iff cwc_on_retry_def max_def word_le_nat_alt)

text \<open>A future that ends: its segment is outstanding, or its semaphore is posted.\<close>

definition fut_ok :: "out_st \<Rightarrow> u8 list list \<Rightarrow> u8 list list \<Rightarrow> nat \<Rightarrow> bool" where
  "fut_ok s ps qs f \<longleftrightarrow> f \<in> starts (slots_len ps) qs \<or> 0 < sob_sem (o_buf s) f"

lemma fut_ok_posted:
  assumes "fut_ok s ps (as @ bs) f" and "sob_sem (o_buf t) = sob_sem (post_all (starts (slots_len ps) as) (o_buf s))"
  shows "fut_ok t (ps @ as) bs f"
  using assms by (auto simp: fut_ok_def starts_append post_all_def)

text \<open>What a step of the other threads does to the segments: an outstanding prefix gets acknowledged, and
  only a completely acknowledged window is replaced.\<close>

definition seg_step :: "out_st \<Rightarrow> u8 list list \<Rightarrow> u8 list list \<Rightarrow> out_st \<Rightarrow> u8 list list \<Rightarrow> u8 list list \<Rightarrow> bool" where
  "seg_step s ps qs t ps' qs' \<longleftrightarrow> out_rep t ps' qs' \<and> stream_len ps' < 1000 \<and>
     ((\<exists>as. qs = as @ qs' \<and> ps' = ps @ as) \<or> qs' = [] \<and> ps' = [] \<and> stream_len (ps @ qs) = 1000) \<and>
     (\<forall>fs. covered fs s ps qs \<longrightarrow> covered fs t ps' qs') \<and> (\<forall>f. fut_ok s ps qs f \<longrightarrow> fut_ok t ps' qs' f) \<and>
     mtu (o_cwc t) = mtu (o_cwc s) \<and> buf_empty s \<le> buf_empty t \<and> (qs' = [] \<longrightarrow> qs \<noteq> [] \<longrightarrow> 0 < buf_empty t)"

lemma covered_suffix:
  assumes "covered fs s ps (as @ bs)" and "sob_sem (o_buf t) = sob_sem (post_all (starts (slots_len ps) as) (o_buf s))"
  shows "covered fs t (ps @ as) bs"
proof -
  have "a \<notin> starts (slots_len ps) as" if "a \<in> starts (slots_len ps + slots_len as) bs" for a
    using starts_less [of a "slots_len ps" as] starts_ge [OF that] by auto
  then show ?thesis using assms by (auto simp: covered_def starts_append post_all_def)
qed

lemma peer_ack_ok:
  assumes "out_rep s ps (as @ bs)" and "as \<noteq> []" and "unat (cwp_start (o_cwp s)) + 1000 \<le> 2 ^ 32"
    and "unat (get_seq m) + 1 = unat (cwp_start (o_cwp s)) + stream_len (ps @ as)"
    and "output_on_ack ESTABLISHED now m s = Some (Inr t)"
  shows "\<exists>ps' qs'. seg_step s ps (as @ bs) t ps' qs' \<and> o_cwc t = cwc_on_ack m (o_cwc s)"
proof -
  from output_on_ack_ok [OF assms(1-4), of now] assms(5) have t:
    "if stream_len (ps @ as) = 1000 then out_rep t [] [] \<and> cwp_start (o_cwp t) = cwp_start (o_cwp s) + 1000
     else out_rep t (ps @ as) bs \<and> cwp_start (o_cwp t) = cwp_start (o_cwp s)"
    "sob_sem (o_buf t) = sob_sem (post_all (starts (slots_len ps) as) (o_buf s))"
    "buf_empty t = buf_empty s + of_bool (bs = [])" "o_cwc t = cwc_on_ack m (o_cwc s)" by auto
  have le: "stream_len (ps @ as) + stream_len bs \<le> 1000" using out_rep_nat(3) [OF assms(1)] by simp
  have nebs: "list_all (\<lambda>p. p \<noteq> []) bs" using assms(1) chain_nonempty by (fastforce simp: out_rep_def buf_rep_def)
  show ?thesis
  proof (cases "stream_len (ps @ as) = 1000")
    case True
    then have "stream_len bs = 0" using le by simp
    then have "bs = []" using nebs by (cases bs) auto
    moreover have "fut_ok t [] [] f" if "fut_ok s ps (as @ bs) f" for f
      using fut_ok_posted [OF that t(2)] \<open>bs = []\<close> by (simp add: fut_ok_def)
    ultimately have "seg_step s ps (as @ bs) t [] []" using True t by (simp add: seg_step_def covered_def cwc_on_ack_def)
    with t(4) show ?thesis by blast
  next
    case False
    have "seg_step s ps (as @ bs) t (ps @ as) bs"
      unfolding seg_step_def
    proof (intro conjI allI impI)
      show "covered fs t (ps @ as) bs" if "covered fs s ps (as @ bs)" for fs
        using covered_suffix [OF that t(2)] .
      show "fut_ok t (ps @ as) bs f" if "fut_ok s ps (as @ bs) f" for f
        using fut_ok_posted [OF that t(2)] .
    qed (use False le t in \<open>auto simp: cwc_on_ack_def\<close>)
    with t(4) show ?thesis by blast
  qed
qed

lemma seg_step_same:
  "out_rep t ps qs \<Longrightarrow> stream_len ps < 1000 \<Longrightarrow> sob_sem (o_buf t) = sob_sem (o_buf s) \<Longrightarrow>
   mtu (o_cwc t) = mtu (o_cwc s) \<Longrightarrow> buf_empty t = buf_empty s \<Longrightarrow> seg_step s ps qs t ps qs"
  by (simp add: seg_step_def covered_def fut_ok_def)

lemma output_on_retry_ok:
  assumes "out_rep s ps (qs @ r # rs)" and "get_seq m = size_to_seq (cwp_start (o_cwp s) + word_of_nat (stream_len (ps @ qs)))"
  shows "\<exists>t. output_on_retry m s = Inr t \<and> out_rep t ps (qs @ r # rs) \<and> o_cwc t = cwc_on_retry (o_cwc s) \<and>
    sob_sem (o_buf t) = sob_sem (o_buf s) \<and> buf_empty t = buf_empty s"
proof -
  let ?s = "s\<lparr>o_cwc := cwc_on_retry (o_cwc s)\<rparr>"
  have "out_rep ?s ps (qs @ r # rs)" using assms(1) by (simp add: out_rep_def)
  from scw_retry_ok [OF this, of m] assms(2) show ?thesis by (auto simp: output_on_retry_def)
qed

lemma peer_dup_ack_ok:
  assumes "out_rep s ps (q # qs)" and "unat (cwp_start (o_cwp s)) + 1000 \<le> 2 ^ 32" and "stream_len ps < 1000"
    and "unat (get_seq m) + 1 = unat (cwp_start (o_cwp s)) + stream_len ps"
    and "output_on_ack ESTABLISHED now m s = Some (Inr t)"
  shows "seg_step s ps (q # qs) t ps (q # qs) \<and>
    (o_cwc t = cwc_on_ack m (o_cwc s) \<or> o_cwc t = cwc_on_retry (cwc_on_ack m (o_cwc s)))"
proof -
  let ?s = "s\<lparr>o_cwc := cwc_on_ack m (o_cwc s)\<rparr>" and ?f = "fst (fr_on_ack m (o_fr s))"
  let ?m = "load_msg (sob_buf (o_buf s)) (slots_len ps + off_msg_data)"
  have rep: "out_rep ?s ps (q # qs)" "out_rep (?s\<lparr>o_fr := ?f\<rparr>) ps ([] @ q # qs)" using assms(1) by (simp_all add: out_rep_def)
  have seq: "get_seq ?m = size_to_seq (cwp_start (o_cwp (?s\<lparr>o_fr := ?f\<rparr>)) + word_of_nat (stream_len (ps @ [])))"
    using out_rep_slot [of s ps "[]" q qs] assms(1) by simp
  have step: "Inr t = (if snd (fr_on_ack m (o_fr s)) then output_on_retry ?m (?s\<lparr>o_fr := ?f\<rparr>) else Inr (?s\<lparr>o_fr := ?f\<rparr>))"
    using dup_ack_step [OF rep(1), of m now] assms(2-5) by (auto simp: output_on_ack_def split: if_splits)
  show ?thesis
  proof (cases "snd (fr_on_ack m (o_fr s))")
    case True
    with output_on_retry_ok [OF rep(2) seq] step have "out_rep t ps (q # qs)" "o_cwc t = cwc_on_retry (cwc_on_ack m (o_cwc s))"
      "sob_sem (o_buf t) = sob_sem (o_buf s)" "buf_empty t = buf_empty s" by auto
    with assms(3) show ?thesis by (simp add: seg_step_same cwc_on_retry_def cwc_on_ack_def)
  next
    case False
    with step rep assms(3) show ?thesis by (auto intro!: seg_step_same simp: cwc_on_ack_def out_rep_def)
  qed
qed

lemma peer_step_ok:
  assumes "peer_step s t" and "out_rep s ps qs" and "stream_len ps < 1000" and "win_open s"
  shows "\<exists>ps' qs'. seg_step s ps qs t ps' qs' \<and> win_open t"
  using assms(1)
proof (cases rule: peer_step.cases)
  case (peer_ack ps0 as bs m now)
  have eq: "ps0 = ps" "qs = as @ bs" using out_rep_unique [OF assms(2) peer_ack(1)] by simp_all
  have wo: "win_open (s\<lparr>o_cwc := cwc_on_ack m (o_cwc s)\<rparr>)" using win_open_ack [OF assms(4) peer_ack(5,6)] by simp
  show ?thesis
  proof (cases as)
    case Nil
    with peer_ack(2) obtain q qs' where bs: "bs = q # qs'" by (cases bs) auto
    have "unat (get_seq m) + 1 = unat (cwp_start (o_cwp s)) + stream_len ps" using peer_ack(4) Nil eq by simp
    from peer_dup_ack_ok [OF _ peer_ack(3) assms(3) this peer_ack(7)] assms(2) eq Nil bs
    have "seg_step s ps qs t ps qs" "o_cwc t = cwc_on_ack m (o_cwc s) \<or> o_cwc t = cwc_on_retry (cwc_on_ack m (o_cwc s))" by auto
    with wo show ?thesis
      using win_open_cwc [of "s\<lparr>o_cwc := cwc_on_ack m (o_cwc s)\<rparr>" t] win_open_retry [of "s\<lparr>o_cwc := cwc_on_ack m (o_cwc s)\<rparr>" t]
      by auto
  next
    case Cons
    then have "as \<noteq> []" by simp
    from peer_ack_ok [OF peer_ack(1) this peer_ack(3,4,7)] show ?thesis
      using win_open_ack [OF assms(4) peer_ack(5,6)] eq by blast
  qed
next
  case (peer_next ps0 q qs0 p)
  have "ps0 = ps" "qs = q # qs0" using out_rep_unique [OF assms(2) peer_next(1)] by simp_all
  with next_msg_ok [OF peer_next(1,2), of True] peer_next(3) have "seg_step s ps qs t ps qs" "o_cwc t = o_cwc s"
    by (auto intro!: seg_step_same simp: assms(3))
  with assms(4) show ?thesis using win_open_cwc by blast
next
  case (peer_retry ps0 qs0 r rs m)
  have "ps0 = ps" "qs = qs0 @ r # rs" using out_rep_unique [OF assms(2) peer_retry(1)] by simp_all
  with output_on_retry_ok [OF peer_retry(1,2)] peer_retry(3) have "seg_step s ps qs t ps qs" "o_cwc t = cwc_on_retry (o_cwc s)"
    by (auto intro!: seg_step_same simp: assms(3) cwc_on_retry_def)
  with assms(4) show ?thesis using win_open_retry by blast
qed

lemma seg_step_inv:
  assumes "send_inv data c" and "lock_free (sc_pc c)" and "out_rep (sc_st c) ps qs" and "seg_step (sc_st c) ps qs t ps' qs'" and "win_open t"
  shows "send_inv data (c\<lparr>sc_st := t\<rparr>)"
proof -
  have c: "pc_inv c ps qs" using assms(1) out_rep_unique [OF assms(3)] by (auto simp: send_inv_def)
  have "pc_inv (c\<lparr>sc_st := t\<rparr>) ps' qs'"
  proof (cases "sc_pc c")
    case (S_Sleep_seg n)
    with c have d: "stream_len (ps @ qs) + length (sc_data c) \<le> 1000" "0 < length (sc_data c)" by (auto simp: pc_inv_def)
    then obtain as where "qs = as @ qs'" "ps' = ps @ as" using assms(4) by (auto simp: seg_step_def)
    then show ?thesis using S_Sleep_seg c assms(4) d by (auto simp: pc_inv_def seg_step_def)
  qed (use assms(2,4) c in \<open>auto simp: pc_inv_def seg_step_def lock_free_def\<close>)
  then show ?thesis using assms(1,4,5) by (auto simp: send_inv_def seg_step_def)
qed

lemma peer_inv:
  assumes "send_inv data c" and "lock_free (sc_pc c)" and "peer_step (sc_st c) t"
  shows "send_inv data (c\<lparr>sc_st := t\<rparr>)"
proof -
  obtain ps qs where c: "out_rep (sc_st c) ps qs" "stream_len ps < 1000" "win_open (sc_st c)" using assms(1) by (auto simp: send_inv_def)
  from peer_step_ok [OF assms(3) c] show ?thesis using seg_step_inv [OF assms(1,2) c(1)] by blast
qed

section \<open>The thread keeps the invariant\<close>

lemma package_sent_inv:
  assumes "out_rep (sc_st c) ps qs" and "stream_len ps < 1000" and "stream_len (ps @ qs) + length (sc_data c) \<le> 1000"
    and "covered (sc_futs c) (sc_st c) ps qs" and "0 < n" and "n \<le> length (sc_data c)" and "n \<le> unat (mtu (o_cwc (sc_st c)))"
    and "win_open (sc_st c)" and "concat (sc_log c) @ sc_data c @ sc_rest c = data"
    and "\<forall>p \<in> set (sc_log c). p \<noteq> [] \<and> length p \<le> unat (mtu (o_cwc (sc_st c)))"
  shows "\<exists>f s. output_send_as_single_package (take n (sc_data c)) (sc_st c) = Inr (f, s) \<and> send_inv data (package_sent n f s c)"
proof -
  let ?p = "take n (sc_data c)"
  have p: "?p \<noteq> []" "stream_len (ps @ qs) + length ?p \<le> 1000" "length ?p = n" using assms(3,5,6) by auto
  obtain t where t: "scw_send (tmp_msg ?p) (sc_st c) = Inr (slots_len (ps @ qs), t)" "out_rep t ps (qs @ [?p])"
      "sob_sem (o_buf t) = (sob_sem (o_buf (sc_st c)))(slots_len (ps @ qs) := 0)" "o_cwc t = o_cwc (sc_st c)"
    using scw_send_ok [OF assms(1) p(1,2)] by auto
  let ?f = "slots_len (ps @ qs)"
  have "covered (sc_futs c @ [?f]) t ps (qs @ [?p])"
    using assms(4) t(3) by (auto simp: covered_def starts_append)
  then have "pc_inv (package_sent n ?f t c) ps (qs @ [?p])"
    using assms(3,6) by (simp add: pc_inv_def package_sent_def)
  moreover have "win_open t" using assms(8) t(4) by (simp add: win_open_def)
  ultimately have "send_inv data (package_sent n ?f t c)"
    using t assms(2,5,6,7,9,10) p unfolding send_inv_def
    by (intro conjI exI [of _ ps] exI [of _ "qs @ [?p]"]) (auto simp: package_sent_def)
  with t(1) show ?thesis by (auto simp: output_send_as_single_package_def)
qed

lemma nagles_iter_inv:
  assumes "send_inv data c" and "sc_pc c = S_Loop"
  shows "send_inv data (nagles_iter c)"
proof (cases "sc_data c = []")
  case True
  then show ?thesis using assms by (fastforce simp: send_inv_def nagles_iter_def pc_inv_def)
next
  case False
  obtain ps qs where c: "out_rep (sc_st c) ps qs" "stream_len ps < 1000" "pc_inv c ps qs" using assms(1) by (auto simp: send_inv_def)
  have g: "win_open (sc_st c)" "concat (sc_log c) @ sc_data c @ sc_rest c = data"
      "\<forall>p \<in> set (sc_log c). p \<noteq> [] \<and> length p \<le> unat (mtu (o_cwc (sc_st c)))"
    using assms(1) by (auto simp: send_inv_def)
  let ?m = "unat (mtu (o_cwc (sc_st c)))" and ?w = "unat (bounded_win_sz (o_cwc (sc_st c)))"
  have pos: "0 < ?m" "0 < ?w" using g(1) by (auto simp: win_open_def word_unat_eq_iff)
  have f: "stream_len (ps @ qs) + length (sc_data c) \<le> 1000" "covered (sc_futs c) (sc_st c) ps qs"
    using c(3) assms(2) by (auto simp: pc_inv_def)
  show ?thesis
  proof (cases "?m < ?w \<and> ?m \<le> length (sc_data c)")
    case True
    obtain f' s where p: "output_send_as_single_package (take ?m (sc_data c)) (sc_st c) = Inr (f', s)"
        "send_inv data (package_sent ?m f' s c)"
      using package_sent_inv [OF c(1,2) f pos(1) conjunct2 [OF True] order.refl g] by blast
    with True False show ?thesis by (simp add: nagles_iter_def Let_def)
  next
    case nf: False
    let ?n = "min ?m (min ?w (length (sc_data c)))"
    have it: "nagles_iter c = c\<lparr>sc_pc := S_Check_seg ?n\<rparr>" unfolding nagles_iter_def Let_def using False nf by (simp only: if_False)
    have "0 < ?n" "?n \<le> length (sc_data c)" "?n \<le> ?m" using pos False by auto
    then have "pc_inv (c\<lparr>sc_pc := S_Check_seg ?n\<rparr>) ps qs" using f by (simp add: pc_inv_def)
    then show ?thesis using c(1,2) g unfolding it by (auto simp: send_inv_def)
  qed
qed

lemma starts_empty_iff: "starts a qs = {} \<longleftrightarrow> qs = []"
  by (cases qs) auto

lemma out_rep_buf_empty [simp]: "out_rep (s\<lparr>buf_empty := n\<rparr>) ps qs = out_rep s ps qs"
  by (simp add: out_rep_def)

lemma out_rep_sem [simp]: "out_rep (s\<lparr>o_buf := (o_buf s)\<lparr>sob_sem := f\<rparr>\<rparr>) ps qs = out_rep s ps qs"
  by (simp add: out_rep_def)

text \<open>A step that sends nothing keeps the invariant when its new position does.\<close>

lemma send_inv_same:
  assumes "send_inv data c" and "out_rep (sc_st c) ps qs" and "stream_len ps < 1000" and "out_rep (sc_st d) ps qs"
    and "o_cwc (sc_st d) = o_cwc (sc_st c)" and "pc_inv d ps qs" and "sc_log d = sc_log c"
    and "sc_data d @ sc_rest d = sc_data c @ sc_rest c"
  shows "send_inv data d"
  using assms by (auto simp: send_inv_def win_open_def)

lemma send_top_inv:
  assumes "send_inv data c" and "out_rep (sc_st c) ps qs" and "stream_len ps < 1000" and "pc_inv c ps qs"
    and "sc_pc c = S_Top" and "send_thread c = Some d"
  shows "send_inv data d"
proof -
  have qs: "qs = []" "sc_data c = []" using assms(4,5) by (simp_all add: pc_inv_def)
  have "unat (scw_get_sz (sc_st c)) = 1000 - stream_len ps"
    using out_rep_nat(1,4) [OF assms(2)] assms(2) by (simp add: scw_get_sz_def win_ok_get_sz out_rep_def)
  then have "min (unat (scw_get_sz (sc_st c))) (length (sc_rest c)) + stream_len ps \<le> 1000" using assms(3) by simp
  with assms(5,6) qs assms(2) show ?thesis
    by (cases "sc_rest c = []"; intro send_inv_same [OF assms(1-3), of d])
      (auto simp: send_thread_def pc_inv_def covered_def Let_def)
qed

lemma send_check_inv:
  assumes "send_inv data c" and "out_rep (sc_st c) ps qs" and "stream_len ps < 1000" and "pc_inv c ps qs"
    and "sc_pc c = S_Check_seg n" and "send_thread c = Some d"
  shows "send_inv data d"
proof -
  have g: "win_open (sc_st c)" "concat (sc_log c) @ sc_data c @ sc_rest c = data"
      "\<forall>p \<in> set (sc_log c). p \<noteq> [] \<and> length p \<le> unat (mtu (o_cwc (sc_st c)))"
    using assms(1) by (auto simp: send_inv_def)
  have n: "stream_len (ps @ qs) + length (sc_data c) \<le> 1000" "covered (sc_futs c) (sc_st c) ps qs" "0 < n"
      "n \<le> length (sc_data c)" "n \<le> unat (mtu (o_cwc (sc_st c)))"
    using assms(4,5) by (simp_all add: pc_inv_def)
  show ?thesis
  proof (cases "qs = []")
    case True
    then show ?thesis
      using package_sent_inv [OF assms(2,3) n g] assms(5,6) sent_buf_empty_iff [OF assms(2)]
      by (auto simp: send_thread_def is_sent_buf_empty_def)
  next
    case False
    then have "d = c\<lparr>sc_pc := S_Sleep_seg n\<rparr>"
      using assms(5,6) sent_buf_empty_iff [OF assms(2)] by (simp add: send_thread_def is_sent_buf_empty_def)
    then show ?thesis using assms(2) n False by (intro send_inv_same [OF assms(1-3), of d]) (auto simp: pc_inv_def)
  qed
qed

lemma send_futures_inv:
  assumes "send_inv data c" and "out_rep (sc_st c) ps qs" and "stream_len ps < 1000" and "pc_inv c ps qs"
    and "sc_pc c = S_Futures fs" and "send_thread c = Some d"
  shows "send_inv data d"
proof (cases fs)
  case Nil
  then have "d = c\<lparr>sc_pc := S_Top\<rparr>" "qs = []"
    using assms(4-6) starts_empty_iff [of "slots_len ps" qs] by (auto simp: send_thread_def pc_inv_def covered_def)
  then show ?thesis using assms by (intro send_inv_same [OF assms(1-3), of d]) (auto simp: pc_inv_def)
next
  case (Cons f fs')
  let ?b = "(o_buf (sc_st c))\<lparr>sob_sem := (sob_sem (o_buf (sc_st c)))(f := sob_sem (o_buf (sc_st c)) f - 1)\<rparr>"
  have "d = c\<lparr>sc_st := (sc_st c)\<lparr>o_buf := ?b\<rparr>, sc_pc := S_Futures fs'\<rparr>" "sob_sem (o_buf (sc_st c)) f \<noteq> 0"
    using assms(5,6) Cons by (auto simp: send_thread_def Let_def split: if_splits)
  then show ?thesis using assms Cons by (intro send_inv_same [OF assms(1-3), of d]) (auto simp: pc_inv_def covered_def)
qed

lemma send_thread_inv:
  assumes "send_inv data c" and "send_thread c = Some d"
  shows "send_inv data d"
proof -
  obtain ps qs where c: "out_rep (sc_st c) ps qs" "stream_len ps < 1000" "pc_inv c ps qs" using assms(1) by (auto simp: send_inv_def)
  show ?thesis
  proof (cases "sc_pc c")
    case S_Top
    then show ?thesis using send_top_inv [OF assms(1) c] assms(2) by simp
  next
    case S_Loop
    then show ?thesis using nagles_iter_inv [OF assms(1)] assms(2) by (simp add: send_thread_def)
  next
    case (S_Check_seg n)
    then show ?thesis using send_check_inv [OF assms(1) c] assms(2) by simp
  next
    case (S_Sleep_seg n)
    then have "d = c\<lparr>sc_st := (sc_st c)\<lparr>buf_empty := buf_empty (sc_st c) - 1\<rparr>, sc_pc := S_Check_seg n\<rparr>"
      using assms(2) by (simp add: send_thread_def Let_def split: if_splits)
    then show ?thesis using c S_Sleep_seg by (intro send_inv_same [OF assms(1) c(1,2), of d]) (auto simp: pc_inv_def covered_def)
  next
    case (S_Futures fs)
    then show ?thesis using send_futures_inv [OF assms(1) c] assms(2) by simp
  qed (use c(3) assms(2) in \<open>auto simp: send_thread_def pc_inv_def\<close>)
qed

lemma send_start_inv: "send_start data c \<Longrightarrow> send_inv data c"
  by (auto simp: send_start_def send_inv_def send_call_def pc_inv_def win_open_def)

interpretation sp: inv_system "send_start data" send_step "send_inv data" for data
proof
  show "send_inv data c" if "send_start data c" for c using that by (rule send_start_inv)
  show "send_inv data d" if "send_inv data c" "send_step c d" for c d
    using that(2) that(1) by (cases rule: send_step.cases) (auto intro: send_thread_inv peer_inv)
qed

section \<open>A closed window\<close>

fun thread_run :: "nat \<Rightarrow> send_cfg \<Rightarrow> send_cfg option" where
  "thread_run 0 c = Some c"
| "thread_run (Suc n) c = (case send_thread c of None \<Rightarrow> None | Some d \<Rightarrow> thread_run n d)"

lemma thread_run_numeral:
  "thread_run (numeral k) c = (case send_thread c of None \<Rightarrow> None | Some d \<Rightarrow> thread_run (pred_numeral k) d)"
  by (simp only: numeral_eq_Suc thread_run.simps)

text \<open>The thread in its loop with data to send, an empty buffer and a peer window of zero; the next
  message would be stored at address \<open>e\<close>.\<close>

definition stalled :: "nat \<Rightarrow> send_cfg \<Rightarrow> bool" where
  "stalled e c \<longleftrightarrow> sc_pc c = S_Loop \<and> sc_data c \<noteq> [] \<and> bounded_win_sz (o_cwc (sc_st c)) = 0 \<and>
     is_sent_buf_empty (sc_st c) \<and> unat (cwp_send_off (o_cwp (sc_st c))) < OUTPUT_SEND_BUF_SZ \<and>
     off_map (o_buf (sc_st c)) (unat (cwp_send_off (o_cwp (sc_st c)))) = word_of_nat e \<and>
     sob_end (o_buf (sc_st c)) = word_of_nat e \<and> e \<le> OUTPUT_SEND_BUF_SZ + 120"

lemma slot_sz_Nil: "slot_sz [] = 120"
  by (simp add: slot_sz_def)

lemma put_empty_msg:
  assumes "unat off < OUTPUT_SEND_BUF_SZ" and "off_map b (unat off) = word_of_nat e" and "sob_end b = word_of_nat e"
    and "e \<le> OUTPUT_SEND_BUF_SZ + 120"
  shows "put_msg_at off (set_seq q (tmp_msg [])) b =
    (if hdr_in_buf e
     then Inr (e + 120, b\<lparr>sob_buf := msg_copy_to (sob_buf b) (e + off_msg_data) (set_seq q (tmp_msg [])),
            sob_sem := (sob_sem b)(e := 0), sob_end := word_of_nat (e + 120),
            off_map := (off_map b)(unat off := word_of_nat (e + 120))\<rparr>)
     else Inl Fault)"
proof -
  let ?m = "set_seq q (tmp_msg [])"
  have e: "unat (word_of_nat e :: off_t) = e" "unat (word_of_nat (e + 120) :: off_t) = e + 120"
    using assms(4) unat_word_of_nat_u64 [of e] unat_word_of_nat_u64 [of "e + 120"] by (simp_all add: OUTPUT_SEND_BUF_SZ_def)
  have "slot_at (msg_copy_to (sob_buf b) (e + off_msg_data) ?m) e (get_seq ?m) (pbuf (packet ?m))"
    by (rule slot_at_put) simp_all
  then have sz: "get_inplace_msg_size (msg_copy_to (sob_buf b) (e + off_msg_data) ?m) e = 120"
    using get_inplace_msg_size_slot [of _ e _ "[]"] by (simp add: slot_sz_Nil)
  have f: "full_sz ?m - data_len ?m = 72" by (simp add: full_sz_def full_sz_no_obj_def sizeof_defs)
  have "put_msg_inplace e ?m b = (if hdr_in_buf e
     then Inr (120, b\<lparr>sob_buf := msg_copy_to (sob_buf b) (e + off_msg_data) ?m, sob_sem := (sob_sem b)(e := 0)\<rparr>)
     else Inl Fault)"
    using sz f by (simp add: put_msg_inplace_def hdr_in_buf_def inplace_defs sizeof_defs Let_def)
  then show ?thesis
    using assms(1-3) e
    by (simp add: put_msg_at_def real_off_def put_real_off_def get_msg_inplace_future_def)
qed

lemma stalled_step:
  assumes "stalled e c"
  shows "\<exists>d. thread_run 2 c = Some d \<and> (if hdr_in_buf e then stalled (e + 120) d else sc_pc d = S_Exn Fault)"
proof -
  let ?s = "sc_st c" and ?c1 = "c\<lparr>sc_pc := S_Check_seg 0\<rparr>"
  have c: "sc_pc c = S_Loop" "sc_data c \<noteq> []" "bounded_win_sz (o_cwc ?s) = 0" "is_sent_buf_empty ?s"
      "sent_buf_empty (cwp_setup (o_cwp ?s))"
    using assms by (simp_all add: stalled_def is_sent_buf_empty_def)
  let ?off = "cwp_send_off (o_cwp ?s)"
  let ?m = "set_seq (size_to_seq (sent_begin (cwp_setup (o_cwp ?s)))) (tmp_msg [])"
  let ?b = "(o_buf ?s)\<lparr>sob_buf := msg_copy_to (sob_buf (o_buf ?s)) (e + off_msg_data) ?m,
      sob_sem := (sob_sem (o_buf ?s))(e := 0), sob_end := word_of_nat (e + 120),
      off_map := (off_map (o_buf ?s))(unat ?off := word_of_nat (e + 120))\<rparr>"
  have put: "put_msg_at ?off ?m (o_buf ?s) = (if hdr_in_buf e then Inr (e + 120, ?b) else Inl Fault)"
    using assms by (intro put_empty_msg) (simp_all add: stalled_def)
  let ?t = "?s\<lparr>buf_not_empty := buf_not_empty ?s + 1, o_buf := ?b\<rparr>"
  have send: "output_send_as_single_package (take 0 (sc_data c)) ?s = (if hdr_in_buf e then Inr (e + 120, ?t) else Inl Fault)"
    using c put by (simp add: output_send_as_single_package_def scw_send_def Let_def inc_sent_off_def cwp_flush_def)
  have run: "thread_run 2 c = send_thread ?c1"
    using c by (simp add: numeral_2_eq_2 send_thread_def nagles_iter_def Let_def split: option.split)
  show ?thesis
  proof (cases "hdr_in_buf e")
    case True
    then have "send_thread ?c1 = Some (package_sent 0 (e + 120) ?t ?c1)" using c send by (simp add: send_thread_def Let_def)
    moreover have "stalled (e + 120) (package_sent 0 (e + 120) ?t ?c1)"
      using assms True by (simp add: stalled_def package_sent_def is_sent_buf_empty_def hdr_in_buf_def
          OUTPUT_SEND_BUF_SZ_def inplace_defs sizeof_defs)
    ultimately show ?thesis using True run by simp
  next
    case False
    then have "send_thread ?c1 = Some (?c1\<lparr>sc_pc := S_Exn Fault\<rparr>)" using c send by (simp add: send_thread_def Let_def)
    with False run show ?thesis by simp
  qed
qed

lemma thread_run_add: "thread_run m c = Some d \<Longrightarrow> thread_run (m + n) c = thread_run n d"
  by (induction m arbitrary: c) (auto split: option.splits)

lemma stalled_overruns:
  assumes "stalled e c" and "OUTPUT_SEND_BUF_SZ \<le> e + 120 * k"
  shows "\<exists>n d. thread_run n c = Some d \<and> sc_pc d = S_Exn Fault"
  using assms
proof (induction k arbitrary: e c)
  case 0
  then have "\<not> hdr_in_buf e" by (simp add: hdr_in_buf_def inplace_defs sizeof_defs)
  with stalled_step [OF 0(1)] show ?case by auto
next
  case (Suc k)
  obtain d where d: "thread_run 2 c = Some d" "if hdr_in_buf e then stalled (e + 120) d else sc_pc d = S_Exn Fault"
    using stalled_step [OF Suc.prems(1)] by blast
  show ?case
  proof (cases "hdr_in_buf e")
    case True
    then obtain n f where "thread_run n d = Some f" "sc_pc f = S_Exn Fault" using Suc.IH [of "e + 120" d] Suc.prems(2) d(2) by auto
    then show ?thesis using thread_run_add [OF d(1), of n] by (intro exI [of _ "2 + n"]) auto
  qed (use d in auto)
qed

section \<open>A concrete call\<close>

definition demo_out :: out_st where
  "demo_out = (established_out 100)\<lparr>o_cwc := \<lparr>receiver_win_sz = 1000, congection_win_sz = 100, mtu = 1480\<rparr>\<rparr>"

lemma demo_out_rep: "out_rep demo_out [] []"
  using established_out_rep [of 100] by (simp add: demo_out_def out_rep_def)

lemma demo_start: "send_start data (send_call data demo_out)"
  unfolding send_start_def using demo_out_rep
  by (intro exI [of _ demo_out] exI [of _ "[]"]) (simp add: demo_out_def bounded_win_sz_def)

lemma thread_run_steps: "thread_run n c = Some d \<Longrightarrow> send_step\<^sup>*\<^sup>* c d"
  by (induction n arbitrary: c)
    (auto split: option.splits intro: converse_rtranclp_into_rtranclp send_step.thread)

lemma demo_run:
  "\<exists>d. thread_run 3 (send_call [1, 2, 3] demo_out) = Some d \<and> sc_pc d = S_Loop \<and> sc_log d = [[1, 2, 3]] \<and> sc_data d = []"
proof -
  obtain t where "scw_send (tmp_msg [1, 2, 3]) demo_out = Inr (0, t)"
    using scw_send_ok [OF demo_out_rep, of "[1, 2, 3]"] by auto
  moreover have "unat (scw_get_sz demo_out) = 1000" "is_sent_buf_empty demo_out"
    using out_rep_nat(1,4) [OF demo_out_rep] demo_out_rep sent_buf_empty_iff [OF demo_out_rep]
    by (simp_all add: scw_get_sz_def win_ok_get_sz out_rep_def is_sent_buf_empty_def)
  moreover have "o_cwc demo_out = \<lparr>receiver_win_sz = 1000, congection_win_sz = 100, mtu = 1480\<rparr>"
    by (simp add: demo_out_def)
  ultimately show ?thesis
    by (simp add: numeral_3_eq_3 send_thread_def send_call_def nagles_iter_def bounded_win_sz_def package_sent_def
        output_send_as_single_package_def Let_def)
qed

text \<open>The same with a congestion window of two bytes: the second segment has to wait for the first.\<close>

definition slow_out :: out_st where
  "slow_out = (established_out 100)\<lparr>o_cwc := \<lparr>receiver_win_sz = 1000, congection_win_sz = 2, mtu = 1480\<rparr>\<rparr>"

lemma slow_out_rep: "out_rep slow_out [] []"
  using established_out_rep [of 100] by (simp add: slow_out_def out_rep_def)

lemma slow_start: "send_start data (send_call data slow_out)"
  unfolding send_start_def using slow_out_rep
  by (intro exI [of _ slow_out] exI [of _ "[]"]) (simp add: slow_out_def bounded_win_sz_def)

lemma slow_sleeps:
  "\<exists>d. thread_run 5 (send_call [1, 2, 3] slow_out) = Some d \<and> sc_pc d = S_Sleep_seg 1 \<and> out_rep (sc_st d) [] [[1, 2]] \<and>
     cwp_start (o_cwp (sc_st d)) = 100 \<and> o_cwc (sc_st d) = o_cwc slow_out"
proof -
  obtain t where t: "scw_send (tmp_msg [1, 2]) slow_out = Inr (0, t)" "out_rep t [] [[1, 2]]" "o_cwc t = o_cwc slow_out"
      "cwp_start (o_cwp t) = cwp_start (o_cwp slow_out)"
    using scw_send_ok [OF slow_out_rep, of "[1, 2]"] by auto
  have st: "cwp_start (o_cwp slow_out) = 100" by (simp add: slow_out_def established_out_start seq_to_size_def)
  have e: "unat (scw_get_sz slow_out) = 1000" "is_sent_buf_empty slow_out" "\<not> is_sent_buf_empty t"
    using out_rep_nat(1,4) [OF slow_out_rep] slow_out_rep sent_buf_empty_iff [OF slow_out_rep] sent_buf_empty_iff [OF t(2)]
    by (simp_all add: scw_get_sz_def win_ok_get_sz out_rep_def is_sent_buf_empty_def)
  have "o_cwc slow_out = \<lparr>receiver_win_sz = 1000, congection_win_sz = 2, mtu = 1480\<rparr>" by (simp add: slow_out_def)
  with t e st show ?thesis
    by (simp add: thread_run_numeral send_thread_def send_call_def nagles_iter_def bounded_win_sz_def package_sent_def
        output_send_as_single_package_def Let_def)
qed

lemma slow_run:
  "\<exists>d. send_step\<^sup>*\<^sup>* (send_call [1, 2, 3] slow_out) d \<and> sc_pc d = S_Sleep_seg 1 \<and> is_sent_buf_empty (sc_st d)"
proof -
  obtain d where d: "thread_run 5 (send_call [1, 2, 3] slow_out) = Some d" "sc_pc d = S_Sleep_seg 1"
      "out_rep (sc_st d) [] ([[1, 2]] @ [])" "cwp_start (o_cwp (sc_st d)) = 100" "o_cwc (sc_st d) = o_cwc slow_out"
    using slow_sleeps by auto
  let ?m = "set_window_sz 1000 (set_seq 101 (msg_new None 0))"
  have m: "get_seq ?m = 101" "get_window_sz ?m = 1000" by (simp_all add: msg_access_defs)
  have pre: "unat (cwp_start (o_cwp (sc_st d))) + 1000 \<le> 2 ^ 32"
      "unat (get_seq ?m) + 1 = unat (cwp_start (o_cwp (sc_st d))) + stream_len ([] @ [[1, 2]])" using d(4) m by simp_all
  obtain t where t: "output_on_ack ESTABLISHED 0 ?m (sc_st d) = Some (Inr t)" "out_rep t [[1, 2]] []"
    using output_on_ack_ok [OF d(3) _ pre, of 0] by auto
  have "peer_step (sc_st d) t"
    using d(5) m by (intro peer_ack [OF d(3) _ pre _ _ t(1)]) (simp_all add: slow_out_def)
  then have "send_step d (d\<lparr>sc_st := t\<rparr>)" using d(2) by (intro send_step.peer) (simp add: lock_free_def)
  with thread_run_steps [OF d(1)] have "send_step\<^sup>*\<^sup>* (send_call [1, 2, 3] slow_out) (d\<lparr>sc_st := t\<rparr>)" by simp
  then show ?thesis
    using d(2) sent_buf_empty_iff [OF t(2)]
    by (intro exI [of _ "d\<lparr>sc_st := t\<rparr>"]) (simp add: is_sent_buf_empty_def)
qed

section \<open>Properties\<close>



text \<open>C25: The sending thread misses no wake-up: when it sleeps until the buffer is empty and the buffer is
  empty, the signal is there and the thread can go on.\<close>

theorem send_no_lost_wakeup:
  assumes "send_start data c" and "send_step\<^sup>*\<^sup>* c d" and "sc_pc d = S_Sleep_seg n" and "is_sent_buf_empty (sc_st d)"
  shows "send_thread d \<noteq> None"
proof -
  have inv: "send_inv data d" using sp.reachable_inv [OF assms(1,2)] .
  then obtain ps qs where d: "out_rep (sc_st d) ps qs" "pc_inv d ps qs" by (auto simp: send_inv_def)
  have "qs = []" using sent_buf_empty_iff [OF d(1)] assms(4) by (simp add: is_sent_buf_empty_def)
  then show ?thesis using d(2) assms(3) by (auto simp: pc_inv_def send_thread_def Let_def)
qed

theorem send_no_lost_wakeup_witness:
  "\<exists>d. send_step\<^sup>*\<^sup>* (send_call [1, 2, 3] slow_out) d \<and> sc_pc d = S_Sleep_seg 1 \<and> send_thread d \<noteq> None"
proof -
  obtain d where d: "send_step\<^sup>*\<^sup>* (send_call [1, 2, 3] slow_out) d" "sc_pc d = S_Sleep_seg 1" "is_sent_buf_empty (sc_st d)"
    using slow_run by blast
  with send_no_lost_wakeup [OF slow_start d] show ?thesis by blast
qed

text \<open>C34: With a peer window of zero the sending thread, left alone under its lock, stores empty messages
  one after another until it writes past the end of the send buffer.\<close>

theorem zero_window_overruns_buffer:
  assumes "stalled e c"
  shows "\<exists>n d. thread_run n c = Some d \<and> sc_pc d = S_Exn Fault"
  using stalled_overruns [OF assms, of 2500] by (simp add: OUTPUT_SEND_BUF_SZ_def)

theorem zero_window_overruns_buffer_witness:
  "\<exists>n d. thread_run n ((send_call [] (demo_out\<lparr>o_cwc := \<lparr>receiver_win_sz = 0, congection_win_sz = 100, mtu = 1480\<rparr>\<rparr>))
       \<lparr>sc_pc := S_Loop, sc_data := [1, 2, 3]\<rparr>) = Some d \<and> sc_pc d = S_Exn Fault"
proof (rule zero_window_overruns_buffer [of 0])
  let ?s = "demo_out\<lparr>o_cwc := \<lparr>receiver_win_sz = 0, congection_win_sz = 100, mtu = 1480\<rparr>\<rparr>"
  have "out_rep ?s [] []" using demo_out_rep by (simp add: out_rep_def)
  note rep = this sent_buf_empty_iff [OF this] out_rep_nat(2) [OF this]
  then show "stalled 0 ((send_call [] ?s)\<lparr>sc_pc := S_Loop, sc_data := [1, 2, 3]\<rparr>)"
    by (simp add: stalled_def send_call_def bounded_win_sz_def is_sent_buf_empty_def out_rep_def buf_rep_def OUTPUT_SEND_BUF_SZ_def)
qed

end
