(* ===== verification/Sock_Mq.thy ===== *)
theory Sock_Mq
  imports Engine
begin

text \<open>
  The message queue of a socket: \<open>sock_mq\<close> of \<open>src/tcp_engine.cpp\<close> with the resource limit it
  raises. The queues of the system are named objects: a name leads to an object, a descriptor is
  an object, and \<open>mq_unlink\<close> removes the name only. An operation that blocks returns \<open>None\<close>.
  Whether the kernel grants a new queue of given attributes is an argument.
\<close>

section \<open>Queues of the system\<close>

record rlimit =
  rlim_cur :: u64
  rlim_max :: u64

text \<open>A queue holds its messages ordered by priority, the oldest of equal priority first.\<close>

record mqueue =
  mqu_attr :: mq_attr
  mqu_msgs :: "(nat \<times> u8 list) list"

text \<open>\<open>mo_rlim\<close> is \<open>None\<close> when the limit cannot be read; \<open>mo_priv\<close> says whether the process may
  raise a hard limit.\<close>

record mq_os =
  mo_rlim :: "rlimit option"
  mo_priv :: bool
  mo_names :: "string \<rightharpoonup> nat"
  mo_obj :: "nat \<Rightarrow> mqueue"
  mo_next :: nat

definition get_mq_rlimit :: "mq_os \<Rightarrow> rlimit res" where
  "get_mq_rlimit os = (case mo_rlim os of None \<Rightarrow> Inl (Fuck ''get mq rlimit fail'') | Some r \<Rightarrow> Inr r)"

definition set_mq_rlimit :: "rlimit \<Rightarrow> mq_os \<Rightarrow> mq_os res" where
  "set_mq_rlimit r os =
     (case mo_rlim os of
        Some old \<Rightarrow> (if mo_priv os \<or> rlim_max r \<le> rlim_max old then Inr (os\<lparr>mo_rlim := Some r\<rparr>)
                     else Inl (Fuck ''set mq rlimit fail''))
      | None \<Rightarrow> Inl (Fuck ''set mq rlimit fail''))"

section \<open>sock_mq\<close>

record mq_param =
  mp_id :: socket_identify
  mp_create :: bool
  mp_attr :: mq_attr

record sock_mq =
  smq_create :: bool
  smq_label :: string
  smq_mq :: nat

definition MAXMQSYSTEM :: u64 where "MAXMQSYSTEM = 10"

definition mq_required :: "mq_attr \<Rightarrow> rlimit \<Rightarrow> u64" where
  "mq_required attr r = word_of_int (mq_maxmsg attr) * word_of_int (mq_msgsize attr) + rlim_cur r * MAXMQSYSTEM"

definition raise_mq_rlimit :: "mq_attr \<Rightarrow> mq_os \<Rightarrow> mq_os res" where
  "raise_mq_rlimit attr os =
     (case get_mq_rlimit os of
        Inl e \<Rightarrow> Inl e
      | Inr r \<Rightarrow>
          (let required = mq_required attr r
           in if rlim_cur r < required then set_mq_rlimit \<lparr>rlim_cur = required, rlim_max = required\<rparr> os
              else Inr os))"

text \<open>\<open>mq_open\<close>: an existing queue is opened as it is; with \<open>O_CREAT\<close> a missing one is created when
  the kernel grants it.\<close>

definition mq_open :: "bool \<Rightarrow> bool \<Rightarrow> string \<Rightarrow> mq_attr \<Rightarrow> mq_os \<Rightarrow> (nat \<times> mq_os) option" where
  "mq_open granted create label attr os =
     (case mo_names os label of
        Some i \<Rightarrow> Some (i, os)
      | None \<Rightarrow>
          (if create \<and> granted
           then Some (mo_next os, os\<lparr>mo_names := (mo_names os)(label \<mapsto> mo_next os), mo_next := mo_next os + 1,
                  mo_obj := (mo_obj os)(mo_next os := \<lparr>mqu_attr = attr, mqu_msgs = []\<rparr>)\<rparr>)
           else None))"

text \<open>The limit stays raised when \<open>mq_open\<close> fails afterwards.\<close>

definition sock_mq_open :: "bool \<Rightarrow> mq_param \<Rightarrow> mq_os \<Rightarrow> sock_mq res \<times> mq_os" where
  "sock_mq_open granted param os =
     (case raise_mq_rlimit (mp_attr param) os of
        Inl e \<Rightarrow> (Inl e, os)
      | Inr os1 \<Rightarrow>
          (case mq_open granted (mp_create param) (sock_label (mp_id param)) (mp_attr param) os1 of
             None \<Rightarrow> (Inl (Fuck ''sock mq open failed ''), os1)
           | Some (i, os2) \<Rightarrow>
               (Inr \<lparr>smq_create = mp_create param, smq_label = sock_label (mp_id param), smq_mq = i\<rparr>, os2)))"

definition sock_mq_close :: "sock_mq \<Rightarrow> mq_os \<Rightarrow> mq_os" where
  "sock_mq_close q os = (if smq_create q then os\<lparr>mo_names := (mo_names os)(smq_label q := None)\<rparr> else os)"

definition getattrs :: "sock_mq \<Rightarrow> mq_os \<Rightarrow> mq_attr" where
  "getattrs q os = (mqu_attr (mo_obj os (smq_mq q)))\<lparr>mq_curmsgs := int (length (mqu_msgs (mo_obj os (smq_mq q))))\<rparr>"

text \<open>\<open>mq_send\<close> and \<open>mq_receive\<close> on one queue: \<open>None\<close> blocks, \<open>Inl\<close> is the error.\<close>

fun mq_insert :: "nat \<Rightarrow> u8 list \<Rightarrow> (nat \<times> u8 list) list \<Rightarrow> (nat \<times> u8 list) list" where
  "mq_insert p m [] = [(p, m)]"
| "mq_insert p m ((q, x) # xs) = (if q < p then (p, m) # (q, x) # xs else (q, x) # mq_insert p m xs)"

definition MQ_PRIO_MAX :: nat where "MQ_PRIO_MAX = 32768"

definition mq_send :: "u8 list \<Rightarrow> nat \<Rightarrow> mqueue \<Rightarrow> mqueue res option" where
  "mq_send m prio q =
     (if mq_msgsize (mqu_attr q) < int (length m) \<or> MQ_PRIO_MAX \<le> prio then Some (Inl (Fuck ''put msg failed ''))
      else if mq_maxmsg (mqu_attr q) \<le> int (length (mqu_msgs q)) then None
      else Some (Inr (q\<lparr>mqu_msgs := mq_insert prio m (mqu_msgs q)\<rparr>)))"

definition mq_receive :: "nat \<Rightarrow> mqueue \<Rightarrow> ((nat \<times> u8 list) \<times> mqueue) res option" where
  "mq_receive sz q =
     (if int sz < mq_msgsize (mqu_attr q) then Some (Inl (Fuck ''get msg failed ''))
      else case mqu_msgs q of [] \<Rightarrow> None | x # xs \<Rightarrow> Some (Inr (x, q\<lparr>mqu_msgs := xs\<rparr>)))"

definition put_msg :: "sock_mq \<Rightarrow> u8 list \<Rightarrow> nat \<Rightarrow> mq_os \<Rightarrow> mq_os res option" where
  "put_msg q m prio os =
     (case mq_send m prio (mo_obj os (smq_mq q)) of
        None \<Rightarrow> None
      | Some (Inl e) \<Rightarrow> Some (Inl e)
      | Some (Inr x) \<Rightarrow> Some (Inr (os\<lparr>mo_obj := (mo_obj os)(smq_mq q := x)\<rparr>)))"

definition get_msg :: "sock_mq \<Rightarrow> nat \<Rightarrow> mq_os \<Rightarrow> ((nat \<times> u8 list) \<times> mq_os) res option" where
  "get_msg q sz os =
     (case mq_receive sz (mo_obj os (smq_mq q)) of
        None \<Rightarrow> None
      | Some (Inl e) \<Rightarrow> Some (Inl e)
      | Some (Inr (m, x)) \<Rightarrow> Some (Inr (m, os\<lparr>mo_obj := (mo_obj os)(smq_mq q := x)\<rparr>)))"

section \<open>Lemmas\<close>

lemma mq_insert_last: "\<forall>x \<in> set xs. p \<le> fst x \<Longrightarrow> mq_insert p m xs = xs @ [(p, m)]"
  by (induction xs) auto

text \<open>
  What the program uses a queue for: a mailbox that hands out the packets in the order in which
  they were put in. The program puts every packet with priority 1.
\<close>

locale mailbox =
  fixes ok :: "'q \<Rightarrow> bool" and contents :: "'q \<Rightarrow> 'm list"
    and put :: "'m \<Rightarrow> 'q \<Rightarrow> 'q option" and take_out :: "'q \<Rightarrow> ('m \<times> 'q) option"
  assumes put_contents: "ok q \<Longrightarrow> put m q = Some q' \<Longrightarrow> ok q' \<and> contents q' = contents q @ [m]"
    and take_contents: "ok q \<Longrightarrow> contents q = m # ms \<Longrightarrow> \<exists>q'. take_out q = Some (m, q') \<and> ok q' \<and> contents q' = ms"
    and take_empty: "ok q \<Longrightarrow> contents q = [] \<Longrightarrow> take_out q = None"
begin

text \<open>Putting and taking out lists of messages.\<close>

primrec puts :: "'m list \<Rightarrow> 'q \<Rightarrow> 'q option" where
  "puts [] q = Some q"
| "puts (m # ms) q = (case put m q of None \<Rightarrow> None | Some q' \<Rightarrow> puts ms q')"

primrec takes :: "nat \<Rightarrow> 'q \<Rightarrow> 'm list \<times> 'q" where
  "takes 0 q = ([], q)"
| "takes (Suc n) q = (case take_out q of None \<Rightarrow> ([], q) | Some (m, q') \<Rightarrow> (case takes n q' of (ms, r) \<Rightarrow> (m # ms, r)))"

lemma puts_contents: "ok q \<Longrightarrow> puts ms q = Some q' \<Longrightarrow> ok q' \<and> contents q' = contents q @ ms"
proof (induction ms arbitrary: q)
  case (Cons m ms)
  then obtain q1 where "put m q = Some q1" "puts ms q1 = Some q'" by (auto split: option.splits)
  with Cons.IH [of q1] Cons.prems(1) put_contents [of q m q1] show ?case by simp
qed simp

lemma takes_contents: "ok q \<Longrightarrow> fst (takes n q) = take n (contents q)"
proof (induction n arbitrary: q)
  case (Suc n)
  then show ?case
    using take_empty [of q] take_contents [of q] by (cases "contents q") (fastforce split: prod.splits)+
qed simp

lemma fifo:
  assumes "ok q" and "puts ms q = Some q'"
  shows "fst (takes (length (contents q) + length ms) q') = contents q @ ms"
  using puts_contents [OF assms] takes_contents [of q'] by simp

end

definition mbox_ok :: "mqueue \<Rightarrow> bool" where
  "mbox_ok q \<longleftrightarrow> list_all (\<lambda>x. fst x = 1) (mqu_msgs q)"

definition mbox_contents :: "mqueue \<Rightarrow> u8 list list" where
  "mbox_contents q = map snd (mqu_msgs q)"

text \<open>The queue as the program uses it: a put or a receive that fails or blocks is \<open>None\<close>.\<close>

definition mbox_put :: "u8 list \<Rightarrow> mqueue \<Rightarrow> mqueue option" where
  "mbox_put m q = (case mq_send m 1 q of Some (Inr q') \<Rightarrow> Some q' | _ \<Rightarrow> None)"

definition mbox_take :: "mqueue \<Rightarrow> (u8 list \<times> mqueue) option" where
  "mbox_take q = (case mq_receive (nat (mq_msgsize (mqu_attr q))) q of Some (Inr ((p, m), q')) \<Rightarrow> Some (m, q') | _ \<Rightarrow> None)"

interpretation mb: mailbox mbox_ok mbox_contents mbox_put mbox_take
proof
  fix q m q'
  assume "mbox_ok q" and "mbox_put m q = Some q'"
  then show "mbox_ok q' \<and> mbox_contents q' = mbox_contents q @ [m]"
    by (auto simp: mbox_ok_def mbox_contents_def mbox_put_def mq_send_def mq_insert_last list_all_iff
        split: if_splits)
next
  fix q m ms
  assume "mbox_ok q" and "mbox_contents q = m # ms"
  then show "\<exists>q'. mbox_take q = Some (m, q') \<and> mbox_ok q' \<and> mbox_contents q' = ms"
    by (auto simp: mbox_ok_def mbox_contents_def mbox_take_def mq_receive_def)
next
  fix q
  assume "mbox_contents q = []"
  then show "mbox_take q = None"
    by (simp add: mbox_contents_def mbox_take_def mq_receive_def)
qed

text \<open>A list of packets put into a queue, and a number of packets received into a buffer of \<open>sz\<close> bytes.\<close>

fun put_msgs :: "sock_mq \<Rightarrow> u8 list list \<Rightarrow> mq_os \<Rightarrow> mq_os res option" where
  "put_msgs q [] os = Some (Inr os)"
| "put_msgs q (m # ms) os = (case put_msg q m 1 os of Some (Inr os') \<Rightarrow> put_msgs q ms os' | r \<Rightarrow> r)"

fun get_msgs :: "sock_mq \<Rightarrow> nat \<Rightarrow> nat \<Rightarrow> mq_os \<Rightarrow> u8 list list \<times> mq_os" where
  "get_msgs q sz 0 os = ([], os)"
| "get_msgs q sz (Suc n) os =
     (case get_msg q sz os of
        Some (Inr ((p, m), os')) \<Rightarrow> (case get_msgs q sz n os' of (ms, r) \<Rightarrow> (m # ms, r))
      | _ \<Rightarrow> ([], os))"

lemma put_msgs_puts:
  "mb.puts ms (mo_obj os (smq_mq q)) = Some x \<Longrightarrow>
     put_msgs q ms os = Some (Inr (os\<lparr>mo_obj := (mo_obj os)(smq_mq q := x)\<rparr>))"
proof (induction ms arbitrary: os)
  case (Cons m ms)
  then obtain y where y: "mbox_put m (mo_obj os (smq_mq q)) = Some y" "mb.puts ms y = Some x"
    by (auto split: option.splits)
  let ?os = "os\<lparr>mo_obj := (mo_obj os)(smq_mq q := y)\<rparr>"
  have "put_msg q m 1 os = Some (Inr ?os)"
    using y(1) by (auto simp: put_msg_def mbox_put_def split: option.splits sum.splits)
  moreover have "?os\<lparr>mo_obj := (mo_obj ?os)(smq_mq q := x)\<rparr> = os\<lparr>mo_obj := (mo_obj os)(smq_mq q := x)\<rparr>"
    by (simp add: fun_upd_def cong: if_cong)
  ultimately show ?case using Cons.IH [of ?os] y(2) by (simp cong: if_cong)
qed auto

lemma get_msg_take:
  assumes "mq_msgsize (mqu_attr (mo_obj os (smq_mq q))) \<le> int sz"
  shows "(case get_msg q sz os of Some (Inr ((p, m), os')) \<Rightarrow> Some (m, os') | _ \<Rightarrow> None) =
    map_option (\<lambda>(m, x). (m, os\<lparr>mo_obj := (mo_obj os)(smq_mq q := x)\<rparr>)) (mbox_take (mo_obj os (smq_mq q)))"
  using assms by (auto simp: get_msg_def mbox_take_def mq_receive_def split: list.splits)

lemma mbox_take_attr: "mbox_take x = Some (m, y) \<Longrightarrow> mqu_attr y = mqu_attr x"
  by (auto simp: mbox_take_def mq_receive_def split: if_splits list.splits)

lemma get_msgs_takes:
  "mq_msgsize (mqu_attr (mo_obj os (smq_mq q))) \<le> int sz \<Longrightarrow>
     fst (get_msgs q sz n os) = fst (mb.takes n (mo_obj os (smq_mq q)))"
proof (induction n arbitrary: os)
  case (Suc n)
  show ?case
  proof (cases "mbox_take (mo_obj os (smq_mq q))")
    case None
    with get_msg_take [OF Suc.prems] show ?thesis by (auto split: option.splits sum.splits)
  next
    case (Some r)
    then obtain m x where mx: "mbox_take (mo_obj os (smq_mq q)) = Some (m, x)" by (cases r) auto
    let ?os = "os\<lparr>mo_obj := (mo_obj os)(smq_mq q := x)\<rparr>"
    obtain p where "get_msg q sz os = Some (Inr ((p, m), ?os))"
      using get_msg_take [OF Suc.prems] mx by (auto split: option.splits sum.splits)
    moreover have "fst (get_msgs q sz n ?os) = fst (mb.takes n x)"
      using Suc.IH [of ?os] Suc.prems mbox_take_attr [OF mx] by simp
    ultimately show ?thesis using mx by (auto split: prod.splits)
  qed
qed simp

lemma length_mq_insert [simp]: "length (mq_insert p m xs) = Suc (length xs)"
  by (induction xs) auto

lemma puts_fit:
  "list_all (\<lambda>m. int (length m) \<le> mq_msgsize (mqu_attr x)) ms \<Longrightarrow>
   int (length (mqu_msgs x) + length ms) \<le> mq_maxmsg (mqu_attr x) \<Longrightarrow>
   \<exists>y. mb.puts ms x = Some y \<and> mqu_attr y = mqu_attr x"
proof (induction ms arbitrary: x)
  case (Cons m ms)
  let ?y = "x\<lparr>mqu_msgs := mq_insert 1 m (mqu_msgs x)\<rparr>"
  have "mbox_put m x = Some ?y"
    using Cons.prems by (simp add: mbox_put_def mq_send_def MQ_PRIO_MAX_def)
  with Cons.IH [of ?y] Cons.prems show ?case by auto
qed simp

lemma unat_mq_required:
  assumes "0 \<le> mq_maxmsg a" and "0 \<le> mq_msgsize a"
    and "mq_maxmsg a * mq_msgsize a + 10 * int (unat (rlim_cur r)) < 2 ^ 64"
  shows "unat (mq_required a r) = nat (mq_maxmsg a * mq_msgsize a) + 10 * unat (rlim_cur r)"
proof -
  let ?k = "mq_maxmsg a * mq_msgsize a" and ?c = "int (unat (rlim_cur r))"
  have nn: "0 \<le> ?k" using assms(1,2) by simp
  have "mq_required a r = of_int ?k + of_int ?c * 10"
    unfolding mq_required_def MAXMQSYSTEM_def by (simp only: of_int_mult) simp
  also have "\<dots> = of_int (?k + 10 * ?c)" by (simp del: of_nat_unat)
  finally have "mq_required a r = word_of_int (?k + 10 * ?c)" .
  moreover have "take_bit 64 (?k + 10 * ?c) = ?k + 10 * ?c"
    using nn assms(3) by (intro take_bit_int_eq_self) (simp_all del: of_nat_unat)
  ultimately have "uint (mq_required a r) = ?k + 10 * ?c"
    using uint_word_of_int_eq [where 'a = 64, of "?k + 10 * ?c"] by (simp only: len_num0 len_num1 len_bit0) (simp del: of_nat_unat)
  then have "unat (mq_required a r) = nat (?k + 10 * ?c)" by (simp only: unat_eq_nat_uint)
  with nn show ?thesis by (simp add: nat_add_distrib nat_mult_distrib del: of_nat_unat)
qed

section \<open>Properties\<close>


text \<open>A fresh queue of a socket with an MTU of 1500 bytes, for the witnesses.\<close>

definition small_mq_os :: mq_os where
  "small_mq_os = \<lparr>mo_rlim = Some \<lparr>rlim_cur = 819200, rlim_max = 819200\<rparr>, mo_priv = True, mo_names = Map.empty,
     mo_obj = (\<lambda>_. \<lparr>mqu_attr = default_tcp_mq_attr\<lparr>mq_msgsize := 1500\<rparr>, mqu_msgs = []\<rparr>), mo_next = 0\<rparr>"


text \<open>
  every queue that is opened, for sending one packet to another process too, raises the limit of
  the whole process at least ten times; a process that may not raise its hard limit cannot open a
  queue at all unless that limit is ten times its soft limit.
\<close>

theorem mq_open_raises_limit:
  assumes "mo_rlim os = Some r" and "0 < rlim_cur r"
    and "0 \<le> mq_maxmsg (mp_attr param)" and "0 \<le> mq_msgsize (mp_attr param)"
    and "mq_maxmsg (mp_attr param) * mq_msgsize (mp_attr param) + 10 * int (unat (rlim_cur r)) < 2 ^ 64"
  shows "(\<forall>q os'. sock_mq_open granted param os = (Inr q, os') \<longrightarrow>
        (\<exists>r'. mo_rlim os' = Some r' \<and> 10 * unat (rlim_cur r) \<le> unat (rlim_cur r'))) \<and>
    (\<not> mo_priv os \<and> unat (rlim_max r) < 10 * unat (rlim_cur r) \<longrightarrow>
        sock_mq_open granted param os = (Inl (Fuck ''set mq rlimit fail''), os))"
proof -
  let ?a = "mp_attr param" and ?req = "mq_required (mp_attr param) r"
  have req: "unat ?req = nat (mq_maxmsg ?a * mq_msgsize ?a) + 10 * unat (rlim_cur r)"
    using assms(3-5) by (rule unat_mq_required)
  moreover have "0 < unat (rlim_cur r)" using assms(2) by (simp add: word_less_nat_alt)
  ultimately have up: "rlim_cur r < ?req" and ten: "10 * unat (rlim_cur r) \<le> unat ?req"
    by (simp_all add: word_less_nat_alt)
  have raise: "raise_mq_rlimit ?a os = set_mq_rlimit \<lparr>rlim_cur = ?req, rlim_max = ?req\<rparr> os"
    using assms(1) up by (simp add: raise_mq_rlimit_def get_mq_rlimit_def Let_def)
  show ?thesis
  proof (intro conjI allI impI)
    fix q os'
    assume "sock_mq_open granted param os = (Inr q, os')"
    then have "mo_rlim os' = Some \<lparr>rlim_cur = ?req, rlim_max = ?req\<rparr>"
      using assms(1) by (auto simp: sock_mq_open_def raise set_mq_rlimit_def mq_open_def split: if_splits option.splits)
    with ten show "\<exists>r'. mo_rlim os' = Some r' \<and> 10 * unat (rlim_cur r) \<le> unat (rlim_cur r')" by simp
  next
    assume "\<not> mo_priv os \<and> unat (rlim_max r) < 10 * unat (rlim_cur r)"
    with ten have "\<not> mo_priv os" "\<not> ?req \<le> rlim_max r" by (auto simp: word_le_nat_alt)
    then show "sock_mq_open granted param os = (Inl (Fuck ''set mq rlimit fail''), os)"
      using assms(1) by (simp add: sock_mq_open_def raise set_mq_rlimit_def)
  qed
qed

theorem mq_open_raises_limit_witness:
  "\<exists>r'. mo_rlim (snd (sock_mq_open True \<lparr>mp_id = socket_identify_of zero_sockaddr, mp_create = True,
      mp_attr = default_mq_attr\<rparr> small_mq_os)) = Some r' \<and> 8192000 \<le> unat (rlim_cur r')"
proof -
  let ?p = "\<lparr>mp_id = socket_identify_of zero_sockaddr, mp_create = True, mp_attr = default_mq_attr\<rparr>"
  have "\<exists>q os'. sock_mq_open True ?p small_mq_os = (Inr q, os')"
    by (simp add: sock_mq_open_def raise_mq_rlimit_def get_mq_rlimit_def set_mq_rlimit_def mq_open_def small_mq_os_def
        Let_def)
  then obtain q os' where "sock_mq_open True ?p small_mq_os = (Inr q, os')" by blast
  with mq_open_raises_limit [of small_mq_os "\<lparr>rlim_cur = 819200, rlim_max = 819200\<rparr>" ?p True]
  show ?thesis by (simp add: small_mq_os_def default_mq_attr_def)
qed

end
