(* ===== verification/Sock_Shm.thy ===== *)
theory Sock_Shm
  imports Sock_Mq Mem_Layout
begin

text \<open>
  The shared-memory socket: class \<open>sock\<close> of \<open>src/tcp_engine.cpp\<close> and \<open>src/tcp_engine.h\<close> with the
  initializer \<open>sock_mem_guard\<close> of \<open>src/newimpl.cpp\<close>. Several processes open and close sockets
  under labels; a label names a semaphore, a shared-memory object and a message queue. A step of a
  process is one system call or one access to the shared object; \<open>ppc\<close> says where the process
  stands. The argument \<open>ok\<close> of a step says whether its system call succeeds.
\<close>

section \<open>Objects of the system\<close>

datatype shm_state = UNITILIZATED | OK | UNLINKED

text \<open>\<open>struct sock_shmem\<close>: \<open>so_locks\<close> are the counts of the semaphores in \<open>locks_shmem\<close>; \<open>so_inits\<close> is
  a history of the initialisations, which no step reads.\<close>

record sock_shmem =
  so_state :: shm_state
  so_locks_num :: nat
  so_locks :: "nat \<Rightarrow> nat"
  so_client :: shmem
  so_inits :: nat

text \<open>\<open>P_Exn h\<close>: an exception left the constructor, or ended the process in the destructor, holding the
  label's semaphore when \<open>h\<close>.\<close>

datatype ppc = P_None | P_Lock | P_Open | P_Test | P_Again | P_Init | P_Mark | P_Mq | P_Load | P_Unlock | P_Ready
  | P_Exn bool | D_Lock | D_Inner nat | D_Sem_unlink | D_Shm_unlink | D_Mark | D_Outer nat | D_Unlock | D_Close | D_Gone

record proc =
  pr_pc :: ppc
  pr_param :: mq_param
  pr_lock :: "nat option"
  pr_shd :: "nat option"
  pr_mq :: "sock_mq option"

record world =
  w_sem_name :: "string \<rightharpoonup> nat"
  w_sem :: "nat \<Rightarrow> nat"
  w_sem_next :: nat
  w_shm_name :: "string \<rightharpoonup> nat"
  w_shm :: "nat \<Rightarrow> sock_shmem"
  w_shm_next :: nat
  w_mq :: mq_os
  w_proc :: "nat \<Rightarrow> proc"

definition pr_label :: "proc \<Rightarrow> string" where
  "pr_label P = sock_label (mp_id (pr_param P))"

text \<open>A new shared-memory object is filled with zeros.\<close>

definition zero_shm :: sock_shmem where
  "zero_shm = \<lparr>so_state = UNITILIZATED, so_locks_num = 0, so_locks = (\<lambda>_. 0), so_client = zero_mem, so_inits = 0\<rparr>"

definition sem_open :: "string \<Rightarrow> world \<Rightarrow> nat \<times> world" where
  "sem_open l w =
     (case w_sem_name w l of
        Some i \<Rightarrow> (i, w)
      | None \<Rightarrow> (w_sem_next w, w\<lparr>w_sem_name := (w_sem_name w)(l \<mapsto> w_sem_next w), w_sem_next := w_sem_next w + 1,
                  w_sem := (w_sem w)(w_sem_next w := 1)\<rparr>))"

definition shm_open :: "string \<Rightarrow> world \<Rightarrow> nat \<times> world" where
  "shm_open l w =
     (case w_shm_name w l of
        Some j \<Rightarrow> (j, w)
      | None \<Rightarrow> (w_shm_next w, w\<lparr>w_shm_name := (w_shm_name w)(l \<mapsto> w_shm_next w), w_shm_next := w_shm_next w + 1,
                  w_shm := (w_shm w)(w_shm_next w := zero_shm)\<rparr>))"

definition sem_wait :: "nat \<Rightarrow> world \<Rightarrow> world option" where
  "sem_wait i w = (if w_sem w i = 0 then None else Some (w\<lparr>w_sem := (w_sem w)(i := w_sem w i - 1)\<rparr>))"

definition sem_post :: "nat \<Rightarrow> world \<Rightarrow> world" where
  "sem_post i w = w\<lparr>w_sem := (w_sem w)(i := w_sem w i + 1)\<rparr>"

definition upd_proc :: "nat \<Rightarrow> (proc \<Rightarrow> proc) \<Rightarrow> world \<Rightarrow> world" where
  "upd_proc p f w = w\<lparr>w_proc := (w_proc w)(p := f (w_proc w p))\<rparr>"

definition upd_shm :: "nat \<Rightarrow> (sock_shmem \<Rightarrow> sock_shmem) \<Rightarrow> world \<Rightarrow> world" where
  "upd_shm j f w = w\<lparr>w_shm := (w_shm w)(j := f (w_shm w j))\<rparr>"

definition goto :: "nat \<Rightarrow> ppc \<Rightarrow> world \<Rightarrow> world" where
  "goto p pc = upd_proc p (\<lambda>P. P\<lparr>pr_pc := pc\<rparr>)"

section \<open>The initializer\<close>

text \<open>\<open>sock_mem_guard::init\<close>: the protocol areas, the number of locks and the eight semaphores: four
  locks that start at 1 and four notifications that start at 0.\<close>

definition locks_num :: nat where "locks_num = 4"

definition guard_locks :: "(nat \<Rightarrow> nat) \<Rightarrow> nat \<Rightarrow> nat" where
  "guard_locks f = f(0 := 1, 1 := 1, 2 := 1, 3 := 1, 4 := 0, 5 := 0, 6 := 0, 7 := 0)"

definition guard_init :: "sock_shmem \<Rightarrow> sock_shmem" where
  "guard_init s = s\<lparr>so_client := on_init (so_client s), so_locks_num := locks_num,
     so_locks := guard_locks (so_locks s), so_inits := so_inits s + 1\<rparr>"

section \<open>Constructor\<close>

text \<open>\<open>sock::sock\<close>: what it stores before \<open>reopen\<close>.\<close>

definition sock_ctor :: "nat \<Rightarrow> socket_identify \<Rightarrow> mq_attr \<Rightarrow> world \<Rightarrow> world" where
  "sock_ctor p sid attr w = w\<lparr>w_proc := (w_proc w)(p := \<lparr>pr_pc = P_Lock,
     pr_param = \<lparr>mp_id = sid, mp_create = True, mp_attr = attr\<rparr>, pr_lock = None, pr_shd = None, pr_mq = None\<rparr>)\<rparr>"

text \<open>\<open>__create_lock\<close> and \<open>__lock\<close>: two system calls, the first one only without a semaphore.\<close>

definition sock_lock_step :: "bool \<Rightarrow> nat \<Rightarrow> ppc \<Rightarrow> world \<Rightarrow> world option" where
  "sock_lock_step ok p next w =
     (case pr_lock (w_proc w p) of
        None \<Rightarrow>
          (if ok then (case sem_open (pr_label (w_proc w p)) w of
                         (i, w1) \<Rightarrow> Some (upd_proc p (\<lambda>P. P\<lparr>pr_lock := Some i\<rparr>) w1))
           else Some (goto p (P_Exn False) w))
      | Some i \<Rightarrow>
          (if ok then map_option (goto p next) (sem_wait i w) else Some (goto p (P_Exn False) w)))"

definition sock_unlock_step :: "bool \<Rightarrow> nat \<Rightarrow> ppc \<Rightarrow> world \<Rightarrow> world" where
  "sock_unlock_step ok p next w =
     (if ok then goto p next (sem_post (the (pr_lock (w_proc w p))) w) else goto p (P_Exn True) w)"

text \<open>\<open>reopen\<close>: \<open>shm_open\<close>, \<open>ftruncate\<close> and \<open>mmap\<close> are one step, since only the first is seen by others.\<close>

definition reopen_step :: "bool \<Rightarrow> nat \<Rightarrow> world \<Rightarrow> world option" where
  "reopen_step ok p w =
     (let P = w_proc w p; j = the (pr_shd P)
      in case pr_pc P of
           P_Lock \<Rightarrow> sock_lock_step ok p P_Open w
         | P_Open \<Rightarrow>
             (if ok then (case shm_open (pr_label P) w of
                            (k, w1) \<Rightarrow> Some (goto p P_Test (upd_proc p (\<lambda>P. P\<lparr>pr_shd := Some k\<rparr>) w1)))
              else Some (goto p (P_Exn True) w))
         | P_Test \<Rightarrow>
             Some (goto p (case so_state (w_shm w j) of UNLINKED \<Rightarrow> P_Again | UNITILIZATED \<Rightarrow> P_Init | OK \<Rightarrow> P_Load) w)
         | P_Again \<Rightarrow> Some (sock_unlock_step ok p P_Lock w)
         | P_Init \<Rightarrow> Some (goto p P_Mark (upd_shm j guard_init w))
         | P_Mark \<Rightarrow> Some (goto p P_Mq (upd_shm j (\<lambda>s. s\<lparr>so_state := OK\<rparr>) w))
         | P_Mq \<Rightarrow>
             (case sock_mq_open ok (pr_param P) (w_mq w) of
                (Inl e, os) \<Rightarrow> Some (goto p (P_Exn True) (w\<lparr>w_mq := os\<rparr>))
              | (Inr q, os) \<Rightarrow> Some (goto p P_Unlock (upd_proc p (\<lambda>P. P\<lparr>pr_mq := Some q\<rparr>) (w\<lparr>w_mq := os\<rparr>))))
         | P_Load \<Rightarrow> Some (goto p P_Unlock w)
         | P_Unlock \<Rightarrow> Some (sock_unlock_step ok p P_Ready w)
         | _ \<Rightarrow> None)"

section \<open>Destructor\<close>

definition dtor_step :: "bool \<Rightarrow> nat \<Rightarrow> world \<Rightarrow> world option" where
  "dtor_step ok p w =
     (let P = w_proc w p; j = the (pr_shd P); s = w_shm w j
      in case pr_pc P of
           D_Lock \<Rightarrow> sock_lock_step ok p (D_Inner 0) w
         | D_Inner i \<Rightarrow>
             (if i < so_locks_num s
              then (if \<not> ok then Some (goto p D_Close w)
                    else if so_locks s i = 0 then None
                    else Some (goto p (D_Inner (i + 1)) (upd_shm j (\<lambda>s. s\<lparr>so_locks := (so_locks s)(i := so_locks s i - 1)\<rparr>) w)))
              else Some (goto p D_Sem_unlink w))
         | D_Sem_unlink \<Rightarrow> Some (goto p D_Shm_unlink (w\<lparr>w_sem_name := (w_sem_name w)(pr_label P := None)\<rparr>))
         | D_Shm_unlink \<Rightarrow> Some (goto p D_Mark (w\<lparr>w_shm_name := (w_shm_name w)(pr_label P := None)\<rparr>))
         | D_Mark \<Rightarrow> Some (goto p (D_Outer 0) (upd_shm j (\<lambda>s. s\<lparr>so_state := UNLINKED\<rparr>) w))
         | D_Outer i \<Rightarrow>
             (if i < so_locks_num s
              then (if ok then Some (goto p (D_Outer (i + 1)) (upd_shm j (\<lambda>s. s\<lparr>so_locks := (so_locks s)(i := so_locks s i + 1)\<rparr>) w))
                    else Some (goto p D_Close w))
              else Some (goto p D_Unlock w))
         | D_Unlock \<Rightarrow> Some (sock_unlock_step ok p D_Close w)
         | D_Close \<Rightarrow>
             Some (goto p D_Gone (case pr_mq P of None \<Rightarrow> w | Some q \<Rightarrow> w\<lparr>w_mq := sock_mq_close q (w_mq w)\<rparr>))
         | _ \<Rightarrow> None)"

section \<open>Operations of an open socket\<close>

text \<open>\<open>accquire_shmem\<close>: \<open>None\<close> while it waits for the label's semaphore.\<close>

definition accquire_shmem :: "bool \<Rightarrow> nat \<Rightarrow> world \<Rightarrow> (shmem \<times> world) res option" where
  "accquire_shmem internal_lock p w =
     (let i = the (pr_lock (w_proc w p)); s = w_shm w (the (pr_shd (w_proc w p)))
      in case (if internal_lock then sem_wait i w else Some w) of
           None \<Rightarrow> None
         | Some w1 \<Rightarrow> (if so_state s = UNLINKED then Some (Inl (Fuck ''socket has been already closed''))
                       else Some (Inr (so_client s, w1))))"

definition put_internal_lock :: "nat \<Rightarrow> world \<Rightarrow> world" where
  "put_internal_lock p w = sem_post (the (pr_lock (w_proc w p))) w"

text \<open>\<open>get_mq\<close> dereferences the pointer, which is null in a process that did not create the queue.\<close>

definition get_mq :: "nat \<Rightarrow> world \<Rightarrow> sock_mq res" where
  "get_mq p w = (case pr_mq (w_proc w p) of None \<Rightarrow> Inl Fault | Some q \<Rightarrow> Inr q)"

section \<open>Runs\<close>

datatype sock_event = New nat socket_identify mq_attr | Step nat bool | Delete nat

definition sock_exec :: "sock_event \<Rightarrow> world \<Rightarrow> world option" where
  "sock_exec e w =
     (case e of
        New p sid attr \<Rightarrow> (if pr_pc (w_proc w p) = P_None then Some (sock_ctor p sid attr w) else None)
      | Step p ok \<Rightarrow> (case reopen_step ok p w of Some w' \<Rightarrow> Some w' | None \<Rightarrow> dtor_step ok p w)
      | Delete p \<Rightarrow> (if pr_pc (w_proc w p) = P_Ready then Some (goto p D_Lock w) else None))"

fun sock_run :: "sock_event list \<Rightarrow> world \<Rightarrow> world option" where
  "sock_run [] w = Some w"
| "sock_run (e # es) w = (case sock_exec e w of None \<Rightarrow> None | Some w' \<Rightarrow> sock_run es w')"

text \<open>No object has a name and no process has a socket.\<close>

definition no_proc :: proc where
  "no_proc = \<lparr>pr_pc = P_None, pr_param = \<lparr>mp_id = socket_identify_of zero_sockaddr, mp_create = True, mp_attr = default_tcp_mq_attr\<rparr>,
     pr_lock = None, pr_shd = None, pr_mq = None\<rparr>"

definition empty_world :: "mq_os \<Rightarrow> world" where
  "empty_world os = \<lparr>w_sem_name = Map.empty, w_sem = (\<lambda>_. 0), w_sem_next = 0, w_shm_name = Map.empty, w_shm = (\<lambda>_. zero_shm),
     w_shm_next = 0, w_mq = os, w_proc = (\<lambda>_. no_proc)\<rparr>"

section \<open>Single events\<close>

abbreviation pc_of :: "world \<Rightarrow> nat \<Rightarrow> ppc" where "pc_of w p \<equiv> pr_pc (w_proc w p)"
abbreviation lab :: "world \<Rightarrow> nat \<Rightarrow> string" where "lab w p \<equiv> pr_label (w_proc w p)"

lemma exec_New: "pc_of w p = P_None \<Longrightarrow> sock_exec (New p sid attr) w = Some (sock_ctor p sid attr w)" 
  by (simp add: sock_exec_def)

lemma exec_Delete: "pc_of w p = P_Ready \<Longrightarrow> sock_exec (Delete p) w = Some (goto p D_Lock w)" 
  by (simp add: sock_exec_def)

text \<open>What a step is at each position, for evaluating schedules.\<close>

lemma exec_open:
  "pc_of w p = P_Lock \<Longrightarrow> sock_exec (Step p ok) w = sock_lock_step ok p P_Open w"
  "pc_of w p = P_Open \<Longrightarrow> sock_exec (Step p True) w = (case shm_open (lab w p) w of
      (k, w1) \<Rightarrow> Some (goto p P_Test (upd_proc p (\<lambda>P. P\<lparr>pr_shd := Some k\<rparr>) w1)))"
  "pc_of w p = P_Open \<Longrightarrow> sock_exec (Step p False) w = Some (goto p (P_Exn True) w)"
  "pc_of w p = P_Test \<Longrightarrow> sock_exec (Step p ok) w = Some (goto p (case so_state (w_shm w (the (pr_shd (w_proc w p)))) of
      UNLINKED \<Rightarrow> P_Again | UNITILIZATED \<Rightarrow> P_Init | OK \<Rightarrow> P_Load) w)"
  "pc_of w p = P_Init \<Longrightarrow> sock_exec (Step p ok) w = Some (goto p P_Mark (upd_shm (the (pr_shd (w_proc w p))) guard_init w))"
  "pc_of w p = P_Mark \<Longrightarrow> sock_exec (Step p ok) w =
     Some (goto p P_Mq (upd_shm (the (pr_shd (w_proc w p))) (\<lambda>s. s\<lparr>so_state := OK\<rparr>) w))"
  "pc_of w p = P_Mq \<Longrightarrow> sock_mq_open ok (pr_param (w_proc w p)) (w_mq w) = (Inr q, os) \<Longrightarrow>
     sock_exec (Step p ok) w = Some (goto p P_Unlock (upd_proc p (\<lambda>P. P\<lparr>pr_mq := Some q\<rparr>) (w\<lparr>w_mq := os\<rparr>)))"
  "pc_of w p = P_Load \<Longrightarrow> sock_exec (Step p ok) w = Some (goto p P_Unlock w)"
  "pc_of w p = P_Unlock \<Longrightarrow> sock_exec (Step p ok) w = Some (sock_unlock_step ok p P_Ready w)"
  by (simp_all add: sock_exec_def reopen_step_def dtor_step_def Let_def sock_lock_step_def split: option.splits)

lemma exec_close:
  "pc_of w p = D_Lock \<Longrightarrow> sock_exec (Step p ok) w = sock_lock_step ok p (D_Inner 0) w"
  "pc_of w p = D_Inner i \<Longrightarrow> i < so_locks_num (w_shm w (the (pr_shd (w_proc w p)))) \<Longrightarrow>
     so_locks (w_shm w (the (pr_shd (w_proc w p)))) i \<noteq> 0 \<Longrightarrow> sock_exec (Step p True) w =
     Some (goto p (D_Inner (i + 1)) (upd_shm (the (pr_shd (w_proc w p))) (\<lambda>s. s\<lparr>so_locks := (so_locks s)(i := so_locks s i - 1)\<rparr>) w))"
  "pc_of w p = D_Inner i \<Longrightarrow> \<not> i < so_locks_num (w_shm w (the (pr_shd (w_proc w p)))) \<Longrightarrow> sock_exec (Step p ok) w =
     Some (goto p D_Sem_unlink w)"
  "pc_of w p = D_Sem_unlink \<Longrightarrow> sock_exec (Step p ok) w =
     Some (goto p D_Shm_unlink (w\<lparr>w_sem_name := (w_sem_name w)(lab w p := None)\<rparr>))"
  "pc_of w p = D_Shm_unlink \<Longrightarrow> sock_exec (Step p ok) w =
     Some (goto p D_Mark (w\<lparr>w_shm_name := (w_shm_name w)(lab w p := None)\<rparr>))"
  "pc_of w p = D_Mark \<Longrightarrow> sock_exec (Step p ok) w =
     Some (goto p (D_Outer 0) (upd_shm (the (pr_shd (w_proc w p))) (\<lambda>s. s\<lparr>so_state := UNLINKED\<rparr>) w))"
  "pc_of w p = D_Outer i \<Longrightarrow> i < so_locks_num (w_shm w (the (pr_shd (w_proc w p)))) \<Longrightarrow> sock_exec (Step p True) w =
     Some (goto p (D_Outer (i + 1)) (upd_shm (the (pr_shd (w_proc w p))) (\<lambda>s. s\<lparr>so_locks := (so_locks s)(i := so_locks s i + 1)\<rparr>) w))"
  "pc_of w p = D_Outer i \<Longrightarrow> \<not> i < so_locks_num (w_shm w (the (pr_shd (w_proc w p)))) \<Longrightarrow> sock_exec (Step p ok) w =
     Some (goto p D_Unlock w)"
  "pc_of w p = D_Unlock \<Longrightarrow> sock_exec (Step p ok) w = Some (sock_unlock_step ok p D_Close w)"
  "pc_of w p = D_Close \<Longrightarrow> sock_exec (Step p ok) w =
     Some (goto p D_Gone (case pr_mq (w_proc w p) of None \<Rightarrow> w | Some q \<Rightarrow> w\<lparr>w_mq := sock_mq_close q (w_mq w)\<rparr>))"
  by (simp_all add: sock_exec_def reopen_step_def dtor_step_def Let_def sock_lock_step_def)

section \<open>Opening sockets\<close>

text \<open>Runs in which sockets are only opened, in any number of processes and under any labels.\<close>

inductive ctor_step :: "world \<Rightarrow> world \<Rightarrow> bool" where
  new: "sock_exec (New p sid attr) w = Some w' \<Longrightarrow> ctor_step w w'"
| step: "reopen_step ok p w = Some w' \<Longrightarrow> ctor_step w w'"

definition ctor_start :: "world \<Rightarrow> bool" where
  "ctor_start w \<longleftrightarrow> (\<exists>os. w = empty_world os)"

text \<open>The positions at which a process holds the semaphore of its label, and at which it has mapped the object.\<close>

fun holds :: "ppc \<Rightarrow> bool" where
  "holds P_Open = True" | "holds P_Test = True" | "holds P_Again = True" | "holds P_Init = True" | "holds P_Mark = True"
| "holds P_Mq = True" | "holds P_Load = True" | "holds P_Unlock = True" | "holds (P_Exn h) = h" | "holds _ = False"

fun mapped :: "ppc \<Rightarrow> bool" where
  "mapped P_Test = True" | "mapped P_Again = True" | "mapped P_Init = True" | "mapped P_Mark = True"
| "mapped P_Mq = True" | "mapped P_Load = True" | "mapped P_Unlock = True" | "mapped P_Ready = True" | "mapped _ = False"

fun opened :: "ppc \<Rightarrow> bool" where
  "opened P_Mq = True" | "opened P_Load = True" | "opened P_Unlock = True" | "opened P_Ready = True" | "opened _ = False"


definition names_ok :: "(string \<rightharpoonup> nat) \<Rightarrow> nat \<Rightarrow> bool" where
  "names_ok m n \<longleftrightarrow> (\<forall>l i. m l = Some i \<longrightarrow> i < n) \<and> (\<forall>l l' i. m l = Some i \<and> m l' = Some i \<longrightarrow> l = l')"

text \<open>Handles lead to the objects that the names lead to.\<close>

definition names_inv :: "world \<Rightarrow> bool" where
  "names_inv w \<longleftrightarrow> names_ok (w_sem_name w) (w_sem_next w) \<and> names_ok (w_shm_name w) (w_shm_next w) \<and>
     (\<forall>l. w_shm_name w l \<noteq> None \<longrightarrow> w_sem_name w l \<noteq> None) \<and>
     (\<forall>p i. pr_lock (w_proc w p) = Some i \<longrightarrow> w_sem_name w (lab w p) = Some i) \<and>
     (\<forall>p j. pr_shd (w_proc w p) = Some j \<longrightarrow> w_shm_name w (lab w p) = Some j) \<and>
     (\<forall>p. holds (pc_of w p) \<longrightarrow> pr_lock (w_proc w p) \<noteq> None) \<and>
     (\<forall>p. mapped (pc_of w p) \<longrightarrow> pr_shd (w_proc w p) \<noteq> None)"

text \<open>The semaphore of a label is binary, and at most one process holds it.\<close>

definition mutex_inv :: "world \<Rightarrow> bool" where
  "mutex_inv w \<longleftrightarrow>
     (\<forall>p q. holds (pc_of w p) \<and> holds (pc_of w q) \<and> lab w p = lab w q \<longrightarrow> p = q) \<and>
     (\<forall>p i. holds (pc_of w p) \<and> w_sem_name w (lab w p) = Some i \<longrightarrow> w_sem w i = 0) \<and>
     (\<forall>l i. w_sem_name w l = Some i \<longrightarrow> w_sem w i \<le> 1)"

text \<open>An object is initialised once; between the initialisation and the mark its semaphore is held.\<close>

definition fresh_unless_marked :: "sock_shmem \<Rightarrow> bool" where
  "fresh_unless_marked s \<longleftrightarrow> (case so_state s of UNITILIZATED \<Rightarrow> so_inits s = 0 | OK \<Rightarrow> so_inits s = 1 | UNLINKED \<Rightarrow> False)"

definition init_inv :: "world \<Rightarrow> bool" where
  "init_inv w \<longleftrightarrow>
     (\<forall>l i j. w_sem_name w l = Some i \<and> w_sem w i \<noteq> 0 \<and> w_shm_name w l = Some j \<longrightarrow> fresh_unless_marked (w_shm w j)) \<and>
     (\<forall>p j. holds (pc_of w p) \<and> pc_of w p \<noteq> P_Mark \<and> w_shm_name w (lab w p) = Some j \<longrightarrow> fresh_unless_marked (w_shm w j)) \<and>
     (\<forall>p j. pc_of w p = P_Init \<and> pr_shd (w_proc w p) = Some j \<longrightarrow> so_state (w_shm w j) = UNITILIZATED) \<and>
     (\<forall>p j. pc_of w p = P_Mark \<and> pr_shd (w_proc w p) = Some j \<longrightarrow> so_state (w_shm w j) = UNITILIZATED \<and> so_inits (w_shm w j) = 1) \<and>
     (\<forall>p j. opened (pc_of w p) \<and> pr_shd (w_proc w p) = Some j \<longrightarrow> so_state (w_shm w j) = OK)"

lemmas world_defs = sem_open_def shm_open_def sem_wait_def sem_post_def upd_proc_def upd_shm_def goto_def
  sock_lock_step_def sock_unlock_step_def

lemma pr_label_upd [simp]:
  "pr_label (P\<lparr>pr_pc := x\<rparr>) = pr_label P" "pr_label (P\<lparr>pr_lock := a\<rparr>) = pr_label P"
  "pr_label (P\<lparr>pr_shd := b\<rparr>) = pr_label P" "pr_label (P\<lparr>pr_mq := c\<rparr>) = pr_label P"
  by (simp_all add: pr_label_def)

lemma goto_sel [simp]:
  "w_proc (goto p pc w) q = (if q = p then (w_proc w p)\<lparr>pr_pc := pc\<rparr> else w_proc w q)"
  "w_sem_name (goto p pc w) = w_sem_name w" "w_sem (goto p pc w) = w_sem w" "w_sem_next (goto p pc w) = w_sem_next w"
  "w_shm_name (goto p pc w) = w_shm_name w" "w_shm (goto p pc w) = w_shm w" "w_shm_next (goto p pc w) = w_shm_next w"
  by (simp_all add: goto_def upd_proc_def)

text \<open>What a step of an opening process is.\<close>

lemma ctor_step_cases:
  assumes "ctor_step w w'"
  obtains
    (new) p sid attr where "pc_of w p = P_None" "w' = sock_ctor p sid attr w"
  | (exn) p h os where "pc_of w p \<in> {P_Lock, P_Open, P_Again, P_Mq, P_Unlock}" "h = holds (pc_of w p)" "w' = goto p (P_Exn h) (w\<lparr>w_mq := os\<rparr>)"
  | (sem_old) p i where "pc_of w p = P_Lock" "pr_lock (w_proc w p) = None" "w_sem_name w (lab w p) = Some i"
      "w' = upd_proc p (\<lambda>P. P\<lparr>pr_lock := Some i\<rparr>) w"
  | (sem_new) p where "pc_of w p = P_Lock" "pr_lock (w_proc w p) = None" "w_sem_name w (lab w p) = None"
      "w' = upd_proc p (\<lambda>P. P\<lparr>pr_lock := Some (w_sem_next w)\<rparr>) (snd (sem_open (lab w p) w))"
  | (wait) p i where "pc_of w p = P_Lock" "pr_lock (w_proc w p) = Some i" "w_sem w i \<noteq> 0"
      "w' = goto p P_Open (w\<lparr>w_sem := (w_sem w)(i := w_sem w i - 1)\<rparr>)"
  | (shm_old) p j where "pc_of w p = P_Open" "w_shm_name w (lab w p) = Some j"
      "w' = goto p P_Test (upd_proc p (\<lambda>P. P\<lparr>pr_shd := Some j\<rparr>) w)"
  | (shm_new) p where "pc_of w p = P_Open" "w_shm_name w (lab w p) = None"
      "w' = goto p P_Test (upd_proc p (\<lambda>P. P\<lparr>pr_shd := Some (w_shm_next w)\<rparr>) (snd (shm_open (lab w p) w)))"
  | (test) p where "pc_of w p = P_Test"
      "w' = goto p (case so_state (w_shm w (the (pr_shd (w_proc w p)))) of
               UNLINKED \<Rightarrow> P_Again | UNITILIZATED \<Rightarrow> P_Init | OK \<Rightarrow> P_Load) w"
  | (init) p where "pc_of w p = P_Init" "w' = goto p P_Mark (upd_shm (the (pr_shd (w_proc w p))) guard_init w)"
  | (mark) p where "pc_of w p = P_Mark"
      "w' = goto p P_Mq (upd_shm (the (pr_shd (w_proc w p))) (\<lambda>s. s\<lparr>so_state := OK\<rparr>) w)"
  | (mq) p q os where "pc_of w p = P_Mq"
      "w' = goto p P_Unlock (upd_proc p (\<lambda>P. P\<lparr>pr_mq := Some q\<rparr>) (w\<lparr>w_mq := os\<rparr>))"
  | (load) p where "pc_of w p = P_Load" "w' = goto p P_Unlock w"
  | (post) p pc' where "(pc_of w p, pc') \<in> {(P_Again, P_Lock), (P_Unlock, P_Ready)}"
      "w' = goto p pc' (sem_post (the (pr_lock (w_proc w p))) w)"
  using assms
proof cases
  case (new p sid attr)
  then show ?thesis using that(1) by (auto simp: sock_exec_def split: if_splits)
next
  case (step ok p)
  show ?thesis
  proof (cases "pc_of w p")
    case P_Lock
    with step show ?thesis
      using that(2) [of p False "w_mq w"] that(3,4,5) [of p]
      by (auto simp: reopen_step_def sock_lock_step_def Let_def sem_open_def sem_wait_def split: option.splits if_splits)
  next
    case P_Open
    with step show ?thesis
      using that(2) [of p True "w_mq w"] that(6,7) [of p]
      by (auto simp: reopen_step_def Let_def shm_open_def split: option.splits if_splits)
  next
    case P_Mq
    with step show ?thesis
      using that(2) [of p True] that(11) [of p]
      by (auto simp: reopen_step_def Let_def split: sum.splits prod.splits)
  qed (use step that(2) [of p True "w_mq w"] that(8-10,12,13) [of p] in
      \<open>auto simp: reopen_step_def Let_def sock_unlock_step_def split: if_splits\<close>)
qed

lemma names_ok_new:
  assumes "names_ok m n" and "m l = None"
  shows "names_ok (m(l \<mapsto> n)) (Suc n)"
proof -
  have "i \<noteq> n" if "m l' = Some i" for l' i using assms(1) that by (auto simp: names_ok_def)
  then show ?thesis using assms by (auto simp: names_ok_def less_Suc_eq)
qed

lemma names_step:
  assumes "names_inv w" and "ctor_step w w'"
  shows "names_inv w'"
  using assms(2)
proof (cases rule: ctor_step_cases)
  case (sem_new p)
  then show ?thesis using assms(1)
    by (auto simp: names_inv_def sem_open_def upd_proc_def intro: names_ok_new) (metis option.distinct(1))
next
  case (shm_new p)
  have "holds (pc_of w p)" using shm_new(1) by simp
  then have "w_sem_name w (lab w p) \<noteq> None" using assms(1) unfolding names_inv_def by force
  moreover have "pr_shd (w_proc w q) = None" if "lab w q = lab w p" for q
    using assms(1) shm_new(2) that unfolding names_inv_def by (metis not_None_eq option.distinct(1))
  ultimately show ?thesis using shm_new assms(1)
    by (auto simp: names_inv_def shm_open_def upd_proc_def intro: names_ok_new)
next
  case (test p)
  then show ?thesis using assms(1) by (auto simp: names_inv_def split: shm_state.splits)
qed (use assms(1) in \<open>auto simp: names_inv_def upd_proc_def upd_shm_def sem_post_def sock_ctor_def\<close>)

lemma holder_sem: "mutex_inv w \<Longrightarrow> holds (pc_of w p) \<Longrightarrow> w_sem_name w (lab w p) = Some i \<Longrightarrow> w_sem w i = 0"
  by (simp add: mutex_inv_def)

lemma holder_unique: "mutex_inv w \<Longrightarrow> holds (pc_of w p) \<Longrightarrow> holds (pc_of w q) \<Longrightarrow> lab w p = lab w q \<Longrightarrow> p = q"
  by (simp add: mutex_inv_def)

lemma holder_fresh:
  "init_inv w \<Longrightarrow> holds (pc_of w p) \<Longrightarrow> pc_of w p \<noteq> P_Mark \<Longrightarrow> w_shm_name w (lab w p) = Some j \<Longrightarrow> fresh_unless_marked (w_shm w j)"
  by (simp add: init_inv_def)

lemma mapped_shd:
  assumes "names_inv w" and "mapped (pc_of w p)"
  obtains j where "pr_shd (w_proc w p) = Some j" "w_shm_name w (lab w p) = Some j"
    "\<And>l. l \<noteq> lab w p \<Longrightarrow> w_shm_name w l \<noteq> Some j" "\<And>q. lab w q \<noteq> lab w p \<Longrightarrow> pr_shd (w_proc w q) \<noteq> Some j"
proof -
  obtain j where j: "pr_shd (w_proc w p) = Some j" using assms unfolding names_inv_def by (meson not_None_eq)
  then have l: "w_shm_name w (lab w p) = Some j" using assms(1) by (simp add: names_inv_def)
  have u: "l' \<noteq> lab w p \<Longrightarrow> w_shm_name w l' \<noteq> Some j" for l'
    using assms(1) l unfolding names_inv_def names_ok_def by blast
  have "lab w q \<noteq> lab w p \<Longrightarrow> pr_shd (w_proc w q) \<noteq> Some j" for q
    using assms(1) u unfolding names_inv_def by blast
  with that [OF j l] u show ?thesis by blast
qed

lemma holder_lock:
  assumes "names_inv w" and "holds (pc_of w p)"
  obtains i where "pr_lock (w_proc w p) = Some i" "w_sem_name w (lab w p) = Some i"
    "\<And>l. l \<noteq> lab w p \<Longrightarrow> w_sem_name w l \<noteq> Some i"
proof -
  obtain i where i: "pr_lock (w_proc w p) = Some i" using assms unfolding names_inv_def by (meson not_None_eq)
  then have l: "w_sem_name w (lab w p) = Some i" using assms(1) by (simp add: names_inv_def)
  have "l' \<noteq> lab w p \<Longrightarrow> w_sem_name w l' \<noteq> Some i" for l'
    using assms(1) l unfolding names_inv_def names_ok_def by blast
  with that [OF i l] show ?thesis by blast
qed

text \<open>While a process holds a label's semaphore, no other holder or free semaphore leads to its object.\<close>

lemma holder_excl:
  assumes "names_inv w" and "mutex_inv w" and "holds (pc_of w p)" and "w_shm_name w (lab w p) = Some j"
  shows "w_sem_name w l = Some i \<Longrightarrow> 0 < w_sem w i \<Longrightarrow> w_shm_name w l \<noteq> Some j"
    and "q \<noteq> p \<Longrightarrow> holds (pc_of w q) \<Longrightarrow> w_shm_name w (lab w q) \<noteq> Some j"
    and "q \<noteq> p \<Longrightarrow> holds (pc_of w q) \<Longrightarrow> pr_shd (w_proc w q) \<noteq> Some j"
proof -
  have u: "l' = lab w p" if "w_shm_name w l' = Some j" for l'
    using assms(1,4) that unfolding names_inv_def names_ok_def by blast
  show "w_sem_name w l = Some i \<Longrightarrow> 0 < w_sem w i \<Longrightarrow> w_shm_name w l \<noteq> Some j"
    using u [of l] holder_sem [OF assms(2,3), of i] by (metis less_irrefl)
  show two: "q \<noteq> p \<Longrightarrow> holds (pc_of w q) \<Longrightarrow> w_shm_name w (lab w q) \<noteq> Some j"
    using u [of "lab w q"] holder_unique [OF assms(2,3), of q] by metis
  show "q \<noteq> p \<Longrightarrow> holds (pc_of w q) \<Longrightarrow> pr_shd (w_proc w q) \<noteq> Some j"
    using two assms(1) unfolding names_inv_def by metis
qed

lemma mutex_same:
  assumes "\<And>q. holds (pc_of w' q) = holds (pc_of w q)" and "\<And>q. lab w' q = lab w q"
    and "w_sem_name w' = w_sem_name w" and "w_sem w' = w_sem w" and "mutex_inv w"
  shows "mutex_inv w'"
  using assms(5) by (simp add: mutex_inv_def assms(1-4))

lemma mutex_step:
  assumes n: "names_inv w" and m: "mutex_inv w" and "ctor_step w w'"
  shows "mutex_inv w'"
  using assms(3)
proof (cases rule: ctor_step_cases)
  case (sem_new p)
  have "\<not> holds (pc_of w q)" if "lab w q = lab w p" for q
    using n sem_new(3) that unfolding names_inv_def by (metis not_None_eq option.distinct(1))
  moreover have "i \<noteq> w_sem_next w" if "w_sem_name w l = Some i" for l i
    using n that by (auto simp: names_inv_def names_ok_def)
  ultimately show ?thesis using sem_new m
    by (auto simp: mutex_inv_def sem_open_def upd_proc_def)
next
  case (shm_new p)
  moreover have "w_sem w i = 0" if "w_sem_name w (lab w p) = Some i" for i
    using holder_sem [OF m _ that] shm_new(1) by simp
  ultimately show ?thesis using m by (auto simp: mutex_inv_def shm_open_def upd_proc_def)
next
  case (wait p i)
  have i: "w_sem_name w (lab w p) = Some i" using n wait(2) by (simp add: names_inv_def)
  with wait(3) have free: "\<not> holds (pc_of w q)" if "lab w q = lab w p" for q
    using m that unfolding mutex_inv_def by metis
  have "w_sem_name w l \<noteq> Some i" if "l \<noteq> lab w p" for l
    using n i that unfolding names_inv_def names_ok_def by blast
  note other = this
  have one: "w_sem w i \<le> 1" using m i by (auto simp: mutex_inv_def)
  have sel: "pc_of w' q = (if q = p then P_Open else pc_of w q)" "lab w' q = lab w q" "w_sem_name w' = w_sem_name w"
      "w_sem w' = (w_sem w)(i := w_sem w i - 1)" for q
    unfolding wait(4) by simp_all
  show ?thesis
    unfolding mutex_inv_def sel
  proof (intro conjI allI impI)
    fix a b
    assume "holds (if a = p then P_Open else pc_of w a) \<and> holds (if b = p then P_Open else pc_of w b) \<and> lab w a = lab w b"
    then show "a = b"
      using free [of a] free [of b] holder_unique [OF m, of a b] by (cases "a = p"; cases "b = p") simp_all
  next
    fix a k
    assume "holds (if a = p then P_Open else pc_of w a) \<and> w_sem_name w (lab w a) = Some k"
    then show "((w_sem w)(i := w_sem w i - 1)) k = 0"
      using one i holder_sem [OF m, of a k] by (cases "a = p") simp_all
  next
    fix l k
    assume "w_sem_name w l = Some k"
    then show "((w_sem w)(i := w_sem w i - 1)) k \<le> 1"
      using one m by (simp add: mutex_inv_def)
  qed
next
  case (test p)
  have "holds (pc_of w' q) = holds (pc_of w q)" "lab w' q = lab w q" for q
    unfolding test(2) using test(1) by (simp_all split: shm_state.split)
  then show ?thesis by (rule mutex_same) (simp_all add: test(2) m)
next
  case (post p pc')
  then have h: "holds (pc_of w p)" by auto
  then obtain i where i: "pr_lock (w_proc w p) = Some i" "w_sem_name w (lab w p) = Some i"
      "\<And>l. l \<noteq> lab w p \<Longrightarrow> w_sem_name w l \<noteq> Some i"
    using holder_lock [OF n] by blast
  have free: "\<not> holds (pc_of w q)" if "lab w q = lab w p" "q \<noteq> p" for q
    using holder_unique [OF m h] that by metis
  have zero: "w_sem w i = 0" using holder_sem [OF m h i(2)] .
  have np: "\<not> holds pc'" using post(1) by auto
  have sel: "pc_of w' q = (if q = p then pc' else pc_of w q)" "lab w' q = lab w q" "w_sem_name w' = w_sem_name w"
      "w_sem w' = (w_sem w)(i := 1)" for q
    unfolding post(2) i(1) using zero by (simp_all add: sem_post_def)
  show ?thesis
    unfolding mutex_inv_def sel
  proof (intro conjI allI impI)
    fix a b
    assume "holds (if a = p then pc' else pc_of w a) \<and> holds (if b = p then pc' else pc_of w b) \<and> lab w a = lab w b"
    then show "a = b"
      using np holder_unique [OF m, of a b] by (cases "a = p"; cases "b = p") simp_all
  next
    fix a k
    assume "holds (if a = p then pc' else pc_of w a) \<and> w_sem_name w (lab w a) = Some k"
    then show "((w_sem w)(i := 1)) k = 0"
      using np free [of a] i(3) [of "lab w a"] holder_sem [OF m, of a k]
      by (cases "a = p"; cases "k = i"; cases "lab w a = lab w p") simp_all
  next
    fix l k
    assume "w_sem_name w l = Some k"
    then show "((w_sem w)(i := 1)) k \<le> 1" using m by (simp add: mutex_inv_def)
  qed
next
  case (new p sid attr)
  have sel: "holds (pc_of w' q) \<longleftrightarrow> q \<noteq> p \<and> holds (pc_of w q)" "q \<noteq> p \<Longrightarrow> lab w' q = lab w q" for q
    unfolding new(2) by (simp_all add: sock_ctor_def)
  have sem: "w_sem_name w' = w_sem_name w" "w_sem w' = w_sem w" unfolding new(2) by (simp_all add: sock_ctor_def)
  show ?thesis
    using m sel(2) unfolding mutex_inv_def sem sel(1) by metis
qed (rule mutex_same [OF _ _ _ _ m]; auto simp: upd_proc_def upd_shm_def; fail)+

lemma opened_ok: "init_inv w \<Longrightarrow> opened (pc_of w p) \<Longrightarrow> pr_shd (w_proc w p) = Some j \<Longrightarrow> so_state (w_shm w j) = OK"
  by (simp add: init_inv_def)

lemma init_step:
  assumes n: "names_inv w" and m: "mutex_inv w" and c: "init_inv w" and "ctor_step w w'"
  shows "init_inv w'"
  using assms(4)
proof (cases rule: ctor_step_cases)
  case (sem_new p)
  have "w_shm_name w (lab w p) = None" using n sem_new(3) unfolding names_inv_def by metis
  moreover have "i \<noteq> w_sem_next w" if "w_sem_name w l = Some i" for l i
    using n that by (auto simp: names_inv_def names_ok_def)
  ultimately show ?thesis using sem_new c
    by (auto simp: init_inv_def sem_open_def upd_proc_def)
next
  case (wait p i)
  have i: "w_sem_name w (lab w p) = Some i" using n wait(2) by (simp add: names_inv_def)
  with wait(3) have "fresh_unless_marked (w_shm w j)" if "w_shm_name w (lab w p) = Some j" for j
    using c that unfolding init_inv_def by blast
  then show ?thesis using wait c by (auto simp: init_inv_def)
next
  case (shm_old p j)
  moreover have "fresh_unless_marked (w_shm w j)"
    using holder_fresh [OF c _ _ shm_old(2)] shm_old(1) by simp
  ultimately show ?thesis using c by (auto simp: init_inv_def upd_proc_def)
next
  case (shm_new p)
  have "j \<noteq> w_shm_next w" if "w_shm_name w l = Some j" for l j
    using n that by (auto simp: names_inv_def names_ok_def)
  moreover from this have "pr_shd (w_proc w q) \<noteq> Some (w_shm_next w)" for q
    using n unfolding names_inv_def by blast
  moreover have "fresh_unless_marked zero_shm" by (simp add: fresh_unless_marked_def zero_shm_def)
  ultimately show ?thesis using shm_new c by (auto simp: init_inv_def shm_open_def upd_proc_def)
next
  case (test p)
  obtain j where j: "pr_shd (w_proc w p) = Some j" "w_shm_name w (lab w p) = Some j"
    using mapped_shd [OF n, of p] test(1) by (metis mapped.simps(1))
  have "fresh_unless_marked (w_shm w j)" using holder_fresh [OF c _ _ j(2)] test(1) by simp
  then show ?thesis using test c j by (auto simp: init_inv_def fresh_unless_marked_def split: shm_state.splits)
next
  case (init p)
  obtain j where j: "pr_shd (w_proc w p) = Some j" "w_shm_name w (lab w p) = Some j"
      "\<And>l. l \<noteq> lab w p \<Longrightarrow> w_shm_name w l \<noteq> Some j" "\<And>q. lab w q \<noteq> lab w p \<Longrightarrow> pr_shd (w_proc w q) \<noteq> Some j"
    using mapped_shd [OF n, of p] init(1) by (metis mapped.simps(3))
  have "fresh_unless_marked (w_shm w j)" using holder_fresh [OF c _ _ j(2)] init(1) by simp
  moreover have "so_state (w_shm w j) = UNITILIZATED" using c init(1) j(1) by (simp add: init_inv_def)
  ultimately have s: "so_state (guard_init (w_shm w j)) = UNITILIZATED" "so_inits (guard_init (w_shm w j)) = 1"
    by (simp_all add: fresh_unless_marked_def guard_init_def)
  note ex = holder_excl [OF n m _ j(2)]
  have "\<not> opened (pc_of w q)" if "pr_shd (w_proc w q) = Some j" for q
    using c that \<open>so_state (w_shm w j) = UNITILIZATED\<close> unfolding init_inv_def by fastforce
  moreover have "w_shm_name w l \<noteq> Some j" if "w_sem_name w l = Some i" "0 < w_sem w i" for l i
    using ex(1) [OF _ that] init(1) by simp
  moreover have "w_shm_name w (lab w q) \<noteq> Some j" "pr_shd (w_proc w q) \<noteq> Some j" if "q \<noteq> p" "holds (pc_of w q)" for q
    using ex(2,3) [OF _ that] init(1) by simp_all
  ultimately show ?thesis using init c j(1,2) s by (auto simp: init_inv_def upd_shm_def)
next
  case (mark p)
  obtain j where j: "pr_shd (w_proc w p) = Some j" "w_shm_name w (lab w p) = Some j"
    using mapped_shd [OF n, of p] mark(1) by (metis mapped.simps(4))
  have s: "so_state (w_shm w j) = UNITILIZATED" "so_inits (w_shm w j) = 1" using c mark(1) j(1) by (simp_all add: init_inv_def)
  then have f: "fresh_unless_marked ((w_shm w j)\<lparr>so_state := OK\<rparr>)" by (simp add: fresh_unless_marked_def)
  have "pr_shd (w_proc w q) \<noteq> Some j" if "q \<noteq> p" "holds (pc_of w q)" for q
    using holder_excl(3) [OF n m _ j(2) that] mark(1) by simp
  then show ?thesis using mark c j f by (auto simp: init_inv_def upd_shm_def)
next
  case (exn p h os)
  have "fresh_unless_marked (w_shm w j)" if "h" "w_shm_name w (lab w p) = Some j" for j
    using holder_fresh [OF c _ _ that(2)] exn(1,2) that(1) by auto
  then show ?thesis using exn c by (auto simp: init_inv_def)
next
  case (mq p q os)
  have "fresh_unless_marked (w_shm w j)" if "w_shm_name w (lab w p) = Some j" for j
    using holder_fresh [OF c _ _ that] mq(1) by simp
  moreover have "so_state (w_shm w j) = OK" if "pr_shd (w_proc w p) = Some j" for j
    using opened_ok [OF c _ that] mq(1) by simp
  ultimately show ?thesis using mq c by (auto simp: init_inv_def upd_proc_def)
next
  case (load p)
  have "fresh_unless_marked (w_shm w j)" if "w_shm_name w (lab w p) = Some j" for j
    using holder_fresh [OF c _ _ that] load(1) by simp
  moreover have "so_state (w_shm w j) = OK" if "pr_shd (w_proc w p) = Some j" for j
    using opened_ok [OF c _ that] load(1) by simp
  ultimately show ?thesis using load c by (auto simp: init_inv_def)
next
  case (post p pc')
  then have h: "holds (pc_of w p)" "pc_of w p \<noteq> P_Mark" by auto
  then obtain i where i: "pr_lock (w_proc w p) = Some i" "w_sem_name w (lab w p) = Some i"
      "\<And>l. l \<noteq> lab w p \<Longrightarrow> w_sem_name w l \<noteq> Some i"
    using holder_lock [OF n] by blast
  have "fresh_unless_marked (w_shm w j)" if "w_sem_name w l = Some i" "w_shm_name w l = Some j" for j l
    using holder_fresh [OF c h, of j] i(3) [of l] that by auto
  moreover have "so_state (w_shm w j) = OK" if "pc' = P_Ready" "pr_shd (w_proc w p) = Some j" for j
    using opened_ok [OF c _ that(2)] post(1) that(1) by auto
  ultimately show ?thesis using post c i(1) by (auto simp: init_inv_def sem_post_def)
qed (use c in \<open>auto simp: init_inv_def upd_proc_def sock_ctor_def\<close>)

text \<open>The process that initialised the object is the only one that gets a queue, and there is one such process.\<close>

definition creator :: "proc \<Rightarrow> bool" where
  "creator P \<longleftrightarrow> pr_pc P = P_Mark \<or> pr_pc P = P_Mq \<or> pr_mq P \<noteq> None"

definition once_inv :: "world \<Rightarrow> bool" where
  "once_inv w \<longleftrightarrow>
     (\<forall>p q. creator (w_proc w p) \<and> creator (w_proc w q) \<and> lab w p = lab w q \<longrightarrow> p = q) \<and>
     (\<forall>p. creator (w_proc w p) \<longrightarrow> pr_shd (w_proc w p) \<noteq> None \<and> so_inits (w_shm w (the (pr_shd (w_proc w p)))) \<noteq> 0) \<and>
     (\<forall>l j. w_shm_name w l = Some j \<and> so_state (w_shm w j) = OK \<longrightarrow> so_inits (w_shm w j) = 1)"

lemma once_keep:
  assumes "\<And>q. creator (w_proc w' q) \<Longrightarrow> creator (w_proc w q) \<and> lab w' q = lab w q \<and> pr_shd (w_proc w' q) = pr_shd (w_proc w q)"
    and "\<And>q. creator (w_proc w q) \<Longrightarrow> so_inits (w_shm w' (the (pr_shd (w_proc w q)))) \<noteq> 0"
    and "\<And>l j. w_shm_name w' l = Some j \<Longrightarrow> so_state (w_shm w' j) = OK \<Longrightarrow> so_inits (w_shm w' j) = 1"
    and "once_inv w"
  shows "once_inv w'"
  using assms(4) unfolding once_inv_def by (metis assms(1-3))

lemma once_same:
  assumes "\<And>q. creator (w_proc w' q) \<Longrightarrow> creator (w_proc w q) \<and> lab w' q = lab w q \<and> pr_shd (w_proc w' q) = pr_shd (w_proc w q)"
    and "w_shm_name w' = w_shm_name w" and "w_shm w' = w_shm w" and "once_inv w"
  shows "once_inv w'"
  by (rule once_keep [OF assms(1) _ _ assms(4)]) (use assms(2-4) in \<open>auto simp: once_inv_def\<close>)

lemma once_step:
  assumes n: "names_inv w" and m: "mutex_inv w" and c: "init_inv w" and o: "once_inv w" and "ctor_step w w'"
  shows "once_inv w'"
  using assms(5)
proof (cases rule: ctor_step_cases)
  case (shm_old p j)
  have "pr_shd (w_proc w p) = Some j" if cr: "creator (w_proc w p)"
  proof -
    obtain k where k: "pr_shd (w_proc w p) = Some k" using cr o by (auto simp: once_inv_def)
    then have "w_shm_name w (lab w p) = Some k" using n by (simp add: names_inv_def)
    with k shm_old(2) show ?thesis by simp
  qed
  then show ?thesis
    by (intro once_same [OF _ _ _ o]) (auto simp: shm_old(3) upd_proc_def creator_def shm_old(1))
next
  case (shm_new p)
  have new: "w_shm_name w l \<noteq> Some (w_shm_next w)" "pr_shd (w_proc w q) \<noteq> Some (w_shm_next w)" for l q
    using n unfolding names_inv_def names_ok_def by blast+
  have p: "\<not> creator (w_proc w p)"
    using o n shm_new(2) unfolding once_inv_def names_inv_def by (metis not_None_eq option.distinct(1))
  have "w_shm w' = (w_shm w)(w_shm_next w := zero_shm)" "w_shm_name w' = (w_shm_name w)(lab w p \<mapsto> w_shm_next w)"
      and proc: "w_proc w' q = (if q = p then (w_proc w p)\<lparr>pr_shd := Some (w_shm_next w), pr_pc := P_Test\<rparr> else w_proc w q)" for q
    using shm_new(2) by (auto simp: shm_new(3) shm_open_def upd_proc_def)
  note sel = this
  show ?thesis
  proof (rule once_keep [OF _ _ _ o])
    show "creator (w_proc w' q) \<Longrightarrow> creator (w_proc w q) \<and> lab w' q = lab w q \<and> pr_shd (w_proc w' q) = pr_shd (w_proc w q)" for q
      using p by (simp add: sel creator_def shm_new(1) split: if_splits)
    show "creator (w_proc w q) \<Longrightarrow> so_inits (w_shm w' (the (pr_shd (w_proc w q)))) \<noteq> 0" for q
      using o new(2) [of q] by (auto simp: sel once_inv_def)
    show "w_shm_name w' l = Some j \<Longrightarrow> so_state (w_shm w' j) = OK \<Longrightarrow> so_inits (w_shm w' j) = 1" for l j
      using o new(1) by (auto simp: sel once_inv_def zero_shm_def split: if_splits)
  qed
next
  case (init p)
  obtain j where j: "pr_shd (w_proc w p) = Some j" "w_shm_name w (lab w p) = Some j"
      "\<And>q. lab w q \<noteq> lab w p \<Longrightarrow> pr_shd (w_proc w q) \<noteq> Some j"
    using mapped_shd [OF n, of p] init(1) by (metis mapped.simps(3))
  have "fresh_unless_marked (w_shm w j)" using holder_fresh [OF c _ _ j(2)] init(1) by simp
  moreover have st: "so_state (w_shm w j) = UNITILIZATED" using c init(1) j(1) by (simp add: init_inv_def)
  ultimately have z: "so_inits (w_shm w j) = 0" by (simp add: fresh_unless_marked_def)
  have no: "\<not> creator (w_proc w q)" if "lab w q = lab w p" for q
  proof
    assume "creator (w_proc w q)"
    then obtain k where "pr_shd (w_proc w q) = Some k" "so_inits (w_shm w k) \<noteq> 0" using o by (auto simp: once_inv_def)
    moreover from this(1) have "k = j" using n j(2) that unfolding names_inv_def by (metis option.inject)
    ultimately show False using z by simp
  qed
  have sel: "w_proc w' q = (if q = p then (w_proc w p)\<lparr>pr_pc := P_Mark\<rparr> else w_proc w q)"
      "w_shm w' = (w_shm w)(j := guard_init (w_shm w j))" "w_shm_name w' = w_shm_name w" for q
    by (simp_all add: init(2) j(1) upd_shm_def)
  have cr: "creator (w_proc w' q) \<longleftrightarrow> q = p \<or> creator (w_proc w q)" for q
    by (simp add: sel creator_def)
  have lab: "lab w' q = lab w q" "pr_shd (w_proc w' q) = pr_shd (w_proc w q)" for q by (simp_all add: sel)
  show ?thesis
    unfolding once_inv_def cr lab sel(2,3)
  proof (intro conjI allI impI)
    fix a b
    assume "(a = p \<or> creator (w_proc w a)) \<and> (b = p \<or> creator (w_proc w b)) \<and> lab w a = lab w b"
    then show "a = b" using no [of a] no [of b] o by (auto simp: once_inv_def)
  next
    fix a
    assume "a = p \<or> creator (w_proc w a)"
    then show "pr_shd (w_proc w a) \<noteq> None" "so_inits (((w_shm w)(j := guard_init (w_shm w j))) (the (pr_shd (w_proc w a)))) \<noteq> 0"
      using o j(1) by (auto simp: once_inv_def guard_init_def)
  next
    fix l k
    assume "w_shm_name w l = Some k \<and> so_state (((w_shm w)(j := guard_init (w_shm w j))) k) = OK"
    then show "so_inits (((w_shm w)(j := guard_init (w_shm w j))) k) = 1"
      using o st by (auto simp: once_inv_def guard_init_def split: if_splits)
  qed
next
  case (mark p)
  obtain j where j: "pr_shd (w_proc w p) = Some j" using mapped_shd [OF n, of p] mark(1) by (metis mapped.simps(4))
  have "so_inits (w_shm w j) = 1" using c mark(1) j by (simp add: init_inv_def)
  moreover have "w_shm w' = (w_shm w)(j := (w_shm w j)\<lparr>so_state := OK\<rparr>)" "w_shm_name w' = w_shm_name w"
    "creator (w_proc w' q) = creator (w_proc w q)" "lab w' q = lab w q" "pr_shd (w_proc w' q) = pr_shd (w_proc w q)" for q
    using mark(1) by (auto simp: mark(2) j creator_def upd_shm_def)
  ultimately show ?thesis by (intro once_keep [OF _ _ _ o]) (use o in \<open>auto simp: once_inv_def split: if_splits\<close>)
qed (rule once_same [OF _ _ _ o]; auto simp: creator_def upd_proc_def sock_ctor_def sem_open_def sem_post_def split: shm_state.splits; fail)+

definition ctor_inv :: "world \<Rightarrow> bool" where
  "ctor_inv w \<longleftrightarrow> names_inv w \<and> mutex_inv w \<and> init_inv w \<and> once_inv w"

lemma ctor_inv_start: "ctor_start w \<Longrightarrow> ctor_inv w"
  by (auto simp: ctor_start_def ctor_inv_def names_inv_def mutex_inv_def init_inv_def once_inv_def names_ok_def creator_def
      empty_world_def no_proc_def)

interpretation sk: inv_system ctor_start ctor_step ctor_inv
proof
  show "ctor_start w \<Longrightarrow> ctor_inv w" for w by (rule ctor_inv_start)
  show "ctor_inv w \<Longrightarrow> ctor_step w w' \<Longrightarrow> ctor_inv w'" for w w'
    unfolding ctor_inv_def using names_step mutex_step init_step once_step by blast
qed

text \<open>A schedule without closing sockets is a run of \<open>ctor_step\<close>.\<close>

fun closing :: "ppc \<Rightarrow> bool" where
  "closing D_Lock = True" | "closing (D_Inner i) = True" | "closing D_Sem_unlink = True" | "closing D_Shm_unlink = True"
| "closing D_Mark = True" | "closing (D_Outer i) = True" | "closing D_Unlock = True" | "closing D_Close = True" | "closing _ = False"

lemma step_ctor: "\<not> closing (pc_of w p) \<Longrightarrow> sock_exec (Step p ok) w = Some w' \<Longrightarrow> ctor_step w w'"
  by (cases "pc_of w p") (auto simp: sock_exec_def dtor_step_def Let_def intro: ctor_step.step split: option.splits)

lemma ctor_step_closing:
  assumes "ctor_step w w'" and "\<not> closing (pc_of w q)"
  shows "\<not> closing (pc_of w' q)"
  using assms(1)
proof (cases rule: ctor_step_cases)
  case (test p)
  then show ?thesis using assms(2) by (auto split: shm_state.splits)
qed (use assms(2) in \<open>auto simp: upd_proc_def upd_shm_def sock_ctor_def sem_open_def shm_open_def sem_post_def split: option.splits\<close>)

definition no_delete :: "sock_event \<Rightarrow> bool" where
  "no_delete e = (case e of Delete p \<Rightarrow> False | _ \<Rightarrow> True)"

lemma sock_run_ctor:
  "sock_run es w = Some w' \<Longrightarrow> list_all no_delete es \<Longrightarrow> (\<And>q. \<not> closing (pc_of w q)) \<Longrightarrow> ctor_step\<^sup>*\<^sup>* w w'"
proof (induction es arbitrary: w)
  case (Cons e es)
  then obtain w1 where w1: "sock_exec e w = Some w1" "sock_run es w1 = Some w'" by (auto split: option.splits)
  have "ctor_step w w1"
    using Cons.prems(2,3) w1(1) by (cases e) (auto simp: no_delete_def intro: step_ctor ctor_step.new)
  moreover have "ctor_step\<^sup>*\<^sup>* w1 w'"
    using Cons.IH [OF w1(2)] Cons.prems(2) ctor_step_closing [OF \<open>ctor_step w w1\<close> Cons.prems(3)] by auto
  ultimately show ?case by (rule converse_rtranclp_into_rtranclp)
qed simp

text \<open>Evaluation of schedules.\<close>

lemmas run_simps = exec_New exec_Delete exec_open exec_close sock_ctor_def sock_lock_step_def sem_open_def sem_wait_def
  pr_label_def upd_proc_def shm_open_def goto_def zero_shm_def upd_shm_def sock_unlock_step_def sem_post_def guard_init_def
  guard_locks_def locks_num_def

lemma empty_world_closing: "\<not> closing (pc_of (empty_world os) q)"
  by (simp add: empty_world_def no_proc_def)

lemma mq_open_granted:
  assumes "mo_priv os" and "mo_rlim os \<noteq> None" and "mp_create param"
  shows "\<exists>q os'. sock_mq_open True param os = (Inr q, os') \<and> mo_priv os' \<and> mo_rlim os' \<noteq> None"
  using assms by (auto simp: sock_mq_open_def raise_mq_rlimit_def get_mq_rlimit_def set_mq_rlimit_def mq_open_def Let_def
      split: option.splits)

lemma close_granted: "mo_priv (sock_mq_close q os) = mo_priv os" "mo_rlim (sock_mq_close q os) = mo_rlim os"
  by (simp_all add: sock_mq_close_def)

definition open_events :: "nat \<Rightarrow> socket_identify \<Rightarrow> mq_attr \<Rightarrow> sock_event list" where
  "open_events p sid attr = New p sid attr # replicate 8 (Step p True)"

definition attach_events :: "nat \<Rightarrow> socket_identify \<Rightarrow> mq_attr \<Rightarrow> sock_event list" where
  "attach_events p sid attr = New p sid attr # replicate 6 (Step p True)"

lemma replicate_8: "replicate 8 x = [x, x, x, x, x, x, x, x]" and replicate_6: "replicate 6 x = [x, x, x, x, x, x]"
  by (simp_all add: numeral_eq_Suc)

lemma sock_run_append: "sock_run (es @ fs) w = (case sock_run es w of None \<Rightarrow> None | Some w' \<Rightarrow> sock_run fs w')"
  by (induction es arbitrary: w) (auto split: option.splits)

text \<open>A process alone opens a new label: it creates every object.\<close>

lemma open_fresh:
  assumes "pc_of w p = P_None" and "w_sem_name w (sock_label sid) = None" and "w_shm_name w (sock_label sid) = None"
    and "sock_mq_open True \<lparr>mp_id = sid, mp_create = True, mp_attr = attr\<rparr> (w_mq w) = (Inr q, os)"
  shows "sock_run (open_events p sid attr) w = Some (w\<lparr>
    w_sem_name := (w_sem_name w)(sock_label sid \<mapsto> w_sem_next w), w_sem := (w_sem w)(w_sem_next w := 1),
    w_sem_next := w_sem_next w + 1, w_shm_name := (w_shm_name w)(sock_label sid \<mapsto> w_shm_next w),
    w_shm := (w_shm w)(w_shm_next w := (guard_init zero_shm)\<lparr>so_state := OK\<rparr>), w_shm_next := w_shm_next w + 1, w_mq := os,
    w_proc := (w_proc w)(p := \<lparr>pr_pc = P_Ready, pr_param = \<lparr>mp_id = sid, mp_create = True, mp_attr = attr\<rparr>,
      pr_lock = Some (w_sem_next w), pr_shd = Some (w_shm_next w), pr_mq = Some q\<rparr>)\<rparr>)"
  using assms by (simp add: open_events_def replicate_8 run_simps)

text \<open>A process opens a label that is in use: it attaches, and has no queue.\<close>

lemma open_attach:
  assumes "pc_of w p = P_None" and "w_sem_name w (sock_label sid) = Some i" and "w_sem w i = 1"
    and "w_shm_name w (sock_label sid) = Some j" and "so_state (w_shm w j) = OK"
  shows "sock_run (attach_events p sid attr) w = Some (w\<lparr>
    w_proc := (w_proc w)(p := \<lparr>pr_pc = P_Ready, pr_param = \<lparr>mp_id = sid, mp_create = True, mp_attr = attr\<rparr>,
      pr_lock = Some i, pr_shd = Some j, pr_mq = None\<rparr>)\<rparr>)"
  using assms fun_upd_idem [of "w_sem w" i 1] by (cases w) (simp add: attach_events_def replicate_6 run_simps)

section \<open>Properties\<close>

text \<open>
  C18: opening sockets is safe in every interleaving of any number of processes, with any system call
  failing: at most one process is between \<open>__lock\<close> and \<open>__unlock\<close> of a label, and a process that has
  opened its socket is attached to the object that its label names, which was initialised exactly
  once.
\<close>

theorem sock_open_initialises_once:
  assumes "ctor_start w0" and "ctor_step\<^sup>*\<^sup>* w0 w"
  shows "(holds (pc_of w p) \<and> holds (pc_of w q) \<and> lab w p = lab w q \<longrightarrow> p = q) \<and>
    (pc_of w p = P_Ready \<longrightarrow> (\<exists>j. pr_shd (w_proc w p) = Some j \<and> w_shm_name w (lab w p) = Some j \<and>
       so_state (w_shm w j) = OK \<and> so_inits (w_shm w j) = 1))"
proof -
  have inv: "names_inv w" "mutex_inv w" "init_inv w" "once_inv w"
    using sk.reachable_inv [OF assms] by (simp_all add: ctor_inv_def)
  have "\<exists>j. pr_shd (w_proc w p) = Some j \<and> w_shm_name w (lab w p) = Some j \<and>
       so_state (w_shm w j) = OK \<and> so_inits (w_shm w j) = 1" if ready: "pc_of w p = P_Ready"
  proof -
    obtain j where j: "pr_shd (w_proc w p) = Some j" "w_shm_name w (lab w p) = Some j"
      using mapped_shd [OF inv(1), of p] ready by (metis mapped.simps(8))
    have "so_state (w_shm w j) = OK" using opened_ok [OF inv(3) _ j(1)] ready by simp
    with j inv(4) show ?thesis by (auto simp: once_inv_def)
  qed
  then show ?thesis using holder_unique [OF inv(2), of p q] by blast
qed

text \<open>A socket identity for the examples: port 80 to port 81 of the loopback address.\<close>

definition loop_id :: socket_identify where
  "loop_id = \<lparr>in_addr = \<lparr>sin_family = AF_INET, sin_addr = 16777343, sin_port = htons 80\<rparr>,
     out_addr = \<lparr>sin_family = AF_INET, sin_addr = 16777343, sin_port = htons 81\<rparr>\<rparr>"

theorem sock_open_initialises_once_witness:
  "\<exists>w j. ctor_step\<^sup>*\<^sup>* (empty_world small_mq_os) w \<and> pr_shd (w_proc w 0) = Some j \<and> so_state (w_shm w j) = OK \<and>
     so_inits (w_shm w j) = 1"
proof -
  let ?w = "empty_world small_mq_os" and ?P = "\<lparr>mp_id = loop_id, mp_create = True, mp_attr = default_mq_attr\<rparr>"
  obtain q os where q: "sock_mq_open True ?P (w_mq ?w) = (Inr q, os)"
    using mq_open_granted [of small_mq_os ?P] by (auto simp: empty_world_def small_mq_os_def)
  have "pc_of ?w 0 = P_None" "w_sem_name ?w (sock_label loop_id) = None" "w_shm_name ?w (sock_label loop_id) = None"
    by (simp_all add: empty_world_def no_proc_def)
  from open_fresh [OF this q] obtain w where w: "sock_run (open_events 0 loop_id default_mq_attr) ?w = Some w" "pc_of w 0 = P_Ready"
    by simp
  then have "ctor_step\<^sup>*\<^sup>* ?w w"
    using sock_run_ctor [OF w(1)] empty_world_closing by (simp add: open_events_def no_delete_def replicate_8)
  moreover have "ctor_start ?w" by (auto simp: ctor_start_def)
  ultimately show ?thesis using sock_open_initialises_once [of ?w w 0 0] w(2) by blast
qed

text \<open>
  of the processes that have opened the same socket, at most one can use its message queue; for
  every other one \<open>get_mq\<close> dereferences a null pointer.
\<close>

theorem sock_one_queue_per_label:
  assumes "ctor_start w0" and "ctor_step\<^sup>*\<^sup>* w0 w"
    and "pc_of w p = P_Ready" and "pc_of w q = P_Ready" and "p \<noteq> q" and "lab w p = lab w q"
  shows "get_mq p w = Inl Fault \<or> get_mq q w = Inl Fault"
proof -
  have "once_inv w" using sk.reachable_inv [OF assms(1,2)] by (simp add: ctor_inv_def)
  then have "\<not> (creator (w_proc w p) \<and> creator (w_proc w q))" using assms(5,6) unfolding once_inv_def by blast
  then show ?thesis by (auto simp: creator_def get_mq_def)
qed

theorem sock_one_queue_per_label_witness:
  "\<exists>w. sock_run (open_events 0 loop_id default_mq_attr @ attach_events 1 loop_id default_mq_attr) (empty_world small_mq_os) = Some w \<and>
     (get_mq 0 w = Inl Fault \<or> get_mq 1 w = Inl Fault)"
proof -
  let ?w = "empty_world small_mq_os" and ?P = "\<lparr>mp_id = loop_id, mp_create = True, mp_attr = default_mq_attr\<rparr>"
  let ?es = "open_events 0 loop_id default_mq_attr @ attach_events 1 loop_id default_mq_attr"
  obtain q os where q: "sock_mq_open True ?P small_mq_os = (Inr q, os)"
    using mq_open_granted [of small_mq_os ?P] by (auto simp: small_mq_os_def)
  then obtain w where w: "sock_run ?es ?w = Some w" "pc_of w 0 = P_Ready" "pc_of w 1 = P_Ready" "lab w 0 = lab w 1"
    by (simp add: open_events_def attach_events_def replicate_8 replicate_6 run_simps empty_world_def no_proc_def)
  have "ctor_step\<^sup>*\<^sup>* ?w w"
    using sock_run_ctor [OF w(1)] empty_world_closing
    by (simp add: open_events_def attach_events_def no_delete_def replicate_8 replicate_6)
  moreover have "ctor_start ?w" by (auto simp: ctor_start_def)
  ultimately show ?thesis using sock_one_queue_per_label [of ?w w 0 1] w by auto
qed

text \<open>
  an exception inside \<open>reopen\<close>, a failing \<open>shm_open\<close> or \<open>mq_open\<close> for example, leaves the label's
  semaphore taken: every other process that opens the same socket waits for ever.
\<close>

theorem sock_failed_open_blocks_label:
  assumes "ctor_start w0" and "ctor_step\<^sup>*\<^sup>* w0 w"
    and "pc_of w p = P_Exn True" and "pc_of w q = P_Lock" and "pr_lock (w_proc w q) \<noteq> None" and "lab w q = lab w p"
  shows "reopen_step True q w = None"
proof -
  have inv: "names_inv w" "mutex_inv w" using sk.reachable_inv [OF assms(1,2)] by (simp_all add: ctor_inv_def)
  obtain i where i: "pr_lock (w_proc w q) = Some i" using assms(5) by blast
  then have "w_sem_name w (lab w q) = Some i" using inv(1) by (simp add: names_inv_def)
  then have "w_sem_name w (lab w p) = Some i" by (simp add: assms(6))
  then have "w_sem w i = 0" using holder_sem [OF inv(2), of p] assms(3) by simp
  with i assms(4) show ?thesis by (simp add: reopen_step_def Let_def sock_lock_step_def sem_wait_def)
qed

theorem sock_failed_open_blocks_label_witness:
  "\<exists>w. sock_run [New 0 loop_id default_mq_attr, Step 0 True, Step 0 True, Step 0 False, New 1 loop_id default_mq_attr, Step 1 True]
     (empty_world small_mq_os) = Some w \<and> reopen_step True 1 w = None"
proof -
  let ?w = "empty_world small_mq_os"
  let ?es = "[New 0 loop_id default_mq_attr, Step 0 True, Step 0 True, Step 0 False, New 1 loop_id default_mq_attr, Step 1 True]"
  obtain w where w: "sock_run ?es ?w = Some w" "pc_of w 0 = P_Exn True" "pc_of w 1 = P_Lock" "pr_lock (w_proc w 1) \<noteq> None" "lab w 1 = lab w 0"
    by (simp add: run_simps empty_world_def no_proc_def)
  have "ctor_step\<^sup>*\<^sup>* ?w w" using sock_run_ctor [OF w(1)] empty_world_closing by (simp add: no_delete_def)
  moreover have "ctor_start ?w" by (auto simp: ctor_start_def)
  ultimately show ?thesis using sock_failed_open_blocks_label [of ?w w 0 1] w by auto
qed

text \<open>One process opens and closes a socket, a second one opens it meanwhile, a third one afterwards.\<close>

definition race_events :: "socket_identify \<Rightarrow> mq_attr \<Rightarrow> sock_event list" where
  "race_events sid attr =
     (let A = Step 0 True; B = Step 1 True; C = Step 2 True
      in [New 0 sid attr, A, A, A, A, A, A, A, A, New 1 sid attr, B,
          Delete 0, A, A, A, A, A, A, A, A, A, A, A, A, A, A, A, A, B, B, B,
          New 2 sid attr, C, C, C, C, B, B, B, B, C])"

text \<open>
  closing a socket while another process opens it breaks the mutual exclusion. The opener keeps
  the semaphore whose name the closing process removed; a third process creates a new one. The
  second process has its socket open when the third one initialises the same object again.
\<close>

theorem sock_reopen_race:
  assumes "mo_priv os" and "mo_rlim os \<noteq> None"
  shows "\<exists>w j. sock_run (race_events sid attr) (empty_world os) = Some w \<and> pc_of w 1 = P_Ready \<and>
    pr_shd (w_proc w 1) = Some j \<and> pr_shd (w_proc w 2) = Some j \<and> so_inits (w_shm w j) = 2"
proof -
  let ?P = "\<lparr>mp_id = sid, mp_create = True, mp_attr = attr\<rparr>"
  obtain q os1 where 1: "sock_mq_open True ?P os = (Inr q, os1)" "mo_priv os1" "mo_rlim os1 \<noteq> None"
    using mq_open_granted [OF assms, of ?P] by auto
  obtain q' os2 where 2: "sock_mq_open True ?P (sock_mq_close q os1) = (Inr q', os2)"
    using mq_open_granted [of "sock_mq_close q os1" ?P] 1 by (auto simp: close_granted)
  show ?thesis
    by (simp add: race_events_def Let_def run_simps empty_world_def no_proc_def 1 2)
qed

theorem sock_reopen_race_witness:
  "\<exists>w j. sock_run (race_events loop_id default_mq_attr) (empty_world small_mq_os) = Some w \<and> pc_of w 1 = P_Ready \<and>
    pr_shd (w_proc w 1) = Some j \<and> pr_shd (w_proc w 2) = Some j \<and> so_inits (w_shm w j) = 2"
  by (rule sock_reopen_race) (simp_all add: small_mq_os_def)

end
