(* ===== verification/Socket_Base.thy ===== *)
theory Socket_Base
  imports Sock_Shm Congestion
begin

text \<open>
  Sockets over the engine, \<open>src/newimpl.cpp\<close> lines 18 to 168 and 1045 to 1121: the classes
  \<open>socket_base\<close> and \<open>socket_sock_base\<close> (raw socket, checksum, the own message queue and the queues of
  the other sockets), the constructor of \<open>socket_full_impl\<close> and the server socket. What \<open>select\<close>,
  \<open>recvfrom\<close> and \<open>sendto\<close> return and the time are arguments; an operation that blocks in a message
  queue returns \<open>None\<close>.
\<close>

section \<open>socket\_base and socket\_sock\_base\<close>

record socket_base =
  sb_id :: socket_identify
  max_packet_sz :: size_t
  max_data_sz :: size_t

definition TCP_INPUT_MQ_MSGSIZE :: int where "TCP_INPUT_MQ_MSGSIZE = 65534 + int sizeof_TCP_PACKET"

definition socket_base_ctor ::
  "bool \<Rightarrow> bool \<Rightarrow> bool \<Rightarrow> (string \<Rightarrow> int option) \<Rightarrow> ifaddrs list \<Rightarrow> socket_identify \<Rightarrow> socket_base res" where
  "socket_base_ctor socket_ok setsockopt_ok bind_ok ioctl ifs sid =
     (if \<not> socket_ok then Inl (Runtime_error ''socket createt err'')
      else if \<not> setsockopt_ok then Inl (Runtime_error ''setsocktopt err'')
      else if \<not> bind_ok then Inl (Runtime_error ''bind socket err'')
      else case mtu_binded ioctl (in_addr sid) ifs TCP_INPUT_MQ_MSGSIZE of
             Inl e \<Rightarrow> Inl e
           | Inr m \<Rightarrow>
               (let sz = word_of_int m
                in Inr \<lparr>sb_id = sid, max_packet_sz = sz, max_data_sz = max_packet_data_size (sint (ucast sz :: 32 word))\<rparr>))"

text \<open>\<open>sk\<close> is the process's socket of the engine, by its number.\<close>

record socket_sock_base = socket_base +
  start_timestamp :: size_t
  sk :: nat

text \<open>The attributes of the queue that the constructor asks for.\<close>

definition base_mq_attr :: "socket_base \<Rightarrow> mq_attr" where
  "base_mq_attr b = default_tcp_mq_attr\<lparr>mq_msgsize := sint (max_packet_sz b)\<rparr>"

definition get_timestamp :: "size_t \<Rightarrow> socket_sock_base \<Rightarrow> size_t" where
  "get_timestamp sys_time b = sys_time - start_timestamp b"

definition get_mtu :: "socket_base \<Rightarrow> size_t" where
  "get_mtu b = max_data_sz b"

text \<open>The bytes that \<open>chsum\<close> reads, \<open>tcp_data_sz\<close> of them, must lie inside the message.\<close>

definition msg_chsum :: "msg \<Rightarrow> u16 res" where
  "msg_chsum m =
     (if unat (tcp_data_sz m) \<le> sizeof_TCPHDR + length (pbuf (packet m)) then Inr (chsum (tcp_data m)) else Inl Fault)"

definition check_msg_corruption :: "msg \<Rightarrow> bool res" where
  "check_msg_corruption m =
     (case msg_chsum (set_chsum 0 m) of
        Inl e \<Rightarrow> Inl e
      | Inr chsum_has \<Rightarrow> Inr (chsum_has \<noteq> get_chsum m))"

text \<open>\<open>socket_sock_base::send\<close>: the message as it is filled in, and what \<open>transfer_send_to\<close> makes of it.\<close>

definition base_send :: "size_t \<Rightarrow> int \<Rightarrow> socket_sock_base \<Rightarrow> msg \<Rightarrow> msg \<times> (sockaddr_in \<times> u8 list) res" where
  "base_send sys_time ret b m =
     (let m1 = set_dest_addr (out_addr (sb_id b)) (set_src_addr (in_addr (sb_id b)) m);
          ts = get_timestamp sys_time b;
          m2 = set_chsum 0 (set_sender_timestamp ts (set_recv_timestamp ts m1))
      in case msg_chsum m2 of
           Inl e \<Rightarrow> (m2, Inl e)
         | Inr c \<Rightarrow> (let m3 = set_chsum c m2 in (m3, transfer_send_to ret m3)))"

section \<open>Queues\<close>

text \<open>\<open>put_msg_to_q\<close>: the queue of the socket the packet is for; every exception is caught. The attributes
  in the parameter are not initialised (\<open>junk\<close>).\<close>

definition msg_socket_id :: "msg \<Rightarrow> socket_identify" where
  "msg_socket_id m = \<lparr>in_addr = get_dest_addr m, out_addr = get_src_addr m\<rparr>"

definition put_msg_to_q :: "mq_attr \<Rightarrow> msg \<Rightarrow> mq_os \<Rightarrow> mq_os option" where
  "put_msg_to_q junk m os =
     (case sock_mq_open False \<lparr>mp_id = msg_socket_id m, mp_create = False, mp_attr = junk\<rparr> os of
        (Inl e, os1) \<Rightarrow> Some os1
      | (Inr q, os1) \<Rightarrow>
          (if word_of_int (mq_msgsize (getattrs q os1)) < packet_sz m then Some os1
           else case put_msg q (packet_data m) 1 os1 of
                  None \<Rightarrow> None
                | Some (Inl e) \<Rightarrow> Some os1
                | Some (Inr os2) \<Rightarrow> Some os2))"

definition enqueue_msg :: "socket_sock_base \<Rightarrow> msg \<Rightarrow> world \<Rightarrow> world res option" where
  "enqueue_msg b m w =
     (case get_mq (sk b) w of
        Inl e \<Rightarrow> Some (Inl e)
      | Inr q \<Rightarrow>
          (case put_msg q (packet_data m) 1 (w_mq w) of
             None \<Rightarrow> None
           | Some (Inl e) \<Rightarrow> Some (Inl e)
           | Some (Inr os) \<Rightarrow> Some (Inr (w\<lparr>w_mq := os\<rparr>))))"

text \<open>Bytes received at \<open>packet_begin()\<close>.\<close>

definition fill_packet :: "u8 list \<Rightarrow> msg \<Rightarrow> msg" where
  "fill_packet bs m =
     (let img = mem_write (mem_write (\<lambda>_. 0) 0 (packet_bytes (packet m))) 0 bs
      in set_data_len (word_of_nat (length bs) - header_len)
           (m\<lparr>packet := load_packet img 0 (length (pbuf (packet m)))\<rparr>))"

text \<open>
  \<open>next_msg\<close>: \<open>sel\<close> is \<open>None\<close> when \<open>select\<close> failed, else says whether the raw socket and the own queue
  are ready; \<open>datagram\<close> is what \<open>recvfrom\<close> yields. The first part hands a packet of the raw socket on
  to the queue it belongs to, and keeps it in the message object; the second part reads the own queue.
\<close>

definition next_msg_raw :: "mq_attr \<Rightarrow> u8 list option \<Rightarrow> msg \<Rightarrow> mq_os \<Rightarrow> (msg \<times> mq_os) res option" where
  "next_msg_raw junk datagram m os =
     (case transfer_recvfrom datagram m of
        Inl e \<Rightarrow> Some (Inl e)
      | Inr m' \<Rightarrow>
          (case check_msg_corruption m' of
             Inl e \<Rightarrow> Some (Inl e)
           | Inr corrupt \<Rightarrow>
               (if corrupt then Some (Inr (m', os)) else map_option (\<lambda>os'. Inr (m', os')) (put_msg_to_q junk m' os))))"

definition next_msg_queue :: "socket_sock_base \<Rightarrow> msg \<Rightarrow> world \<Rightarrow> (msg res \<times> world) option" where
  "next_msg_queue b m w =
     (case get_mq (sk b) w of
        Inl e \<Rightarrow> Some (Inl e, w)
      | Inr q \<Rightarrow>
          (case get_msg q (unat (packet_sz m)) (w_mq w) of
             None \<Rightarrow> None
           | Some (Inl e) \<Rightarrow> Some (Inl e, w)
           | Some (Inr ((prio, bs), os)) \<Rightarrow> Some (Inr (fill_packet bs m), w\<lparr>w_mq := os\<rparr>)))"

definition sock_next_msg ::
  "(bool \<times> bool) option \<Rightarrow> u8 list option \<Rightarrow> mq_attr \<Rightarrow> socket_sock_base \<Rightarrow> world \<Rightarrow> (msg res \<times> world) option" where
  "sock_next_msg sel datagram junk b w =
     (case sel of
        None \<Rightarrow> Some (Inl (Fuck ''select''), w)
      | Some (raw, mq) \<Rightarrow>
          (let m = msg_new None (max_data_sz b)
           in if \<not> raw \<and> \<not> mq then Some (Inl Timeout, w)
              else case (if raw then next_msg_raw junk datagram m (w_mq w) else Some (Inr (m, w_mq w))) of
                     None \<Rightarrow> None
                   | Some (Inl e) \<Rightarrow> Some (Inl e, w)
                   | Some (Inr (m', os)) \<Rightarrow>
                       (let w' = w\<lparr>w_mq := os\<rparr>
                        in if mq then next_msg_queue b (cleanup_data_sz m') w' else Some (Inl Timeout, w'))))"

section \<open>The constructor of socket\_full\_impl and the server\<close>

text \<open>The constructor of \<open>sock\<close>, run without other processes in between; \<open>None\<close> when it blocks or throws.
  It needs at most 8 steps.\<close>

fun run_open :: "nat \<Rightarrow> nat \<Rightarrow> world \<Rightarrow> world option" where
  "run_open n p w =
     (if pr_pc (w_proc w p) = P_Ready then Some w
      else case n of
             0 \<Rightarrow> None
           | Suc k \<Rightarrow> (case reopen_step True p w of None \<Rightarrow> None | Some w' \<Rightarrow> run_open k p w'))"

declare run_open.simps [simp del]

text \<open>\<open>socket_full_impl::socket_full_impl\<close> after its base class: the engine's socket, then the MTU of a fresh
  congestion area.\<close>

definition full_ctor :: "nat \<Rightarrow> size_t \<Rightarrow> socket_base \<Rightarrow> world \<Rightarrow> (socket_sock_base \<times> world) option" where
  "full_ctor p now b w =
     (case run_open 8 p (sock_ctor p (sb_id b) (base_mq_attr b) w) of
        None \<Rightarrow> None
      | Some w1 \<Rightarrow>
          Some (\<lparr>sb_id = sb_id b, max_packet_sz = max_packet_sz b, max_data_sz = max_data_sz b, start_timestamp = now, sk = p\<rparr>,
            upd_shm (the (pr_shd (w_proc w1 p))) (\<lambda>s. s\<lparr>so_client :=
              (so_client s)\<lparr>rwc := congection_window_control (get_mtu b) (rwc (so_client s))\<rparr>\<rparr>) w1))"

text \<open>
  \<open>socket_serv::accept_one_client\<close> on the datagrams that arrive; \<open>None\<close> while no datagram has ended it.
  \<open>mk\<close> constructs the base class for the new socket, \<open>m\<close> is the message object the loop reuses.
\<close>

fun accept_one_client ::
  "(socket_identify \<Rightarrow> socket_base res) \<Rightarrow> nat \<Rightarrow> size_t \<Rightarrow> mq_attr \<Rightarrow> socket_base \<Rightarrow> u8 list option list \<Rightarrow> msg \<Rightarrow> world \<Rightarrow>
   (socket_sock_base \<times> world) res option" where
  "accept_one_client mk p now junk serv [] m w = None"
| "accept_one_client mk p now junk serv (d # ds) m w =
     (case transfer_recvfrom d (cleanup_data_sz m) of
        Inl e \<Rightarrow> Some (Inl e)
      | Inr m' \<Rightarrow>
          (case check_msg_corruption m' of
             Inl e \<Rightarrow> Some (Inl e)
           | Inr corrupt \<Rightarrow>
               (if corrupt then accept_one_client mk p now junk serv ds m' w
                else if addr_comparable (in_addr (msg_socket_id m')) (in_addr (sb_id serv))
                then (case mk (msg_socket_id m') of
                        Inl e \<Rightarrow> Some (Inl e)
                      | Inr b0 \<Rightarrow>
                          (case full_ctor p now b0 w of
                             None \<Rightarrow> None
                           | Some (b, w1) \<Rightarrow>
                               (case enqueue_msg b m' w1 of
                                  None \<Rightarrow> None
                                | Some (Inl e) \<Rightarrow> Some (Inl e)
                                | Some (Inr w2) \<Rightarrow> Some (Inr (b, w2)))))
                else (case put_msg_to_q junk m' (w_mq w) of
                        None \<Rightarrow> None
                      | Some os \<Rightarrow> accept_one_client mk p now junk serv ds m' (w\<lparr>w_mq := os\<rparr>)))))"

section \<open>Lemmas on the transport bytes\<close>

lemma le_ld: "le16 (ld16 m a) = mem_read m a 2" "le32 (ld32 m a) = mem_read m a 4" "le64 (ld64 m a) = mem_read m a 8"
proof -
  have b: "le_to_nat (mem_read m a n) < 256 ^ n" for n using le_to_nat_bound [of "mem_read m a n"] by simp
  have r: "nat_to_le n (le_to_nat (mem_read m a n)) = mem_read m a n" for n
    using nat_to_le_to_nat [of "mem_read m a n"] by simp
  show "le16 (ld16 m a) = mem_read m a 2" "le32 (ld32 m a) = mem_read m a 4" "le64 (ld64 m a) = mem_read m a 8"
    using b [of 2] b [of 4] b [of 8] r by (simp_all add: le16_def ld16_def le32_def ld32_def le64_def ld64_def unat_of_nat)
qed

lemma TCPHDR_bytes_load: "TCPHDR_bytes (load_TCPHDR m a) = mem_read m a 36"
proof -
  have one: "mem_read m b (Suc 0) = [m b]" for b by (simp add: mem_read_def)
  have "mem_read m a 36 = mem_read m a (2 + (2 + (4 + (4 + (1 + (1 + (2 + (2 + (2 + (8 + 8))))))))))" by simp
  also have "\<dots> = TCPHDR_bytes (load_TCPHDR m a)"
    unfolding mem_read_append
    by (simp add: TCPHDR_bytes_def tcphdr_bytes_def load_TCPHDR_def load_tcphdr_def le_ld one add.commute)
      (simp add: eval_nat_numeral)
  finally show ?thesis by simp
qed

text \<open>The checksum field, bytes 16 and 17 of the transport header.\<close>

definition zero_check :: "u8 list \<Rightarrow> u8 list" where
  "zero_check T = T[16 := 0, 17 := 0]"

definition check_field :: "u8 list \<Rightarrow> u16" where
  "check_field T = word_of_nat (le_to_nat [T ! 16, T ! 17])"

lemma TCPHDR_bytes_check:
  obtains A B where "\<And>c. TCPHDR_bytes (t\<lparr>hdr := (hdr t)\<lparr>th_check := c\<rparr>\<rparr>) = A @ le16 c @ B" "length A = 16"
proof -
  let ?h = "hdr t"
  let ?A = "le16 (th_source ?h) @ le16 (th_dest ?h) @ le32 (th_seq ?h) @ le32 (th_ack_seq ?h) @
     [th_off_x2 ?h, th_flags ?h] @ le16 (th_window ?h)"
  let ?B = "le16 (th_urg ?h) @ le64 (sender_timestamp t) @ le64 (recv_timestamp t)"
  show ?thesis by (rule that [of ?A ?B]) (simp_all add: TCPHDR_bytes_def tcphdr_bytes_def)
qed

lemma le16_pair: "\<exists>x y. le16 c = [x, y] \<and> word_of_nat (le_to_nat [x, y]) = c"
proof -
  obtain x y where xy: "le16 c = [x, y]" by (simp add: le16_def numeral_2_eq_2)
  have "le_to_nat (le16 c) = unat c" using unat_u16_bound [of c] by (simp add: le16_def le_to_nat_to_le)
  with xy show ?thesis by (metis word_of_nat_unat)
qed

lemma tcp_data_check:
  assumes "unat (data_len m) < 9223372036854775808"
  shows "zero_check (tcp_data (set_chsum c m)) = tcp_data (set_chsum 0 m)" "check_field (tcp_data (set_chsum c m)) = c"
    "36 \<le> length (tcp_data (set_chsum c m))"
proof -
  obtain A B where AB: "\<And>c. TCPHDR_bytes ((tcph (packet m))\<lparr>hdr := (hdr (tcph (packet m)))\<lparr>th_check := c\<rparr>\<rparr>) = A @ le16 c @ B"
      and A: "length A = 16"
    using TCPHDR_bytes_check [of "tcph (packet m)"] by blast
  have T: "tcp_data (set_chsum c m) = A @ le16 c @ B @ get_data m" for c
    using assms by (simp add: tcp_data_eq msg_access_defs AB get_data_def)
  have z: "le16 0 = [0, 0]" by (simp add: le16_def numeral_2_eq_2)
  obtain x y where xy: "le16 c = [x, y]" "word_of_nat (le_to_nat [x, y]) = c" using le16_pair by blast
  show "zero_check (tcp_data (set_chsum c m)) = tcp_data (set_chsum 0 m)"
    unfolding T zero_check_def z xy using A by (simp add: list_update_append)
  show "check_field (tcp_data (set_chsum c m)) = c"
    unfolding T check_field_def xy(1) using A xy(2) by (simp add: nth_append)
  have "length (TCPHDR_bytes (tcph (packet (set_chsum c m)))) = 36" by (rule length_TCPHDR_bytes)
  then show "36 \<le> length (tcp_data (set_chsum c m))" using assms by (simp add: tcp_data_eq msg_access_defs)
qed

lemma set_chsum_same: "set_chsum (get_chsum m) m = m"
  by (simp add: msg_access_defs)

text \<open>A transport part whose checksum is right.\<close>

definition wire_ok :: "u8 list \<Rightarrow> bool" where
  "wire_ok T \<longleftrightarrow> chsum (zero_check T) = check_field T"

lemma check_wire:
  assumes "msg_ok m"
  shows "check_msg_corruption m = Inr (\<not> wire_ok (tcp_data m))"
proof -
  have dl: "unat (data_len m) < 9223372036854775808" using assms by (rule msg_ok_data_len)
  have "unat (tcp_data_sz (set_chsum 0 m)) = 36 + unat (data_len m)"
    using unat_tcp_data_sz [OF dl] by (simp add: tcp_data_sz_def msg_access_defs)
  then have "msg_chsum (set_chsum 0 m) = Inr (chsum (tcp_data (set_chsum 0 m)))"
    using assms by (simp add: msg_chsum_def msg_access_defs msg_ok_def sizeof_defs)
  moreover have "zero_check (tcp_data m) = tcp_data (set_chsum 0 m)" "check_field (tcp_data m) = get_chsum m"
    using tcp_data_check(1,2) [OF dl, of "get_chsum m"] by (simp_all add: set_chsum_same)
  ultimately show ?thesis by (simp add: check_msg_corruption_def wire_ok_def)
qed

text \<open>What the packet object holds after bytes were received into it.\<close>

lemma fill_packet_ok:
  assumes "msg_ok r" and "56 \<le> length bs" and "length bs \<le> 56 + unat (buf_len r)"
  shows "tcp_data (fill_packet bs r) = drop 20 bs" "msg_ok (fill_packet bs r)"
    "unat (data_len (fill_packet bs r)) = length bs - 56" "buf_len (fill_packet bs r) = buf_len r"
    "packet (fill_packet bs r) = load_packet (mem_write (mem_write (\<lambda>_. 0) 0 (packet_bytes (packet r))) 0 bs) 0 (unat (buf_len r))"
proof -
  let ?img = "mem_write (mem_write (\<lambda>_. 0) 0 (packet_bytes (packet r))) 0 bs" and ?f = "fill_packet bs r"
  have r: "length (pbuf (packet r)) = unat (buf_len r)" "unat (buf_len r) < 4611686018427387904" using assms(1) by (simp_all add: msg_ok_def)
  have n: "unat (word_of_nat (length bs) :: size_t) = length bs" using assms(3) r(2) by (intro unat_word_of_nat_u64) simp
  show dl: "unat (data_len ?f) = length bs - 56"
    using assms(2) n by (simp add: fill_packet_def Let_def set_data_len_def header_len_def sizeof_defs unat_minus_no_wrap)
  show bl: "buf_len ?f = buf_len r" by (simp add: fill_packet_def Let_def set_data_len_def)
  show p: "packet ?f = load_packet ?img 0 (unat (buf_len r))"
    by (simp add: fill_packet_def Let_def set_data_len_def r)
  show "msg_ok ?f" using assms dl bl r by (simp add: msg_ok_def p load_packet_def)
  have "mem_read ?img 0 (length bs) = bs" by (rule mem_read_write_same)
  then have "mem_read ?img 20 (length bs - 20) = drop 20 bs"
    using drop_mem_read [of 20 "length bs" ?img 0] assms(2) by simp
  moreover have "mem_read ?img 20 (36 + (length bs - 56)) = mem_read ?img 20 36 @ mem_read ?img 56 (length bs - 56)"
    using mem_read_append [of ?img 20 36 "length bs - 56"] by simp
  moreover have "36 + (length bs - 56) = length bs - 20" using assms(2) by simp
  ultimately have "mem_read ?img 20 36 @ mem_read ?img 56 (length bs - 56) = drop 20 bs" by metis
  moreover have "tcp_data ?f = TCPHDR_bytes (tcph (packet ?f)) @ get_data ?f"
    using dl r(2) assms(3) by (intro tcp_data_eq) simp
  moreover have "get_data ?f = mem_read ?img 56 (length bs - 56)"
    using dl assms(2,3) by (simp add: get_data_def p load_packet_def sizeof_defs)
  ultimately show "tcp_data ?f = drop 20 bs"
    by (simp add: p load_packet_def sizeof_defs TCPHDR_bytes_load)
qed

lemma transfer_recvfrom_fill:
  assumes "msg_ok r" and "data_len r = buf_len r" and "length bs \<le> 56 + unat (buf_len r)"
  shows "transfer_recvfrom (Some bs) r = Inr (fill_packet bs r)"
proof -
  have "unat (packet_sz r) = 56 + unat (buf_len r)"
    using assms(2) unat_packet_sz [OF msg_ok_data_len [OF assms(1)]] by simp
  then have "take (unat (packet_sz r)) bs = bs" using assms(3) by simp
  then show ?thesis by (simp add: transfer_recvfrom_def fill_packet_def Let_def)
qed

text \<open>The parts of a message that the protocol reads and \<open>send\<close> leaves alone.\<close>

definition same_segment :: "msg \<Rightarrow> msg \<Rightarrow> bool" where
  "same_segment a b \<longleftrightarrow> get_seq a = get_seq b \<and> get_ack_seq a = get_ack_seq b \<and> th_flags (msg_hdr a) = th_flags (msg_hdr b) \<and>
     get_window_sz a = get_window_sz b \<and> get_data a = get_data b"

lemma msg_chsum_ok: "msg_ok m \<Longrightarrow> msg_chsum m = Inr (chsum (tcp_data m))"
  by (simp add: msg_chsum_def unat_tcp_data_sz msg_ok_data_len) (simp add: msg_ok_def sizeof_defs)

lemma base_send_ok:
  assumes "msg_ok m" and "base_send now ret b m = (m', Inr (dest, bs))"
  shows "bs = tcp_data m'" "wire_ok bs" "msg_ok m'" "same_segment m' m" "data_len m' = data_len m" "buf_len m' = buf_len m"
    "pbuf (packet m') = pbuf (packet m)" "dest = (out_addr (sb_id b))\<lparr>sin_family := AF_INET\<rparr>"
    "get_src_addr m' = (in_addr (sb_id b))\<lparr>sin_family := AF_INET\<rparr>"
    "get_sender_timestamp m' = get_timestamp now b" "get_recv_timestamp m' = get_timestamp now b"
    "th_source (msg_hdr m') = sin_port (in_addr (sb_id b))" "th_dest (msg_hdr m') = sin_port (out_addr (sb_id b))"
proof -
  let ?m1 = "set_dest_addr (out_addr (sb_id b)) (set_src_addr (in_addr (sb_id b)) m)" and ?ts = "get_timestamp now b"
  let ?m2 = "set_chsum 0 (set_sender_timestamp ?ts (set_recv_timestamp ?ts ?m1))"
  have ok: "msg_ok ?m2" using assms(1) by (simp add: msg_ok_def msg_access_defs)
  let ?c = "chsum (tcp_data ?m2)"
  have be: "base_send now ret b m = (set_chsum ?c ?m2, transfer_send_to ret (set_chsum ?c ?m2))"
    by (simp add: base_send_def Let_def msg_chsum_ok [OF ok])
  have e: "set_chsum ?c ?m2 = m' \<and> transfer_send_to ret (set_chsum ?c ?m2) = Inr (dest, bs)"
    using assms(2) unfolding be prod.inject .
  then have m': "m' = set_chsum ?c ?m2" by simp
  have tr: "transfer_send_to ret m' = Inr (dest, bs)" unfolding m' using conjunct2 [OF e] .
  show bs: "bs = tcp_data m'" using tr by (auto simp: transfer_send_to_def split: if_splits)
  show "dest = (out_addr (sb_id b))\<lparr>sin_family := AF_INET\<rparr>"
    using tr by (auto simp: transfer_send_to_def m' msg_access_defs split: if_splits)
  have dl: "unat (data_len ?m2) < 9223372036854775808" using ok by (rule msg_ok_data_len)
  have "tcp_data (set_chsum 0 ?m2) = tcp_data ?m2" by (simp add: msg_access_defs)
  then show "wire_ok bs"
    unfolding wire_ok_def bs m' by (simp only: tcp_data_check(1,2) [OF dl])
  show "msg_ok m'" using ok by (simp add: m' msg_ok_def msg_access_defs)
  show "same_segment m' m" "data_len m' = data_len m" "buf_len m' = buf_len m" "pbuf (packet m') = pbuf (packet m)"
    "get_src_addr m' = (in_addr (sb_id b))\<lparr>sin_family := AF_INET\<rparr>"
    "get_sender_timestamp m' = ?ts" "get_recv_timestamp m' = ?ts"
    "th_source (msg_hdr m') = sin_port (in_addr (sb_id b))" "th_dest (msg_hdr m') = sin_port (out_addr (sb_id b))"
    by (simp_all add: m' same_segment_def msg_access_defs get_data_def)
qed

lemma length_tcp_data: "msg_ok m \<Longrightarrow> length (tcp_data m) = 36 + unat (data_len m)"
  by (simp add: tcp_data_eq msg_ok_data_len length_get_data)

lemma le16_of_nat: "n < 65536 \<Longrightarrow> le16 (word_of_nat n) = nat_to_le 2 n"
  by (simp add: le16_def unat_of_nat)

text \<open>A changed byte of a transport part is noticed.\<close>

lemma wire_update:
  assumes "wire_ok T" and "36 \<le> length T" and "length T \<le> 131070" and "i < length T" and "x \<noteq> T ! i"
  shows "\<not> wire_ok (T[i := x])"
proof (cases "i = 16 \<or> i = 17")
  case True
  have z: "zero_check (T[i := x]) = zero_check T" 
    using True list_update_swap [of 17 16 T x 0] by (auto simp: zero_check_def)
  have *: "word_of_nat (le_to_nat [a, b]) = (word_of_nat (le_to_nat [c, d]) :: u16) \<Longrightarrow> a = c \<and> b = d" for a b c d
  proof -
    assume "word_of_nat (le_to_nat [a, b]) = (word_of_nat (le_to_nat [c, d]) :: u16)"
    then have "le16 (word_of_nat (le_to_nat [a, b])) = le16 (word_of_nat (le_to_nat [c, d]))" by simp
    moreover have "le16 (word_of_nat (le_to_nat [e, f])) = [e, f]" for e f
      using nat_to_le_to_nat [of "[e, f]"] le_to_nat_bound [of "[e, f]"] le16_of_nat [of "le_to_nat [e, f]"]
      by (simp del: le_to_nat.simps add: numeral_2_eq_2)
    ultimately show "a = c \<and> b = d" by simp
  qed
  have "check_field (T[i := x]) \<noteq> check_field T"
    using True assms(2,5) * unfolding check_field_def by (auto simp: nth_list_update)
  then show ?thesis using assms(1) z by (simp add: wire_ok_def)
next
  case False
  have z: "zero_check (T[i := x]) = (zero_check T)[i := x]"
    using False list_update_swap [of i 16 T x 0] list_update_swap [of i 17 "T[16 := 0]" x 0] by (simp add: zero_check_def)
  have "zero_check T ! i = T ! i" using False by (simp add: zero_check_def)
  then have "chsum ((zero_check T)[i := x]) \<noteq> chsum (zero_check T)"
    using assms(3-5) by (intro chsum_update_neq) (auto simp: zero_check_def)
  moreover have "check_field (T[i := x]) = check_field T" using False by (simp add: check_field_def)
  ultimately show ?thesis using assms(1) z by (simp add: wire_ok_def)
qed

section \<open>Lemmas on the queues\<close>

text \<open>The messages waiting in the queue that a name leads to.\<close>

definition queue_of :: "string \<Rightarrow> mq_os \<Rightarrow> u8 list list option" where
  "queue_of l os = map_option (\<lambda>i. mbox_contents (mo_obj os i)) (mo_names os l)"

lemma raise_mq_rlimit_keeps:
  "raise_mq_rlimit a os = Inr os1 \<Longrightarrow> mo_names os1 = mo_names os \<and> mo_obj os1 = mo_obj os"
  by (auto simp: raise_mq_rlimit_def get_mq_rlimit_def set_mq_rlimit_def Let_def split: option.splits if_splits)

lemma raise_granted: "mo_priv os \<Longrightarrow> mo_rlim os \<noteq> None \<Longrightarrow> \<exists>os1. raise_mq_rlimit a os = Inr os1"
  by (auto simp: raise_mq_rlimit_def get_mq_rlimit_def set_mq_rlimit_def Let_def)

lemma iphdr_bytes_load: "iphdr_bytes (load_iphdr m a) = mem_read m a 20"
proof -
  have one: "mem_read m b (Suc 0) = [m b]" for b by (simp add: mem_read_def)
  have "mem_read m a 20 = mem_read m a (1 + (1 + (2 + (2 + (2 + (1 + (1 + (2 + (4 + 4)))))))))" by simp
  also have "\<dots> = iphdr_bytes (load_iphdr m a)"
    unfolding mem_read_append
    by (simp add: iphdr_bytes_def load_iphdr_def le_ld one add.commute) (simp add: eval_nat_numeral)
  finally show ?thesis by simp
qed

lemma TCPHDR_bytes_inject: "TCPHDR_bytes t = TCPHDR_bytes u \<Longrightarrow> t = u"
  using load_TCPHDR_holds [OF mem_holds_write, of "\<lambda>_. 0" 0] by metis

lemma iphdr_bytes_inject: "iphdr_bytes h = iphdr_bytes g \<Longrightarrow> h = g"
  using load_iphdr_holds [OF mem_holds_write, of "\<lambda>_. 0" 0] by metis

lemma packet_data_split:
  "msg_ok m \<Longrightarrow> packet_data m = iphdr_bytes (iph (packet m)) @ tcp_data m"
  by (simp add: packet_data_eq tcp_data_eq msg_ok_data_len)

lemma packet_data_fill:
  assumes "msg_ok r" and "56 \<le> length bs" and "length bs \<le> 56 + unat (buf_len r)"
  shows "packet_data (fill_packet bs r) = bs"
proof -
  note f = fill_packet_ok [OF assms]
  have "mem_read (mem_write (mem_write (\<lambda>_. 0) 0 (packet_bytes (packet r))) 0 bs) 0 20 = take 20 bs"
    using assms(2) by (intro mem_read_write_prefix) simp
  then have "iphdr_bytes (iph (packet (fill_packet bs r))) = take 20 bs"
    by (simp add: f(5) load_packet_def iphdr_bytes_load)
  then show ?thesis using packet_data_split [OF f(2)] f(1) by simp
qed

text \<open>A sent message, behind an IP header, read back from the packet object.\<close>

lemma fill_packet_segment:
  assumes "msg_ok r" and "msg_ok m" and "unat (data_len m) \<le> unat (buf_len r)"
  shows "tcph (packet (fill_packet (iphdr_bytes h @ tcp_data m) r)) = tcph (packet m)"
    "iph (packet (fill_packet (iphdr_bytes h @ tcp_data m) r)) = h"
    "get_data (fill_packet (iphdr_bytes h @ tcp_data m) r) = get_data m"
proof -
  let ?bs = "iphdr_bytes h @ tcp_data m" and ?f = "fill_packet (iphdr_bytes h @ tcp_data m) r"
  have len: "56 \<le> length ?bs" "length ?bs \<le> 56 + unat (buf_len r)" using assms by (simp_all add: length_tcp_data)
  note f = fill_packet_ok [OF assms(1) len]
  have "TCPHDR_bytes (tcph (packet ?f)) @ get_data ?f = TCPHDR_bytes (tcph (packet m)) @ get_data m"
    using f(1) f(2) assms(2) by (simp add: tcp_data_eq msg_ok_data_len)
  then have T: "TCPHDR_bytes (tcph (packet ?f)) = TCPHDR_bytes (tcph (packet m))" "get_data ?f = get_data m"
    by (simp_all add: append_eq_append_conv)
  then show "tcph (packet ?f) = tcph (packet m)" "get_data ?f = get_data m" by (auto dest: TCPHDR_bytes_inject)
  have "iphdr_bytes (iph (packet ?f)) @ tcp_data ?f = ?bs"
    using packet_data_fill [OF assms(1) len] packet_data_split [OF f(2)] by simp
  then show "iph (packet ?f) = h" by (auto dest: iphdr_bytes_inject)
qed

lemma msg_new_ok: "unat n < 4611686018427387904 \<Longrightarrow> msg_ok (msg_new None n)"
  "data_len (msg_new b n) = n" "buf_len (msg_new b n) = n"
  by (simp_all add: msg_ok_def msg_new_def zero_packet_def)

lemma cleanup_fill: "msg_ok r \<Longrightarrow> msg_ok (cleanup_data_sz (fill_packet bs r))" "buf_len (cleanup_data_sz (fill_packet bs r)) = buf_len r"
  by (simp_all add: msg_ok_def cleanup_data_sz_def fill_packet_def set_data_len_def Let_def load_packet_def)

lemma put_msg_to_q_ok:
  assumes "msg_ok m" and "raise_mq_rlimit junk os = Inr os1" and "mo_names os (sock_label (msg_socket_id m)) = Some i"
    and "mbox_ok (mo_obj os i)" and "56 + int (unat (data_len m)) \<le> mq_msgsize (mqu_attr (mo_obj os i))"
    and "mq_msgsize (mqu_attr (mo_obj os i)) < 9223372036854775808"
    and "int (length (mqu_msgs (mo_obj os i))) < mq_maxmsg (mqu_attr (mo_obj os i))"
  shows "put_msg_to_q junk m os = Some (os1\<lparr>mo_obj := (mo_obj os)(i := (mo_obj os i)\<lparr>mqu_msgs := mqu_msgs (mo_obj os i) @ [(1, packet_data m)]\<rparr>)\<rparr>)"
proof -
  let ?x = "mo_obj os i" and ?q = "\<lparr>smq_create = False, smq_label = sock_label (msg_socket_id m), smq_mq = i\<rparr>"
  have k: "mo_names os1 = mo_names os" "mo_obj os1 = mo_obj os" using raise_mq_rlimit_keeps [OF assms(2)] by simp_all
  have op: "sock_mq_open False \<lparr>mp_id = msg_socket_id m, mp_create = False, mp_attr = junk\<rparr> os = (Inr ?q, os1)"
    using assms(2,3) k by (simp add: sock_mq_open_def mq_open_def)
  have len: "length (packet_data m) = 56 + unat (data_len m)"
    using assms(1) by (simp add: packet_data_split length_tcp_data)
  have "unat (packet_sz m) = 56 + unat (data_len m)" by (rule unat_packet_sz [OF msg_ok_data_len [OF assms(1)]])
  moreover have "unat (word_of_int (mq_msgsize (mqu_attr ?x)) :: u64) = nat (mq_msgsize (mqu_attr ?x))"
    using assms(5,6) by (intro unat_word_of_int_u64) linarith+
  ultimately have fits: "\<not> word_of_int (mq_msgsize (getattrs ?q os1)) < packet_sz m"
    using assms(5) k by (simp add: getattrs_def word_less_nat_alt del: of_nat_unat)
  have "mq_insert 1 (packet_data m) (mqu_msgs ?x) = mqu_msgs ?x @ [(1, packet_data m)]"
    using assms(4) by (intro mq_insert_last) (simp add: mbox_ok_def list_all_iff)
  then have "put_msg ?q (packet_data m) 1 os1 = Some (Inr (os1\<lparr>mo_obj := (mo_obj os1)(i := ?x\<lparr>mqu_msgs := mqu_msgs ?x @ [(1, packet_data m)]\<rparr>)\<rparr>))"
    using assms(5,7) len k by (simp add: put_msg_def mq_send_def MQ_PRIO_MAX_def)
  with op fits k show ?thesis by (simp add: put_msg_to_q_def)
qed

text \<open>
  An open socket with its own queue \<open>i\<close>: what the constructors leave behind when the MTU holds at least
  the headers.
\<close>

definition sock_queue_ok :: "socket_sock_base \<Rightarrow> world \<Rightarrow> nat \<Rightarrow> bool" where
  "sock_queue_ok b w i \<longleftrightarrow> (\<exists>q. get_mq (sk b) w = Inr q \<and> smq_mq q = i) \<and>
     mo_names (w_mq w) (sock_label (sb_id b)) = Some i \<and> mqu_attr (mo_obj (w_mq w) i) = default_tcp_mq_attr\<lparr>mq_msgsize := sint (max_packet_sz b)\<rparr> \<and>
     mbox_ok (mo_obj (w_mq w) i) \<and> 56 \<le> unat (max_packet_sz b) \<and> unat (max_packet_sz b) \<le> 65590 \<and>
     max_data_sz b = max_packet_sz b - 56"

lemma sock_queue_ok_sizes:
  assumes "sock_queue_ok b w i"
  shows "unat (max_data_sz b) = unat (max_packet_sz b) - 56" "unat (max_data_sz b) < 4611686018427387904"
    "sint (max_packet_sz b) = int (unat (max_packet_sz b))"
    "unat (packet_sz (msg_new None (max_data_sz b))) = unat (max_packet_sz b)"
proof -
  have b: "56 \<le> unat (max_packet_sz b)" "unat (max_packet_sz b) \<le> 65590" "max_data_sz b = max_packet_sz b - 56"
    using assms by (simp_all add: sock_queue_ok_def)
  show d: "unat (max_data_sz b) = unat (max_packet_sz b) - 56" using b by (simp add: unat_minus_no_wrap)
  then show "unat (max_data_sz b) < 4611686018427387904" using b by simp
  show "sint (max_packet_sz b) = int (unat (max_packet_sz b))" using b by (intro sint_small) simp
  show "unat (packet_sz (msg_new None (max_data_sz b))) = unat (max_packet_sz b)"
    using d b by (subst unat_packet_sz) (simp_all add: msg_new_ok)
qed

lemma label_of_addrs:
  "addr_comparable (in_addr a) (in_addr b) \<Longrightarrow> addr_comparable (out_addr a) (out_addr b) \<Longrightarrow> sock_label a = sock_label b"
  by (simp add: sock_label_def addr_comparable_def)

text \<open>The first part of \<open>next_msg\<close>: a good packet goes to the queue of its socket.\<close>

lemma next_msg_raw_ok:
  assumes "msg_ok r" and "data_len r = buf_len r" and "msg_ok m" and "wire_ok (tcp_data m)" and "unat (data_len m) \<le> unat (buf_len r)"
    and "raise_mq_rlimit junk os = Inr os1" and "mo_names os (sock_label (msg_socket_id (fill_packet (iphdr_bytes h @ tcp_data m) r))) = Some i"
    and "mbox_ok (mo_obj os i)" and "56 + int (unat (data_len m)) \<le> mq_msgsize (mqu_attr (mo_obj os i))"
    and "mq_msgsize (mqu_attr (mo_obj os i)) < 9223372036854775808"
    and "int (length (mqu_msgs (mo_obj os i))) < mq_maxmsg (mqu_attr (mo_obj os i))"
  shows "next_msg_raw junk (Some (iphdr_bytes h @ tcp_data m)) r os = Some (Inr (fill_packet (iphdr_bytes h @ tcp_data m) r,
    os1\<lparr>mo_obj := (mo_obj os)(i := (mo_obj os i)\<lparr>mqu_msgs := mqu_msgs (mo_obj os i) @ [(1, iphdr_bytes h @ tcp_data m)]\<rparr>)\<rparr>))"
proof -
  let ?bs = "iphdr_bytes h @ tcp_data m" and ?f = "fill_packet (iphdr_bytes h @ tcp_data m) r"
  have len: "56 \<le> length ?bs" "length ?bs \<le> 56 + unat (buf_len r)" using assms(3,5) by (simp_all add: length_tcp_data)
  note f = fill_packet_ok [OF assms(1) len]
  have "check_msg_corruption ?f = Inr False" using check_wire [OF f(2)] f(1) assms(4) by simp
  moreover have "unat (data_len ?f) = unat (data_len m)" using f(3) assms(3) by (simp add: length_tcp_data)
  then have "put_msg_to_q junk ?f os =
    Some (os1\<lparr>mo_obj := (mo_obj os)(i := (mo_obj os i)\<lparr>mqu_msgs := mqu_msgs (mo_obj os i) @ [(1, packet_data ?f)]\<rparr>)\<rparr>)"
    using assms(6-11) by (intro put_msg_to_q_ok [OF f(2)]) simp_all
  ultimately show ?thesis
    using transfer_recvfrom_fill [OF assms(1,2) len(2)] packet_data_fill [OF assms(1) len] by (simp add: next_msg_raw_def)
qed

lemma next_msg_queue_ok:
  assumes "get_mq (sk b) w = Inr q" and "mqu_msgs (mo_obj (w_mq w) (smq_mq q)) = (p, bs) # ms"
    and "mq_msgsize (mqu_attr (mo_obj (w_mq w) (smq_mq q))) \<le> int (unat (packet_sz m))"
  shows "next_msg_queue b m w = Some (Inr (fill_packet bs m), w\<lparr>w_mq := (w_mq w)\<lparr>mo_obj :=
    (mo_obj (w_mq w))(smq_mq q := (mo_obj (w_mq w) (smq_mq q))\<lparr>mqu_msgs := ms\<rparr>)\<rparr>\<rparr>)"
  using assms by (simp add: next_msg_queue_def get_msg_def mq_receive_def del: of_nat_unat)

section \<open>Lemmas on the server\<close>

lemma run_open_Suc:
  "pr_pc (w_proc w p) \<noteq> P_Ready \<Longrightarrow> reopen_step True p w = Some w' \<Longrightarrow> run_open (Suc k) p w = run_open k p w'"
  by (subst run_open.simps) simp

lemma run_open_Ready: "pr_pc (w_proc w p) = P_Ready \<Longrightarrow> run_open n p w = Some w"
  by (subst run_open.simps) simp

lemma run_open_run:
  "sock_run (replicate n (Step p True)) w = Some w' \<Longrightarrow> pc_of w' p = P_Ready \<Longrightarrow> \<not> closing (pc_of w p) \<Longrightarrow> n \<le> k \<Longrightarrow>
   run_open k p w = Some w'"
proof (induction n arbitrary: w k)
  case (Suc n)
  then obtain w1 where w1: "sock_exec (Step p True) w = Some w1" "sock_run (replicate n (Step p True)) w1 = Some w'"
    by (auto split: option.splits)
  then have False: "pc_of w p \<noteq> P_Ready" by (auto simp: sock_exec_def reopen_step_def dtor_step_def Let_def)
  have r: "reopen_step True p w = Some w1"
    using w1(1) Suc.prems(3) by (cases "pc_of w p") (auto simp: sock_exec_def dtor_step_def Let_def split: option.splits)
  then have "\<not> closing (pc_of w1 p)" using ctor_step_closing [OF ctor_step.step] Suc.prems(3) by blast
  moreover obtain k' where k': "k = Suc k'" "n \<le> k'" using Suc.prems(4) by (cases k) auto
  ultimately show ?case using Suc.IH [OF w1(2) Suc.prems(2)] False r by (simp add: run_open_Suc)
qed (simp add: run_open_Ready)

lemma ctor_run:
  assumes "pc_of w p = P_None" and "sock_run (New p sid attr # replicate n (Step p True)) w = Some w'" and "pc_of w' p = P_Ready"
    and "n \<le> k"
  shows "run_open k p (sock_ctor p sid attr w) = Some w'"
  using assms by (intro run_open_run [of n]) (simp_all add: exec_New, simp add: sock_ctor_def)

text \<open>The two ways in which a socket object is made: for a new label, and for a label in use.\<close>

lemma full_ctor_fresh:
  assumes "pc_of w p = P_None" and "w_sem_name w (sock_label (sb_id b)) = None" and "w_shm_name w (sock_label (sb_id b)) = None"
    and "sock_mq_open True \<lparr>mp_id = sb_id b, mp_create = True, mp_attr = base_mq_attr b\<rparr> (w_mq w) = (Inr q, os)"
  shows "\<exists>w1. full_ctor p now b w =
      Some (\<lparr>sb_id = sb_id b, max_packet_sz = max_packet_sz b, max_data_sz = max_data_sz b, start_timestamp = now, sk = p\<rparr>, w1) \<and>
    w_mq w1 = os \<and> get_mq p w1 = Inr q \<and> w_sem_name w1 (sock_label (sb_id b)) = Some (w_sem_next w) \<and> w_sem w1 (w_sem_next w) = 1 \<and>
    w_shm_name w1 (sock_label (sb_id b)) = Some (w_shm_next w) \<and> so_state (w_shm w1 (w_shm_next w)) = OK \<and>
    (\<forall>r. r \<noteq> p \<longrightarrow> w_proc w1 r = w_proc w r)"
  using ctor_run [OF assms(1) open_fresh [OF assms, unfolded open_events_def]]
  by (auto simp: full_ctor_def upd_shm_def get_mq_def guard_init_def)

lemma full_ctor_attach:
  assumes "pc_of w p = P_None" and "w_sem_name w (sock_label (sb_id b)) = Some i" and "w_sem w i = 1"
    and "w_shm_name w (sock_label (sb_id b)) = Some j" and "so_state (w_shm w j) = OK"
  shows "\<exists>w1. full_ctor p now b w =
      Some (\<lparr>sb_id = sb_id b, max_packet_sz = max_packet_sz b, max_data_sz = max_data_sz b, start_timestamp = now, sk = p\<rparr>, w1) \<and>
    get_mq p w1 = Inl Fault"
  using ctor_run [OF assms(1) open_attach [OF assms, unfolded attach_events_def]]
  by (auto simp: full_ctor_def upd_shm_def get_mq_def)

lemma cleanup_ok: "msg_ok m \<Longrightarrow> msg_ok (cleanup_data_sz m)" "data_len (cleanup_data_sz m) = buf_len m" "buf_len (cleanup_data_sz m) = buf_len m"
  by (simp_all add: msg_ok_def cleanup_data_sz_def)

text \<open>One round of the server on a good datagram for its own address.\<close>

lemma accept_round:
  assumes "msg_ok m" and "56 \<le> length d" and "length d \<le> 56 + unat (buf_len m)" and "wire_ok (drop 20 d)"
    and "msg_socket_id (fill_packet d (cleanup_data_sz m)) = sid" and "addr_comparable (in_addr sid) (in_addr (sb_id serv))"
    and "mk sid = Inr b0" and "full_ctor p now b0 w = Some (b, w1)"
  shows "accept_one_client mk p now junk serv (Some d # ds) m w =
    (case enqueue_msg b (fill_packet d (cleanup_data_sz m)) w1 of
       None \<Rightarrow> None | Some (Inl e) \<Rightarrow> Some (Inl e) | Some (Inr w2) \<Rightarrow> Some (Inr (b, w2)))"
proof -
  let ?c = "cleanup_data_sz m"
  note c = cleanup_ok(1) [OF assms(1)] cleanup_ok(2,3) [of m]
  have len: "length d \<le> 56 + unat (buf_len ?c)" using assms(3) c(3) by simp
  have "check_msg_corruption (fill_packet d ?c) = Inr False"
    using check_wire [OF fill_packet_ok(2) [OF c(1) assms(2) len]] fill_packet_ok(1) [OF c(1) assms(2) len] assms(4) by simp
  with transfer_recvfrom_fill [OF c(1) _ len] c(2,3) assms(5-8) show ?thesis by simp
qed

section \<open>Delivery\<close>

lemma datagram_delivered:
  assumes "msg_ok m" and "base_send now ret a m = (m', Inr (dest, bs))"
    and "sock_queue_ok b w i" and "mqu_msgs (mo_obj (w_mq w) i) = []"
    and "addr_comparable (in_addr (sb_id b)) (out_addr (sb_id a))" and "addr_comparable (out_addr (sb_id b)) (in_addr (sb_id a))"
    and "saddr h = sin_addr (in_addr (sb_id a))" and "daddr h = sin_addr (out_addr (sb_id a))"
    and "unat (data_len m) \<le> unat (max_data_sz b)" and "unat (data_len m) \<le> unat (max_data_sz c)"
    and "unat (max_data_sz c) < 2 ^ 62" and "raise_mq_rlimit junk (w_mq w) = Inr os1"
  shows "\<exists>w1 r. sock_next_msg (Some (True, False)) (Some (iphdr_bytes h @ bs)) junk c w = Some (Inl Timeout, w1) \<and>
    sock_next_msg (Some (False, True)) None junk b w1 = Some (Inr r, w\<lparr>w_mq := os1\<rparr>) \<and> same_segment r m \<and>
    get_src_addr r = (in_addr (sb_id a))\<lparr>sin_family := AF_INET\<rparr> \<and> msg_ok r \<and> check_msg_corruption r = Inr False"
proof -
  note s = base_send_ok [OF assms(1,2)]
  note z = sock_queue_ok_sizes [OF assms(3)]
  let ?rc = "msg_new None (max_data_sz c)" and ?rb = "msg_new None (max_data_sz b)"
  let ?bs = "iphdr_bytes h @ tcp_data m'" and ?x = "mo_obj (w_mq w) i"
  obtain q where q: "get_mq (sk b) w = Inr q" "smq_mq q = i" and name: "mo_names (w_mq w) (sock_label (sb_id b)) = Some i"
      and at: "mqu_attr ?x = default_tcp_mq_attr\<lparr>mq_msgsize := sint (max_packet_sz b)\<rparr>" and mb: "mbox_ok ?x"
    using assms(3) by (auto simp: sock_queue_ok_def)
  have ok: "msg_ok ?rc" "msg_ok ?rb" using assms(11) z(2) by (simp_all add: msg_new_ok)
  have fitc: "unat (data_len m') \<le> unat (buf_len ?rc)" and fitb: "unat (data_len m') \<le> unat (buf_len ?rb)"
    using assms(9,10) by (simp_all add: s(5) msg_new_ok)
  note fc = fill_packet_segment [OF ok(1) s(3) fitc, of h] and fb = fill_packet_segment [OF ok(2) s(3) fitb, of h]
  have "sock_label (msg_socket_id (fill_packet ?bs ?rc)) = sock_label (sb_id b)"
    using assms(5-8) s(12,13) fc by (intro label_of_addrs) (auto simp: msg_socket_id_def addr_comparable_def get_dest_addr_def get_src_addr_def msg_hdr_def)
  moreover have "56 + int (unat (data_len m')) \<le> mq_msgsize (mqu_attr ?x)"
    using assms(3,9) z(1,3) by (simp add: at s(5) sock_queue_ok_def del: of_nat_unat) linarith
  moreover have "mq_msgsize (mqu_attr ?x) < 9223372036854775808"
    using assms(3) z(3) by (simp add: at sock_queue_ok_def del: of_nat_unat)
  ultimately have raw: "next_msg_raw junk (Some ?bs) ?rc (w_mq w) = Some (Inr (fill_packet ?bs ?rc,
      os1\<lparr>mo_obj := (mo_obj (w_mq w))(i := ?x\<lparr>mqu_msgs := [(1, ?bs)]\<rparr>)\<rparr>))"
    using next_msg_raw_ok [OF ok(1) _ s(3) _ fitc assms(12), of h i] name mb s(1,2) assms(4)
    by (simp add: msg_new_ok at default_tcp_mq_attr_def)
  let ?w1 = "w\<lparr>w_mq := os1\<lparr>mo_obj := (mo_obj (w_mq w))(i := ?x\<lparr>mqu_msgs := [(1, ?bs)]\<rparr>)\<rparr>\<rparr>"
  have one: "sock_next_msg (Some (True, False)) (Some (iphdr_bytes h @ bs)) junk c w = Some (Inl Timeout, ?w1)"
    using raw s(1) by (simp add: sock_next_msg_def Let_def)
  have "get_mq (sk b) ?w1 = Inr q" using q(1) by (simp add: get_mq_def)
  then have "next_msg_queue b ?rb ?w1 = Some (Inr (fill_packet ?bs ?rb), ?w1\<lparr>w_mq := (w_mq ?w1)\<lparr>mo_obj :=
    (mo_obj (w_mq ?w1))(smq_mq q := (mo_obj (w_mq ?w1) (smq_mq q))\<lparr>mqu_msgs := []\<rparr>)\<rparr>\<rparr>)"
    using z(3,4) q(2) by (intro next_msg_queue_ok) (simp_all add: at)
  moreover have "cleanup_data_sz ?rb = ?rb" by (simp add: cleanup_data_sz_def msg_new_def)
  moreover have "mo_obj os1 = mo_obj (w_mq w)" using raise_mq_rlimit_keeps [OF assms(12)] by simp
  then have "os1\<lparr>mo_obj := (mo_obj (w_mq w))(i := ?x\<lparr>mqu_msgs := []\<rparr>)\<rparr> = os1" using assms(4) by (simp add: fun_upd_idem)
  ultimately have two: "sock_next_msg (Some (False, True)) None junk b ?w1 = Some (Inr (fill_packet ?bs ?rb), w\<lparr>w_mq := os1\<rparr>)"
    using q(2) by (simp add: sock_next_msg_def Let_def)
  have len: "56 \<le> length ?bs" "length ?bs \<le> 56 + unat (buf_len ?rb)" using fitb s(3) by (simp_all add: length_tcp_data)
  note f = fill_packet_ok [OF ok(2) len]
  have "same_segment (fill_packet ?bs ?rb) m"
    using s(4) fb by (simp add: same_segment_def get_seq_def get_ack_seq_def get_window_sz_def msg_hdr_def)
  moreover have "get_src_addr (fill_packet ?bs ?rb) = (in_addr (sb_id a))\<lparr>sin_family := AF_INET\<rparr>"
    using fb(1,2) assms(7) s(12) by (simp add: get_src_addr_def msg_hdr_def)
  moreover have "check_msg_corruption (fill_packet ?bs ?rb) = Inr False" using check_wire [OF f(2)] f(1) s(1,2) by simp
  ultimately show ?thesis using one two f(2) by blast
qed

section \<open>Properties\<close>

text \<open>
  C17: a segment that one socket sends reaches the socket it is for. Whichever process of the peer's
  host takes the datagram from its raw socket, the checksum is found right and the packet is put
  into the queue of the socket whose addresses mirror the sender's; that socket's next \<open>next_msg\<close>
  returns a message with the same sequence numbers, flags, window and payload, and the sender's
  address.
\<close>

theorem datagram_reaches_its_socket:
  assumes "msg_ok m" and "base_send now ret a m = (m', Inr (dest, bs))"
    and "sock_queue_ok b w i" and "mqu_msgs (mo_obj (w_mq w) i) = []"
    and "addr_comparable (in_addr (sb_id b)) (out_addr (sb_id a))" and "addr_comparable (out_addr (sb_id b)) (in_addr (sb_id a))"
    and "saddr h = sin_addr (in_addr (sb_id a))" and "daddr h = sin_addr (out_addr (sb_id a))"
    and "unat (data_len m) \<le> unat (max_data_sz b)" and "unat (data_len m) \<le> unat (max_data_sz c)"
    and "unat (max_data_sz c) < 2 ^ 62" and "raise_mq_rlimit junk (w_mq w) = Inr os1"
  shows "\<exists>w1 r w2. sock_next_msg (Some (True, False)) (Some (iphdr_bytes h @ bs)) junk c w = Some (Inl Timeout, w1) \<and>
    sock_next_msg (Some (False, True)) None junk b w1 = Some (Inr r, w2) \<and> same_segment r m \<and>
    get_src_addr r = (in_addr (sb_id a))\<lparr>sin_family := AF_INET\<rparr> \<and> msg_ok r \<and> check_msg_corruption r = Inr False"
  using datagram_delivered [OF assms] by blast

text \<open>Two sockets of the loopback host that talk to each other, and the host's queues: the second socket is
  process 0 and owns queue 0.\<close>

definition demo_a :: socket_sock_base where
  "demo_a = \<lparr>sb_id = loop_id, max_packet_sz = 1500, max_data_sz = 1444, start_timestamp = 5, sk = 7\<rparr>"

definition demo_b :: socket_sock_base where
  "demo_b = \<lparr>sb_id = \<lparr>in_addr = out_addr loop_id, out_addr = in_addr loop_id\<rparr>, max_packet_sz = 1500, max_data_sz = 1444,
     start_timestamp = 6, sk = 0\<rparr>"

definition demo_world :: world where
  "demo_world =
     (let l = sock_label (sb_id demo_b); w = empty_world (small_mq_os\<lparr>mo_names := [l \<mapsto> 0], mo_next := 1\<rparr>)
      in w\<lparr>w_proc := (w_proc w)(0 := no_proc\<lparr>pr_pc := P_Ready, pr_mq := Some \<lparr>smq_create = True, smq_label = l, smq_mq = 0\<rparr>\<rparr>)\<rparr>)"

lemma demo_queue_ok: "sock_queue_ok demo_b demo_world 0" "mqu_msgs (mo_obj (w_mq demo_world) 0) = []"
  by (simp_all add: sock_queue_ok_def demo_world_def demo_b_def Let_def get_mq_def empty_world_def small_mq_os_def mbox_ok_def)

lemma demo_send: "\<exists>m' dest bs. base_send 100 39 demo_a (set_seq 9 (tmp_msg [1, 2, 3])) = (m', Inr (dest, bs))"
  by (simp add: base_send_def Let_def msg_chsum_def transfer_send_to_def tcp_data_sz_def tmp_msg_def zero_packet_def msg_access_defs
      sizeof_defs)

lemma demo_msg_ok: "msg_ok (set_seq 9 (tmp_msg [1, 2, 3]))"
  by (simp add: msg_ok_def tmp_msg_def zero_packet_def msg_access_defs)

theorem datagram_reaches_its_socket_witness:
  "\<exists>m' dest bs w1 r w2. base_send 100 39 demo_a (set_seq 9 (tmp_msg [1, 2, 3])) = (m', Inr (dest, bs)) \<and>
    sock_next_msg (Some (True, False)) (Some (iphdr_bytes (zero_iphdr\<lparr>saddr := 16777343, daddr := 16777343\<rparr>) @ bs)) default_mq_attr demo_a
      demo_world = Some (Inl Timeout, w1) \<and>
    sock_next_msg (Some (False, True)) None default_mq_attr demo_b w1 = Some (Inr r, w2) \<and> get_seq r = 9 \<and> get_data r = [1, 2, 3]"
proof -
  let ?m = "set_seq 9 (tmp_msg [1, 2, 3])" and ?h = "zero_iphdr\<lparr>saddr := 16777343, daddr := 16777343\<rparr>"
  note ok = demo_msg_ok
  obtain m' dest bs where snd: "base_send 100 39 demo_a ?m = (m', Inr (dest, bs))" using demo_send by blast
  obtain os1 where "raise_mq_rlimit default_mq_attr (w_mq demo_world) = Inr os1"
    using raise_granted [of "w_mq demo_world" default_mq_attr]
    by (auto simp: demo_world_def Let_def empty_world_def small_mq_os_def)
  with datagram_reaches_its_socket [OF ok snd demo_queue_ok, of ?h demo_a default_mq_attr os1]
  obtain w1 r w2 where "sock_next_msg (Some (True, False)) (Some (iphdr_bytes ?h @ bs)) default_mq_attr demo_a demo_world = Some (Inl Timeout, w1)"
      "sock_next_msg (Some (False, True)) None default_mq_attr demo_b w1 = Some (Inr r, w2)" "same_segment r ?m"
    by (auto simp: demo_a_def demo_b_def loop_id_def addr_comparable_def tmp_msg_def msg_access_defs)
  then show ?thesis using snd by (auto simp: same_segment_def msg_access_defs tmp_msg_def zero_packet_def get_data_def)
qed

text \<open>
  C21: a datagram in which one byte of the transport part was changed on the way, be it in the header,
  in the checksum itself or in the data, is recognised as corrupt by whoever receives it.
\<close>

theorem corrupted_byte_is_detected:
  assumes "msg_ok m" and "base_send now ret a m = (m', Inr (dest, bs))" and "unat (data_len m) \<le> 131034"
    and "msg_ok r" and "data_len r = buf_len r" and "unat (data_len m) \<le> unat (buf_len r)"
    and "i < length bs" and "x \<noteq> bs ! i"
  shows "\<exists>r'. transfer_recvfrom (Some (iphdr_bytes h @ bs[i := x])) r = Inr r' \<and> check_msg_corruption r' = Inr True"
proof -
  note s = base_send_ok [OF assms(1,2)]
  have len: "length bs = 36 + unat (data_len m)" using s(1,3,5) by (simp add: length_tcp_data)
  let ?d = "iphdr_bytes h @ bs[i := x]"
  have "56 \<le> length ?d" "length ?d \<le> 56 + unat (buf_len r)" using len assms(6) by simp_all
  note f = fill_packet_ok [OF assms(4) this] and t = transfer_recvfrom_fill [OF assms(4,5) this(2)]
  have "\<not> wire_ok (bs[i := x])" using wire_update [OF s(2) _ _ assms(7,8)] len assms(3) by simp
  then have "check_msg_corruption (fill_packet ?d r) = Inr True" using check_wire [OF f(2)] f(1) by simp
  with t show ?thesis by blast
qed

theorem corrupted_byte_is_detected_witness:
  "\<exists>m' dest bs r'. base_send 100 39 demo_a (set_seq 9 (tmp_msg [1, 2, 3])) = (m', Inr (dest, bs)) \<and>
    transfer_recvfrom (Some (iphdr_bytes zero_iphdr @ bs[38 := bs ! 38 + 1])) (msg_new None 4) = Inr r' \<and>
    check_msg_corruption r' = Inr True"
proof -
  let ?m = "set_seq 9 (tmp_msg [1, 2, 3])"
  obtain m' dest bs where snd: "base_send 100 39 demo_a ?m = (m', Inr (dest, bs))" using demo_send by blast
  note s = base_send_ok [OF demo_msg_ok snd]
  have dl: "unat (data_len ?m) = 3" by (simp add: tmp_msg_def msg_access_defs)
  then have len: "length bs = 39" using s(1,3,5) by (simp add: length_tcp_data)
  have "msg_ok (msg_new None 4)" "data_len (msg_new None 4) = buf_len (msg_new None 4)" "unat (buf_len (msg_new None 4)) = 4"
    by (simp_all add: msg_new_ok)
  then show ?thesis
    using corrupted_byte_is_detected [OF demo_msg_ok snd, of "msg_new None 4" 38 "bs ! 38 + 1" zero_iphdr] snd len dl by auto
qed

text \<open>
  the check itself is not safe: for a datagram shorter than an IP header the length of the
  transport part wraps around and \<open>chsum\<close> reads outside the message.
\<close>

theorem short_datagram_check_faults:
  assumes "msg_ok r" and "data_len r = buf_len r" and "length bs < 20"
  shows "\<exists>r'. transfer_recvfrom (Some bs) r = Inr r' \<and> check_msg_corruption r' = Inl Fault"
proof -
  have t: "transfer_recvfrom (Some bs) r = Inr (fill_packet bs r)"
    using assms by (intro transfer_recvfrom_fill) simp_all
  have pb: "length (pbuf (packet (fill_packet bs r))) = unat (buf_len r)"
    using assms(1) by (simp add: fill_packet_def Let_def set_data_len_def load_packet_def msg_ok_def)
  have n: "unat (word_of_nat (length bs) :: size_t) = length bs" using assms(3) by (intro unat_word_of_nat_u64) simp
  have "tcp_data_sz (set_chsum 0 (fill_packet bs r)) = word_of_nat (length bs) - 20"
    by (simp add: tcp_data_sz_def fill_packet_def Let_def set_data_len_def msg_access_defs header_len_def sizeof_defs)
  moreover have "unat (word_of_nat (length bs) - 20 :: size_t) = 18446744073709551616 - (20 - length bs)"
    using assms(3) n by (simp add: unat_sub_if')
  ultimately have "\<not> unat (tcp_data_sz (set_chsum 0 (fill_packet bs r))) \<le> 36 + unat (buf_len r)"
    using assms(1,3) by (simp add: msg_ok_def)
  then have "check_msg_corruption (fill_packet bs r) = Inl Fault"
    using pb by (simp add: check_msg_corruption_def msg_chsum_def sizeof_defs msg_access_defs)
  with t show ?thesis by blast
qed

theorem short_datagram_check_faults_witness:
  "\<exists>r'. transfer_recvfrom (Some [69, 0, 0]) (msg_new None 4) = Inr r' \<and> check_msg_corruption r' = Inl Fault"
  by (rule short_datagram_check_faults) (simp_all add: msg_new_ok)

text \<open>
  C22: the first good datagram of a new client makes the server return a socket for the mirrored
  addresses, with freshly initialised shared memory, a queue of its own and the datagram as the
  only packet waiting in it.
\<close>

theorem accept_new_client:
  assumes "msg_ok m" and "56 \<le> length d" and "length d \<le> 56 + unat (buf_len m)" and "wire_ok (drop 20 d)"
    and "msg_socket_id (fill_packet d (cleanup_data_sz m)) = sid" and "addr_comparable (in_addr sid) (in_addr (sb_id serv))"
    and "mk sid = Inr b0" and "sb_id b0 = sid" and "int (length d) \<le> sint (max_packet_sz b0)" and "pc_of w p = P_None"
    and "w_sem_name w (sock_label sid) = None" and "w_shm_name w (sock_label sid) = None"
    and "mo_names (w_mq w) (sock_label sid) = None" and "mo_priv (w_mq w)" and "mo_rlim (w_mq w) \<noteq> None"
  shows "\<exists>b w2 j. accept_one_client mk p now junk serv (Some d # ds) m w = Some (Inr (b, w2)) \<and> sb_id b = sid \<and> sk b = p \<and>
    w_shm_name w2 (sock_label sid) = Some j \<and> so_state (w_shm w2 j) = OK \<and> queue_of (sock_label sid) (w_mq w2) = Some [d]"
proof -
  let ?f = "fill_packet d (cleanup_data_sz m)" and ?P = "\<lparr>mp_id = sb_id b0, mp_create = True, mp_attr = base_mq_attr b0\<rparr>"
  have len: "length d \<le> 56 + unat (buf_len (cleanup_data_sz m))" using assms(3) by (simp add: cleanup_ok)
  have pd: "packet_data ?f = d" by (rule packet_data_fill [OF cleanup_ok(1) [OF assms(1)] assms(2) len])
  obtain os1 where os1: "raise_mq_rlimit (base_mq_attr b0) (w_mq w) = Inr os1"
    using raise_granted assms(14,15) by blast
  then have names: "mo_names os1 (sock_label sid) = None" using raise_mq_rlimit_keeps assms(13) by fastforce
  let ?q = "\<lparr>smq_create = True, smq_label = sock_label sid, smq_mq = mo_next os1\<rparr>"
  let ?os = "os1\<lparr>mo_names := (mo_names os1)(sock_label sid \<mapsto> mo_next os1), mo_next := mo_next os1 + 1,
    mo_obj := (mo_obj os1)(mo_next os1 := \<lparr>mqu_attr = base_mq_attr b0, mqu_msgs = []\<rparr>)\<rparr>"
  have op: "sock_mq_open True ?P (w_mq w) = (Inr ?q, ?os)"
    using os1 names assms(8) by (simp add: sock_mq_open_def mq_open_def)
  from full_ctor_fresh [OF assms(10) _ _ op, of now] assms(8,11,12) obtain b w1 where b: "full_ctor p now b0 w = Some (b, w1)"
      "sb_id b = sid" "sk b = p" "w_mq w1 = ?os" "get_mq p w1 = Inr ?q" "w_shm_name w1 (sock_label sid) = Some (w_shm_next w)"
      "so_state (w_shm w1 (w_shm_next w)) = OK"
    by auto
  have "put_msg ?q d 1 ?os = Some (Inr (?os\<lparr>mo_obj := (mo_obj ?os)(mo_next os1 := \<lparr>mqu_attr = base_mq_attr b0, mqu_msgs = [(1, d)]\<rparr>)\<rparr>))"
    using assms(9) by (simp add: put_msg_def mq_send_def MQ_PRIO_MAX_def base_mq_attr_def default_tcp_mq_attr_def)
  then obtain w2 where w2: "enqueue_msg b ?f w1 = Some (Inr w2)" "w_shm w2 = w_shm w1" "w_shm_name w2 = w_shm_name w1"
      "queue_of (sock_label sid) (w_mq w2) = Some [d]"
    using b(3-5) pd by (simp add: enqueue_msg_def queue_of_def mbox_contents_def)
  have "accept_one_client mk p now junk serv (Some d # ds) m w = Some (Inr (b, w2))"
    using accept_round [where mk = mk, OF assms(1-7) b(1), of junk ds] w2(1) by simp
  with b w2 show ?thesis by auto
qed

text \<open>A datagram of the first demo socket, as the server of the second one's address sees it.\<close>

definition demo_serv :: socket_base where
  "demo_serv = \<lparr>sb_id = socket_identify_of (out_addr loop_id), max_packet_sz = 1500, max_data_sz = 1444\<rparr>"

definition demo_mk :: "socket_identify \<Rightarrow> socket_base res" where
  "demo_mk sid = Inr \<lparr>sb_id = sid, max_packet_sz = 1500, max_data_sz = 1444\<rparr>"

lemma demo_datagram:
  "\<exists>d. length d = 59 \<and> wire_ok (drop 20 d) \<and>
     addr_comparable (in_addr (msg_socket_id (fill_packet d (cleanup_data_sz (msg_new None 1444))))) (in_addr (sb_id demo_serv))"
proof -
  let ?m = "set_seq 9 (tmp_msg [1, 2, 3])" and ?r = "cleanup_data_sz (msg_new None 1444)"
  let ?h = "zero_iphdr\<lparr>saddr := 16777343, daddr := 16777343\<rparr>"
  obtain m' dest bs where snd: "base_send 100 39 demo_a ?m = (m', Inr (dest, bs))" using demo_send by blast
  note s = base_send_ok [OF demo_msg_ok snd]
  have dl: "unat (data_len m') = 3" unfolding s(5) by (simp add: tmp_msg_def msg_access_defs)
  have r: "msg_ok ?r" "buf_len ?r = 1444" by (simp_all add: msg_new_ok cleanup_ok)
  note f = fill_packet_segment [OF r(1) s(3), of ?h]
  have len: "length (iphdr_bytes ?h @ bs) = 59" using s(1,3) dl by (simp add: length_tcp_data)
  moreover have "addr_comparable (in_addr (msg_socket_id (fill_packet (iphdr_bytes ?h @ bs) ?r))) (in_addr (sb_id demo_serv))"
    using f dl r(2) s(1,13) by (simp add: addr_comparable_def msg_socket_id_def get_dest_addr_def msg_hdr_def demo_serv_def
        socket_identify_of_def loop_id_def demo_a_def)
  ultimately show ?thesis using s(2) by (intro exI [of _ "iphdr_bytes ?h @ bs"]) simp
qed

theorem accept_new_client_witness:
  "\<exists>d b w2. accept_one_client demo_mk 0 5 default_mq_attr demo_serv [Some d] (msg_new None 1444) (empty_world small_mq_os) = Some (Inr (b, w2)) \<and>
     sk b = 0 \<and> queue_of (sock_label (sb_id b)) (w_mq w2) = Some [d]"
proof -
  obtain d where d: "length d = 59" "wire_ok (drop 20 d)"
      "addr_comparable (in_addr (msg_socket_id (fill_packet d (cleanup_data_sz (msg_new None 1444))))) (in_addr (sb_id demo_serv))"
    using demo_datagram by blast
  have "\<exists>b w2 j. accept_one_client demo_mk 0 5 default_mq_attr demo_serv [Some d] (msg_new None 1444) (empty_world small_mq_os) =
      Some (Inr (b, w2)) \<and> sb_id b = msg_socket_id (fill_packet d (cleanup_data_sz (msg_new None 1444))) \<and> sk b = 0 \<and>
      w_shm_name w2 (sock_label (msg_socket_id (fill_packet d (cleanup_data_sz (msg_new None 1444))))) = Some j \<and> so_state (w_shm w2 j) = OK \<and>
      queue_of (sock_label (msg_socket_id (fill_packet d (cleanup_data_sz (msg_new None 1444))))) (w_mq w2) = Some [d]"
    by (rule accept_new_client [where mk = demo_mk, OF _ _ _ d(2) refl d(3) demo_mk_def])
      (simp_all add: d(1) msg_new_ok empty_world_def no_proc_def small_mq_os_def)
  then show ?thesis by metis
qed

text \<open>
  the server does not recognise a client it has already accepted: on the next good datagram from
  the same client it constructs a second socket for the same label, which attaches to the existing
  shared memory and has no queue, and then dereferences the null queue.
\<close>

theorem accept_known_client_faults:
  assumes "msg_ok m" and "56 \<le> length d" and "length d \<le> 56 + unat (buf_len m)" and "wire_ok (drop 20 d)"
    and "msg_socket_id (fill_packet d (cleanup_data_sz m)) = sid" and "addr_comparable (in_addr sid) (in_addr (sb_id serv))"
    and "mk sid = Inr b0" and "sb_id b0 = sid" and "pc_of w p = P_None"
    and "w_sem_name w (sock_label sid) = Some i" and "w_sem w i = 1"
    and "w_shm_name w (sock_label sid) = Some j" and "so_state (w_shm w j) = OK"
  shows "accept_one_client mk p now junk serv (Some d # ds) m w = Some (Inl Fault)"
proof -
  obtain w1 where "full_ctor p now b0 w = Some (\<lparr>sb_id = sb_id b0, max_packet_sz = max_packet_sz b0, max_data_sz = max_data_sz b0,
      start_timestamp = now, sk = p\<rparr>, w1)" "get_mq p w1 = Inl Fault"
    using full_ctor_attach [of w p b0 i j now] assms(8-13) by auto
  with accept_round [where mk = mk, OF assms(1-7), of p now w _ w1 junk ds] show ?thesis by (simp add: enqueue_msg_def)
qed

theorem accept_known_client_faults_witness:
  "\<exists>d w. accept_one_client demo_mk 1 5 default_mq_attr demo_serv [Some d] (msg_new None 1444) w = Some (Inl Fault)"
proof -
  obtain d where d: "length d = 59" "wire_ok (drop 20 d)"
      "addr_comparable (in_addr (msg_socket_id (fill_packet d (cleanup_data_sz (msg_new None 1444))))) (in_addr (sb_id demo_serv))"
    using demo_datagram by blast
  let ?sid = "msg_socket_id (fill_packet d (cleanup_data_sz (msg_new None 1444)))" and ?w = "empty_world small_mq_os"
  let ?b = "\<lparr>sb_id = ?sid, max_packet_sz = 1500, max_data_sz = 1444\<rparr>"
  obtain q os where q: "sock_mq_open True \<lparr>mp_id = sb_id ?b, mp_create = True, mp_attr = base_mq_attr ?b\<rparr> (w_mq ?w) = (Inr q, os)"
    using mq_open_granted [of small_mq_os "\<lparr>mp_id = sb_id ?b, mp_create = True, mp_attr = base_mq_attr ?b\<rparr>"]
    by (auto simp: small_mq_os_def empty_world_def)
  have e: "pc_of ?w r = P_None" "w_sem_name ?w l = None" "w_shm_name ?w l = None" for r l
    by (simp_all add: empty_world_def no_proc_def)
  note fresh = full_ctor_fresh [OF e(1,2,3) q, of 0 0, unfolded socket_base.select_convs]
  from fresh obtain w1 :: world where w1: "w_sem_name w1 (sock_label ?sid) = Some (w_sem_next ?w)"
      "w_sem w1 (w_sem_next ?w) = 1" "w_shm_name w1 (sock_label ?sid) = Some (w_shm_next ?w)" "so_state (w_shm w1 (w_shm_next ?w)) = OK"
      "\<forall>r. r \<noteq> 0 \<longrightarrow> w_proc w1 r = w_proc ?w r"
    by blast
  then have p1: "pc_of w1 (Suc 0) = P_None" using e(1) by simp
  have "accept_one_client demo_mk 1 5 default_mq_attr demo_serv [Some d] (msg_new None 1444) w1 = Some (Inl Fault)"
    by (rule accept_known_client_faults [where mk = demo_mk, OF _ _ _ d(2) refl d(3) demo_mk_def _ _ w1(1-4)])
      (simp_all add: d(1) msg_new_ok p1 e)
  then show ?thesis by blast
qed

end
