(* ===== verification/Send_Worker.thy ===== *)
theory Send_Worker
  imports Send_Path Socket_Base
begin

text \<open>
  The send worker: \<open>output_send_buf_worker\<close>, \<open>output_send_finally\<close> and
  \<open>output_sent_buf_wait_not_empty\<close> of \<open>src/newimpl.cpp\<close>, and the thread handling of class \<open>worker\<close> in
  \<open>src/tcp_engine.h\<close>. The worker takes the next message under \<open>send_worker_lock\<close>, releases the lock,
  sends the message in place from the shared buffer and polls for its acknowledgement. Between the
  steps below the lock is free and the other threads may change the state.
\<close>

section \<open>Class worker\<close>

text \<open>\<open>wt_running\<close>: the thread of \<open>do_job\<close> exists and has not ended; \<open>wt_spawned\<close> is a history.\<close>

record worker_thread =
  wt_started :: bool
  wt_active :: bool
  wt_joinable :: bool
  wt_running :: bool
  wt_spawned :: nat

definition worker_ctor :: worker_thread where
  "worker_ctor = \<lparr>wt_started = False, wt_active = True, wt_joinable = False, wt_running = False, wt_spawned = 0\<rparr>"

definition worker_start :: "worker_thread \<Rightarrow> worker_thread" where
  "worker_start t =
     (if wt_started t then t
      else t\<lparr>wt_started := True, wt_joinable := True, wt_running := True, wt_spawned := wt_spawned t + 1\<rparr>)"

text \<open>\<open>join\<close> waits (\<open>None\<close>) while the thread runs.\<close>

definition worker_join :: "worker_thread \<Rightarrow> worker_thread option" where
  "worker_join t =
     (if wt_started t
      then (if wt_joinable t then (if wt_running t then None else Some (t\<lparr>wt_joinable := False, wt_started := False\<rparr>))
            else Some (t\<lparr>wt_started := False\<rparr>))
      else Some t)"

definition set_passive :: "worker_thread \<Rightarrow> worker_thread" where
  "set_passive t = t\<lparr>wt_active := False\<rparr>"

definition is_active :: "worker_thread \<Rightarrow> bool" where
  "is_active t = wt_active t"

text \<open>The end of \<open>do_job\<close>: the loop has seen that the worker is passive.\<close>

definition job_ends :: "worker_thread \<Rightarrow> worker_thread option" where
  "job_ends t = (if wt_running t \<and> \<not> is_active t then Some (t\<lparr>wt_running := False\<rparr>) else None)"

text \<open>The calls on a worker, in any order.\<close>

inductive worker_call :: "worker_thread \<Rightarrow> worker_thread \<Rightarrow> bool" where
  start: "worker_call t (worker_start t)"
| join: "worker_join t = Some t' \<Longrightarrow> worker_call t t'"
| stopped: "worker_call t (set_passive t)"
| ends: "job_ends t = Some t' \<Longrightarrow> worker_call t t'"

definition worker_inv :: "worker_thread \<Rightarrow> bool" where
  "worker_inv t \<longleftrightarrow> (wt_running t \<longrightarrow> wt_started t \<and> wt_joinable t) \<and> (wt_started t \<longrightarrow> wt_joinable t)"

section \<open>The send worker\<close>

text \<open>
  Where the worker stands: at the top of its loop, in the timed wait for a filled buffer, behind that
  wait, before sending the message at an address with its timeout, in the polling loop with the
  timeout and the time already waited (both in ms), at its end. \<open>K_Fault\<close>: memory outside the buffer
  was accessed.
\<close>

datatype kpc = K_Top | K_Wait | K_Woken | K_Send nat size_t | K_Poll nat int int | K_Exit | K_Fault

text \<open>\<open>wk_lock\<close> is the count of \<open>send_worker_lock\<close> as the worker finds it; \<open>wk_wire\<close> are the datagrams
  handed to the raw socket.\<close>

record wk_cfg =
  wk_out :: out_st
  wk_pc :: kpc
  wk_active :: bool
  wk_lock :: nat
  wk_wire :: "(sockaddr_in \<times> u8 list) list"

text \<open>\<open>send\<close> works on the message in place: it writes the two headers back.\<close>

definition store_hdr :: "nat \<Rightarrow> msg \<Rightarrow> bmem \<Rightarrow> bmem" where
  "store_hdr p m buf = mem_write buf (p + 16) (iphdr_bytes (iph (packet m)) @ TCPHDR_bytes (tcph (packet m)))"

definition upd_buf :: "(bmem \<Rightarrow> bmem) \<Rightarrow> out_st \<Rightarrow> out_st" where
  "upd_buf f s = s\<lparr>o_buf := (o_buf s)\<lparr>sob_buf := f (sob_buf (o_buf s))\<rparr>\<rparr>"

text \<open>Under the lock: take the next message, or go to wait for one. An exception is caught and the loop
  starts again.\<close>

definition worker_next :: "wk_cfg \<Rightarrow> wk_cfg option" where
  "worker_next c =
     (if is_sent_buf_empty (wk_out c) then Some (c\<lparr>wk_pc := K_Wait\<rparr>)
      else case next_msg (wk_active c) (wk_out c) of
             None \<Rightarrow> None
           | Some (Inl Fault) \<Rightarrow> Some (c\<lparr>wk_pc := K_Fault\<rparr>)
           | Some (Inl e) \<Rightarrow> Some (c\<lparr>wk_pc := K_Top\<rparr>)
           | Some (Inr (p, t)) \<Rightarrow> Some (c\<lparr>wk_out := t, wk_pc := K_Send p (get_timeout (o_tc t))\<rparr>))"

text \<open>
  \<open>socket_sock_base::send\<close> without the lock. When it throws, the handler of the loop releases the lock
  that the worker does not hold.
\<close>

definition worker_send :: "size_t \<Rightarrow> int \<Rightarrow> socket_sock_base \<Rightarrow> nat \<Rightarrow> size_t \<Rightarrow> wk_cfg \<Rightarrow> wk_cfg" where
  "worker_send now ret b p tmo c =
     (case base_send now ret b (load_msg (sob_buf (o_buf (wk_out c))) p) of
        (m, r) \<Rightarrow>
          (let c1 = c\<lparr>wk_out := upd_buf (store_hdr p m) (wk_out c)\<rparr>
           in case r of
                Inl Fault \<Rightarrow> c1\<lparr>wk_pc := K_Fault\<rparr>
              | Inl e \<Rightarrow> c1\<lparr>wk_lock := wk_lock c + 1, wk_pc := K_Top\<rparr>
              | Inr d \<Rightarrow> c1\<lparr>wk_wire := wk_wire c @ [d], wk_pc := K_Poll p (sint tmo) 0\<rparr>))"

text \<open>One turn of the polling loop under the lock, or what follows the loop.\<close>

definition worker_poll :: "nat \<Rightarrow> int \<Rightarrow> int \<Rightarrow> wk_cfg \<Rightarrow> wk_cfg" where
  "worker_poll p tmo summary c =
     (let m = load_msg (sob_buf (o_buf (wk_out c))) p
      in if check_msg_complete m (wk_out c) then c\<lparr>wk_pc := K_Top\<rparr>
         else if summary < tmo then c\<lparr>wk_pc := K_Poll p tmo (summary + 100)\<rparr>
         else case output_on_retry m (wk_out c) of
                Inl Fault \<Rightarrow> c\<lparr>wk_pc := K_Fault\<rparr>
              | Inl e \<Rightarrow> c\<lparr>wk_pc := K_Top\<rparr>
              | Inr t \<Rightarrow> c\<lparr>wk_out := t, wk_pc := K_Top\<rparr>)"

text \<open>A step of the worker; \<open>None\<close> where it waits for the lock or has ended. In the timed wait a posted
  semaphore is taken; otherwise the wait times out.\<close>

definition send_worker :: "tcp_state \<Rightarrow> size_t \<Rightarrow> int \<Rightarrow> socket_sock_base \<Rightarrow> wk_cfg \<Rightarrow> wk_cfg option" where
  "send_worker state now ret b c =
     (case wk_pc c of
        K_Top \<Rightarrow>
          (if \<not> wk_active c then Some (c\<lparr>wk_pc := K_Exit\<rparr>)
           else if wk_lock c = 0 then None
           else if state = ESTABLISHED then worker_next c
           else Some c)
      | K_Wait \<Rightarrow> Some (c\<lparr>wk_out := (wk_out c)\<lparr>buf_not_empty := buf_not_empty (wk_out c) - 1\<rparr>, wk_pc := K_Woken\<rparr>)
      | K_Woken \<Rightarrow>
          (if \<not> wk_active c then Some (c\<lparr>wk_lock := wk_lock c + 1, wk_pc := K_Top\<rparr>)
           else if wk_lock c = 0 then None
           else worker_next c)
      | K_Send p tmo \<Rightarrow> Some (worker_send now ret b p tmo c)
      | K_Poll p tmo summary \<Rightarrow> (if wk_lock c = 0 then None else Some (worker_poll p tmo summary c))
      | K_Exit \<Rightarrow> None
      | K_Fault \<Rightarrow> None)"

text \<open>The worker polls while the other threads leave the given states.\<close>

fun poll_run :: "socket_sock_base \<Rightarrow> out_st list \<Rightarrow> wk_cfg \<Rightarrow> wk_cfg option" where
  "poll_run b [] c = Some c"
| "poll_run b (s # ss) c =
     (case send_worker ESTABLISHED 0 0 b (c\<lparr>wk_out := s\<rparr>) of None \<Rightarrow> None | Some d \<Rightarrow> poll_run b ss d)"

section \<open>Lemmas\<close>

text \<open>A worker has at most one thread: \<open>start\<close> never replaces a running one.\<close>

lemma worker_call_inv: "worker_call t t' \<Longrightarrow> worker_inv t \<Longrightarrow> worker_inv t'"
  by (auto elim!: worker_call.cases simp: worker_inv_def worker_start_def worker_join_def set_passive_def job_ends_def split: if_splits)

interpretation wt: inv_system "\<lambda>t. t = worker_ctor" worker_call worker_inv
  by unfold_locales (auto simp: worker_call_inv, simp add: worker_inv_def worker_ctor_def)

lemma worker_one_thread:
  "worker_call\<^sup>*\<^sup>* worker_ctor t \<Longrightarrow> wt_running t \<Longrightarrow> worker_start t = t"
  using wt.reachable_inv [of worker_ctor t] by (simp add: worker_inv_def worker_start_def)

lemma upd_buf_sel [simp]:
  "o_cwp (upd_buf f s) = o_cwp s" "o_cwc (upd_buf f s) = o_cwc s" "o_tc (upd_buf f s) = o_tc s" "o_fr (upd_buf f s) = o_fr s"
  "sob_buf (o_buf (upd_buf f s)) = f (sob_buf (o_buf s))" "sob_sem (o_buf (upd_buf f s)) = sob_sem (o_buf s)"
  "buf_empty (upd_buf f s) = buf_empty s"
  by (simp_all add: upd_buf_def)

text \<open>Sending a stored segment in place leaves every stored segment as it is.\<close>

lemma store_hdr_seq:
  assumes "th_seq (msg_hdr m) = ld32 buf (p + 40)"
  shows "mem_read (store_hdr p m buf) (p + 40) 4 = mem_read buf (p + 40) 4"
proof -
  have "mem_holds (store_hdr p m buf) (p + 16) (iphdr_bytes (iph (packet m)) @ TCPHDR_bytes (tcph (packet m)))"
    unfolding store_hdr_def by (rule mem_holds_write)
  then have "mem_holds (store_hdr p m buf) (p + 40) (le32 (th_seq (msg_hdr m)))"
    by (simp add: TCPHDR_bytes_def tcphdr_bytes_def msg_hdr_def add.assoc add.commute)
  then show ?thesis by (simp add: mem_holds_def assms le_ld)
qed

lemma store_hdr_rep:
  assumes "buf_rep start s (ps @ q # qs)" and "th_seq (msg_hdr m) = ld32 (sob_buf s) (slots_len ps + off_msg_data + 40)"
  shows "buf_rep start (s\<lparr>sob_buf := store_hdr (slots_len ps + off_msg_data) m (sob_buf s)\<rparr>) (ps @ q # qs)"
proof -
  let ?p = "slots_len ps + off_msg_data"
  let ?buf = "store_hdr ?p m (sob_buf s)"
  have out: "?buf k = sob_buf s k" if "k < slots_len ps + 49 \<or> slots_len ps + 105 \<le> k" for k
    using that by (auto simp: store_hdr_def inplace_defs mem_write_outside)
  have seq: "?buf (slots_len ps + i) = sob_buf s (slots_len ps + i)" if "73 \<le> i" "i < 77" for i
  proof -
    have "mem_read ?buf (?p + 40) 4 ! (i - 73) = mem_read (sob_buf s) (?p + 40) 4 ! (i - 73)"
      by (simp only: store_hdr_seq [OF assms(2)])
    with that show ?thesis by (simp add: inplace_defs)
  qed
  have "?buf (slots_len us + i) = sob_buf s (slots_len us + i)"
    if us: "ps @ q # qs = us @ r # vs" "slot_byte (length r) i" for us r vs i
  proof (cases "slots_len ps + 49 \<le> slots_len us + i \<and> slots_len us + i < slots_len ps + 105")
    case True
    define j where "j = slots_len us + i - slots_len ps"
    then have j: "slots_len us + i = slots_len ps + j" "49 \<le> j" "j < 105" using True by linarith+
    show ?thesis
    proof (cases "73 \<le> j \<and> j < 77")
      case False
      with slots_disjoint [OF us(1) [symmetric], of j i] us(2) j show ?thesis by (auto simp: slot_byte_def)
    qed (use seq j in auto)
  qed (use out in auto)
  then have "chain ?buf (off_map s) start (ps @ q # qs) 0 0"
    using assms(1) by (subst chain_frame_slots [where buf = "sob_buf s"]) (auto simp: buf_rep_def)
  then show ?thesis using assms(1) by (simp add: buf_rep_def)
qed

lemma load_msg_seq: "th_seq (msg_hdr (load_msg buf p)) = ld32 buf (p + 40)"
  by (simp add: load_msg_def load_packet_def load_TCPHDR_def load_tcphdr_def msg_hdr_def sizeof_defs add.assoc)

text \<open>The message of an outstanding segment, as the worker finds it.\<close>

lemma stored_msg:
  assumes "out_rep s ps (q # qs)"
  defines "m \<equiv> load_msg (sob_buf (o_buf s)) (slots_len ps + off_msg_data)"
  shows "msg_ok m" "unat (data_len m) = length q" "get_data m = q"
    "get_seq m = size_to_seq (cwp_start (o_cwp s) + word_of_nat (stream_len ps))"
proof -
  have rep: "buf_rep (cwp_start (o_cwp s)) (o_buf s) (ps @ q # qs)" using assms(1) by (simp add: out_rep_def)
  have le: "length q \<le> 1000" using buf_rep_bounds(1) [OF rep] by simp
  have n: "unat (word_of_nat (length q) :: size_t) = length q" using le by (simp add: unat_word_of_nat_u64)
  have sl: "buf_len m = word_of_nat (length q)" "data_len m = word_of_nat (length q)" "pbuf (packet m) = q"
      "get_seq m = size_to_seq (cwp_start (o_cwp s) + word_of_nat (stream_len ps))"
    using buf_rep_slot [OF rep] by (simp_all add: slot_at_def m_def Let_def)
  then show "get_seq m = size_to_seq (cwp_start (o_cwp s) + word_of_nat (stream_len ps))" "unat (data_len m) = length q" "get_data m = q"
    using n by (simp_all add: get_data_def)
  show "msg_ok m" using sl n le by (simp add: msg_ok_def)
qed

text \<open>When the kernel takes the whole datagram, \<open>send\<close> succeeds.\<close>

lemma base_send_granted:
  assumes "msg_ok m" and "ret = int (36 + unat (data_len m))"
  shows "\<exists>m' dest bs. base_send now ret b m = (m', Inr (dest, bs))"
proof -
  let ?m1 = "set_dest_addr (out_addr (sb_id b)) (set_src_addr (in_addr (sb_id b)) m)" and ?ts = "get_timestamp now b"
  let ?m2 = "set_chsum 0 (set_sender_timestamp ?ts (set_recv_timestamp ?ts ?m1))"
  have ok: "msg_ok ?m2" using assms(1) by (simp add: msg_ok_def msg_access_defs)
  let ?c = "chsum (tcp_data ?m2)"
  have be: "base_send now ret b m = (set_chsum ?c ?m2, transfer_send_to ret (set_chsum ?c ?m2))"
    by (simp add: base_send_def Let_def msg_chsum_ok [OF ok])
  have "tcp_data_sz (set_chsum x ?m2) = word_of_int ret" for x
    by (simp add: assms(2) tcp_data_sz_def msg_access_defs sizeof_defs)
  then have "transfer_send_to ret (set_chsum x ?m2) = Inr (get_dest_addr (set_chsum x ?m2), tcp_data (set_chsum x ?m2))" for x
    unfolding transfer_send_to_def by (simp only: not_True_eq_False if_False simp_thms)
  note tr = this [of ?c]
  show ?thesis by (intro exI) (unfold be tr, rule refl)
qed

lemma worker_send_ok:
  assumes "out_rep (wk_out c) ps (q # qs)" and "ret = int (36 + length q)"
  defines "p \<equiv> slots_len ps + off_msg_data" and "m \<equiv> load_msg (sob_buf (o_buf (wk_out c))) (slots_len ps + off_msg_data)"
  shows "\<exists>m' dest bs. base_send now ret b m = (m', Inr (dest, bs)) \<and>
    worker_send now ret b p tmo c = c\<lparr>wk_out := upd_buf (store_hdr p m') (wk_out c), wk_wire := wk_wire c @ [(dest, bs)],
      wk_pc := K_Poll p (sint tmo) 0\<rparr> \<and>
    out_rep (upd_buf (store_hdr p m') (wk_out c)) ps (q # qs)"
proof -
  note st = stored_msg [OF assms(1), folded m_def]
  have "ret = int (36 + unat (data_len m))" by (simp only: st(2) assms(2))
  from base_send_granted [OF st(1) this] obtain m' dest bs where s: "base_send now ret b m = (m', Inr (dest, bs))" by blast
  have "get_seq m' = get_seq m" using base_send_ok(4) [OF st(1) s] by (simp add: same_segment_def)
  then have "th_seq (msg_hdr m') = ld32 (sob_buf (o_buf (wk_out c))) (p + 40)"
    by (simp add: get_seq_def m_def p_def load_msg_seq)
  then have "out_rep (upd_buf (store_hdr p m') (wk_out c)) ps (q # qs)"
    using assms(1) store_hdr_rep [of "cwp_start (o_cwp (wk_out c))" "o_buf (wk_out c)" ps q qs m']
    by (simp add: out_rep_def upd_buf_def p_def)
  with s show ?thesis by (simp add: worker_send_def m_def p_def Let_def)
qed

text \<open>The worker takes the oldest outstanding segment.\<close>

lemma worker_next_eq:
  assumes "out_rep (wk_out c) ps (q # qs)" and "\<not> is_msg_used (slots_len ps + off_msg_data) (sob_buf (o_buf (wk_out c)))"
  shows "worker_next c = Some (c\<lparr>wk_out := upd_buf (mark_msg_used (slots_len ps + off_msg_data) True) (wk_out c),
      wk_pc := K_Send (slots_len ps + off_msg_data) (get_timeout (o_tc (wk_out c)))\<rparr>)"
    and "out_rep (upd_buf (mark_msg_used (slots_len ps + off_msg_data) True) (wk_out c)) ps (q # qs)"
proof -
  have "\<not> is_sent_buf_empty (wk_out c)" using sent_buf_empty_iff [OF assms(1)] by (simp add: is_sent_buf_empty_def)
  then show "worker_next c = Some (c\<lparr>wk_out := upd_buf (mark_msg_used (slots_len ps + off_msg_data) True) (wk_out c),
      wk_pc := K_Send (slots_len ps + off_msg_data) (get_timeout (o_tc (wk_out c)))\<rparr>)"
    using next_msg_eq [OF assms, of "wk_active c"] by (simp add: worker_next_def upd_buf_def)
  show "out_rep (upd_buf (mark_msg_used (slots_len ps + off_msg_data) True) (wk_out c)) ps (q # qs)"
    using next_msg_ok [OF assms, of True] next_msg_eq [OF assms, of True] by (simp add: upd_buf_def)
qed

text \<open>As long as a segment is outstanding the worker does not see it as complete.\<close>

definition still_waiting :: "u8 list list \<Rightarrow> u8 list \<Rightarrow> size_t \<Rightarrow> out_st \<Rightarrow> bool" where
  "still_waiting ps q start s \<longleftrightarrow> cwp_start (o_cwp s) = start \<and> (\<exists>qs. out_rep s ps (q # qs))"

lemma outstanding_incomplete:
  assumes "out_rep s ps (q # qs)" and "unat (cwp_start (o_cwp s)) + 1000 \<le> 4294967296"
  shows "\<not> check_msg_complete (load_msg (sob_buf (o_buf s)) (slots_len ps + off_msg_data)) s"
proof -
  let ?m = "load_msg (sob_buf (o_buf s)) (slots_len ps + off_msg_data)" and ?st = "cwp_start (o_cwp s)"
  have lt: "stream_len ps < 1000"
    using out_rep_nat(3) [OF assms(1)] assms(1) by (cases q) (auto simp: out_rep_def buf_rep_def chain_append)
  then have "unat (word_of_nat (stream_len ps) :: size_t) = stream_len ps" by (simp add: unat_word_of_nat_u64)
  then have "unat (?st + word_of_nat (stream_len ps)) = unat ?st + stream_len ps"
    using lt assms(2) unat_plus_no_wrap [of ?st "word_of_nat (stream_len ps)"] by simp
  then have "unat (get_seq ?m) = unat ?st + stream_len ps"
    using lt assms(2) by (simp add: stored_msg(4) [OF assms(1)] unat_size_to_seq)
  from set_off_at(1) [OF assms this order_refl lt] show ?thesis by (simp add: check_msg_complete_def)
qed

lemma poll_waits:
  assumes "list_all (still_waiting ps q start) ss" and "unat start + 1000 \<le> 4294967296" and "0 < wk_lock c"
    and "wk_pc c = K_Poll (slots_len ps + off_msg_data) tmo x" and "x + 100 * int (length ss) < tmo + 100"
  shows "\<exists>d. poll_run b ss c = Some d \<and> wk_pc d = K_Poll (slots_len ps + off_msg_data) tmo (x + 100 * int (length ss)) \<and>
    wk_lock d = wk_lock c"
  using assms
proof (induction ss arbitrary: c x)
  case (Cons s ss)
  obtain qs where s: "out_rep s ps (q # qs)" "cwp_start (o_cwp s) = start" using Cons.prems(1) by (auto simp: still_waiting_def)
  let ?p = "slots_len ps + off_msg_data"
  let ?d = "c\<lparr>wk_out := s, wk_pc := K_Poll ?p tmo (x + 100)\<rparr>"
  have "send_worker ESTABLISHED 0 0 b (c\<lparr>wk_out := s\<rparr>) = Some ?d"
    using outstanding_incomplete [OF s(1)] s(2) Cons.prems(2-5) by (simp add: send_worker_def worker_poll_def Let_def)
  moreover have "\<exists>d. poll_run b ss ?d = Some d \<and> wk_pc d = K_Poll ?p tmo (x + 100 + 100 * int (length ss)) \<and> wk_lock d = wk_lock ?d"
    using Cons.prems by (intro Cons.IH) simp_all
  ultimately show ?case by (simp add: algebra_simps)
qed simp

lemma poll_ends:
  assumes "0 < wk_lock c" and "wk_pc c = K_Poll p tmo x" and "tmo \<le> x + 100 * (int (length ss) - 1)" and "ss \<noteq> []"
  shows "\<exists>k d. poll_run b (take k ss) c = Some d \<and> (wk_pc d = K_Top \<or> wk_pc d = K_Fault)"
  using assms
proof (induction ss arbitrary: c x)
  case (Cons s ss)
  let ?c = "c\<lparr>wk_out := s\<rparr>"
  have step: "send_worker ESTABLISHED 0 0 b ?c = Some (worker_poll p tmo x ?c)"
    using Cons.prems(1,2) by (simp add: send_worker_def)
  consider (stop) "wk_pc (worker_poll p tmo x ?c) = K_Top \<or> wk_pc (worker_poll p tmo x ?c) = K_Fault"
    | (more) "x < tmo" "worker_poll p tmo x ?c = ?c\<lparr>wk_pc := K_Poll p tmo (x + 100)\<rparr>"
    by (force simp: worker_poll_def Let_def split: if_splits sum.splits tcp_exn.splits)
  then show ?case
  proof cases
    case stop
    with step show ?thesis by (intro exI [of _ 1]) simp
  next
    case more
    then have "ss \<noteq> []" using Cons.prems(3) by auto
    then have "\<exists>k d. poll_run b (take k ss) (?c\<lparr>wk_pc := K_Poll p tmo (x + 100)\<rparr>) = Some d \<and> (wk_pc d = K_Top \<or> wk_pc d = K_Fault)"
      using Cons.prems by (intro Cons.IH) (simp_all, linarith)
    then obtain k d where "poll_run b (take k ss) (?c\<lparr>wk_pc := K_Poll p tmo (x + 100)\<rparr>) = Some d" "wk_pc d = K_Top \<or> wk_pc d = K_Fault" by blast
    with step more show ?thesis by (intro exI [of _ "Suc k"]) simp
  qed
qed simp

lemma poll_run_append:
  "poll_run b ss c = Some d \<Longrightarrow> poll_run b (ss @ ts) c = poll_run b ts d"
  by (induction ss arbitrary: c) (auto split: option.splits)

section \<open>Properties\<close>


text \<open>The worker of a socket with one segment to send.\<close>

definition demo_worker :: "out_st \<Rightarrow> wk_cfg" where
  "demo_worker s = \<lparr>wk_out = s, wk_pc = K_Top, wk_active = True, wk_lock = 1, wk_wire = []\<rparr>"

lemma put_unused:
  assumes "length p \<le> 1000"
  shows "\<not> is_msg_used a (msg_copy_to buf a (set_seq q (tmp_msg p)))" "msg_copy_to buf a (set_seq q (tmp_msg p)) (a + 49) = 0"
    "i < a \<Longrightarrow> msg_copy_to buf a (set_seq q (tmp_msg p)) i = buf i"
proof -
  let ?m = "set_seq q (tmp_msg p)"
  have n: "unat (word_of_nat (length p) :: size_t) = length p" using assms by (simp add: unat_word_of_nat_u64)
  have w: "msg_copy_to buf a ?m = mem_write buf a (msg_bytes ?m)" by (rule msg_copy_to_full) (simp_all add: n)
  then have h: "mem_holds (msg_copy_to buf a ?m) a (msg_bytes ?m)" by (simp only: mem_holds_write)
  then have d: "mem_holds (msg_copy_to buf a ?m) (a + 32) (le32 0)"
    by (simp add: msg_bytes_def packet_bytes_def iphdr_bytes_def tmp_msg_def zero_packet_def zero_iphdr_def msg_access_defs add.commute)
  have "nat_to_le k 0 = replicate k 0" for k by (induction k) simp_all
  with d have "mem_read (msg_copy_to buf a ?m) (a + 32) 4 = replicate 4 0" by (simp add: mem_holds_def le32_def)
  then have "mem_read (msg_copy_to buf a ?m) (a + 32) 4 ! 0 = replicate 4 0 ! 0" by simp
  then show "\<not> is_msg_used a (msg_copy_to buf a ?m)" by (simp add: is_msg_used_def inplace_defs)
  show "msg_copy_to buf a ?m (a + 49) = 0"
    using h by (simp add: msg_bytes_def packet_bytes_def TCPHDR_bytes_def tcphdr_bytes_def tmp_msg_def zero_packet_def zero_tcphdr_def
        msg_access_defs add.commute)
  show "i < a \<Longrightarrow> msg_copy_to buf a ?m i = buf i" unfolding w by (simp add: mem_write_outside)
qed

lemma put_msg_at_buf:
  assumes "put_msg_at off m s = Inr (f, t)" and "real_off off s = Inr r"
  shows "sob_buf t = msg_copy_to (sob_buf s) (unat r + off_msg_data) m"
  using assms
  by (auto simp: put_msg_at_def put_msg_inplace_def put_real_off_def Let_def split: if_splits sum.splits prod.splits)

lemma scw_send_buf:
  assumes "out_rep s ps qs" and "scw_send (tmp_msg p) s = Inr (f, t)"
  shows "\<exists>q. sob_buf (o_buf t) = msg_copy_to (sob_buf (o_buf s)) (slots_len (ps @ qs) + off_msg_data) (set_seq q (tmp_msg p))"
proof -
  let ?w = "cwp_setup (o_cwp s)" and ?off = "cwp_send_off (o_cwp s)"
  have rep: "buf_rep (cwp_start (o_cwp s)) (o_buf s) ((ps @ qs) @ [])" and off: "?off = word_of_nat (stream_len (ps @ qs))"
    using assms(1) by (simp_all add: out_rep_def)
  obtain b where b: "put_msg_at ?off (set_seq (size_to_seq (sent_begin ?w)) (tmp_msg p)) (o_buf s) = Inr (f, b)" "o_buf t = b"
    using assms(2) by (auto simp: scw_send_def Let_def split: if_splits sum.splits)
  have "real_off ?off (o_buf s) = Inr (word_of_nat (slots_len (ps @ qs)))" using real_off_ok [OF rep] off by simp
  from put_msg_at_buf [OF b(1) this] buf_rep_prefix_bounds [OF rep] b(2) show ?thesis by auto
qed

lemma scw_send_unused:
  assumes "out_rep s ps qs" and "length p \<le> 1000" and "scw_send (tmp_msg p) s = Inr (f, t)"
  shows "\<not> is_msg_used (slots_len (ps @ qs) + off_msg_data) (sob_buf (o_buf t))"
  using scw_send_buf [OF assms(1,3)] put_unused(1) [OF assms(2)] by auto

lemma demo_segment:
  "\<exists>s. scw_send (tmp_msg [1, 2, 3]) (established_out 100) = Inr (0, s) \<and> out_rep s [] [[1, 2, 3]] \<and> cwp_start (o_cwp s) = 100 \<and>
     \<not> is_msg_used off_msg_data (sob_buf (o_buf s))"
proof -
  obtain f s where s: "scw_send (tmp_msg [1, 2, 3]) (established_out 100) = Inr (f, s)" "out_rep s [] [[1, 2, 3]]" "cwp_start (o_cwp s) = 100"
    using one_sent by blast
  moreover have "f = 0" using scw_send_ok [OF established_out_rep [of 100], of "[1, 2, 3]"] s(1) by simp
  moreover have "\<not> is_msg_used off_msg_data (sob_buf (o_buf s))" using scw_send_unused [OF established_out_rep _ s(1)] by simp
  ultimately show ?thesis by blast
qed




text \<open>
  the worker never waits longer than the timeout: whatever the other threads do, it leaves the
  polling loop after at most one poll more than hundreds of milliseconds fit into the timeout.
\<close>

theorem worker_wait_bounded:
  assumes "wk_pc c = K_Poll p tmo 0" and "0 < wk_lock c" and "max 0 ((tmo + 99) div 100) < int (length ss)"
  shows "\<exists>k d. poll_run b (take k ss) c = Some d \<and> (wk_pc d = K_Top \<or> wk_pc d = K_Fault)"
  using assms by (intro poll_ends [where x = 0]) auto

theorem worker_wait_bounded_witness:
  "\<exists>k d. poll_run demo_a (take k [established_out 7, established_out 8, established_out 9])
      ((demo_worker (established_out 7))\<lparr>wk_pc := K_Poll off_msg_data 150 0\<rparr>) = Some d \<and> (wk_pc d = K_Top \<or> wk_pc d = K_Fault)"
  by (rule worker_wait_bounded [where tmo = 150]) (simp_all add: demo_worker_def)

text \<open>What \<open>send\<close> writes into the message, also when it fails.\<close>

lemma base_send_fields:
  "th_seq (msg_hdr (fst (base_send now ret b m))) = th_seq (msg_hdr m)"
  "daddr (iph (packet (fst (base_send now ret b m)))) = sin_addr (out_addr (sb_id b))"
  by (cases "msg_chsum (set_chsum 0 (set_sender_timestamp (get_timestamp now b) (set_recv_timestamp (get_timestamp now b)
      (set_dest_addr (out_addr (sb_id b)) (set_src_addr (in_addr (sb_id b)) m)))))";
    simp add: base_send_def Let_def msg_access_defs)+

lemma base_send_refused:
  assumes "msg_ok m"
  shows "snd (base_send now (-1) b m) = Inl (Fuck ''tranfer_send_to : internal error'')"
proof -
  let ?m1 = "set_dest_addr (out_addr (sb_id b)) (set_src_addr (in_addr (sb_id b)) m)" and ?ts = "get_timestamp now b"
  let ?m2 = "set_chsum 0 (set_sender_timestamp ?ts (set_recv_timestamp ?ts ?m1))"
  have ok: "msg_ok ?m2" using assms by (simp add: msg_ok_def msg_access_defs)
  have "tcp_data_sz (set_chsum x ?m2) = tcp_data_sz m" for x by (simp add: tcp_data_sz_def msg_access_defs)
  moreover have "unat (tcp_data_sz m) = 36 + unat (data_len m)" "unat (data_len m) < 4611686018427387904"
    using unat_tcp_data_sz [OF msg_ok_data_len [OF assms]] assms by (simp_all add: msg_ok_def)
  moreover have "unat (- 1 :: size_t) = 18446744073709551615" by (simp add: unsigned_minus_1_eq_mask mask_eq_exp_minus_1)
  ultimately have "unat (- 1 :: size_t) \<noteq> unat (tcp_data_sz (set_chsum x ?m2))" for x by simp
  then have "- 1 \<noteq> tcp_data_sz (set_chsum x ?m2)" for x by metis
  then show ?thesis by (simp add: base_send_def Let_def msg_chsum_ok [OF ok] transfer_send_to_def)
qed

lemma store_hdr_daddr: "ld32 (store_hdr p m buf) (p + 32) = daddr (iph (packet m))"
proof -
  have "mem_holds (store_hdr p m buf) (p + 16) (iphdr_bytes (iph (packet m)) @ TCPHDR_bytes (tcph (packet m)))"
    unfolding store_hdr_def by (rule mem_holds_write)
  then have "mem_holds (store_hdr p m buf) (p + 32) (le32 (daddr (iph (packet m))))" by (simp add: iphdr_bytes_def add.commute)
  then show ?thesis by (rule ld32_holds)
qed

lemma used_after_send:
  assumes "unat (daddr (iph (packet m))) mod 256 \<noteq> 0"
  shows "is_msg_used p (store_hdr p m buf)"
proof (rule ccontr)
  let ?buf = "store_hdr p m buf"
  assume "\<not> is_msg_used p ?buf"
  then have "?buf (p + 32) = 0" by (simp add: is_msg_used_def inplace_defs)
  then have "unat (ld32 ?buf (p + 32)) = (256 * le_to_nat (mem_read ?buf (Suc (p + 32)) 3)) mod 4294967296"
    unfolding ld32_split unat_of_nat by simp
  then have "unat (ld32 ?buf (p + 32)) mod 256 = 0" by (simp add: mod_mod_cancel)
  with assms show False by (simp add: store_hdr_daddr)
qed

text \<open>A marked oldest segment is skipped by the length that the accessors report for it.\<close>

lemma marked_head_skipped:
  assumes "out_rep s ps (q # qs)" and "is_msg_used (slots_len ps + off_msg_data) (sob_buf (o_buf s))"
    and "stream_len (ps @ q # qs) \<le> stream_len ps + unat (get_msg_data_sz (slots_len ps + off_msg_data) (sob_buf (o_buf s)))"
    and "unat (get_msg_data_sz (slots_len ps + off_msg_data) (sob_buf (o_buf s))) < 4611686018427387904"
  shows "next_msg active s = Some (Inl Timeout)"
proof -
  let ?p = "slots_len ps + off_msg_data"
  let ?sz = "get_msg_data_sz ?p (sob_buf (o_buf s))"
  have rep: "buf_rep (cwp_start (o_cwp s)) (o_buf s) (ps @ q # qs)" using assms(1) by (simp add: out_rep_def)
  have off: "cwp_off (o_cwp s) = word_of_nat (stream_len ps)" using assms(1) by (simp add: out_rep_def)
  note nat = out_rep_nat [OF assms(1)]
  have "0 < length q" using rep by (auto simp: buf_rep_def chain_append)
  then have lt: "sint (cwp_off (o_cwp s)) < sint (cwp_send_off (o_cwp s))"
    using nat sint_small [of "cwp_off (o_cwp s)"] sint_small [of "cwp_send_off (o_cwp s)"]
    by (simp del: of_nat_unat length_greater_0_conv)
  have sum: "unat (cwp_off (o_cwp s) + ?sz) = stream_len ps + unat ?sz"
    using nat(1,3) assms(4) unat_plus_no_wrap [of "cwp_off (o_cwp s)" ?sz] by simp
  then have ge: "\<not> sint (cwp_off (o_cwp s) + ?sz) < sint (cwp_send_off (o_cwp s))"
    using nat assms(3,4) sint_small [of "cwp_off (o_cwp s) + ?sz"] sint_small [of "cwp_send_off (o_cwp s)"]
    by (simp del: of_nat_unat)
  have g: "get_msg_at (cwp_off (o_cwp s)) (o_buf s) = Inr ?p" using get_msg_at_ok [OF rep] by (simp add: off)
  have "next_msg_loop (cwp_off (o_cwp s) + ?sz) s = Some (Inl Timeout)" using ge by (subst next_msg_loop.simps) simp
  then have "next_msg_loop (cwp_off (o_cwp s)) s = Some (Inl Timeout)"
    using lt g assms(2) by (subst next_msg_loop.simps) simp
  then show ?thesis using sent_buf_empty_iff [OF assms(1)] by (simp add: next_msg_def)
qed



text \<open>A message seen in a part of the buffer that holds only zeros.\<close>

lemma le_to_nat_zeros: "le_to_nat (replicate k 0) = 0"
  by (induction k) simp_all

lemma load_msg_zeros:
  assumes "\<And>i. p \<le> i \<Longrightarrow> i < p + 72 \<Longrightarrow> buf i = 0"
  shows "msg_ok (load_msg buf p)" "data_len (load_msg buf p) = 0"
proof -
  have z: "mem_read buf (p + k) 8 = replicate 8 0" if "k + 8 \<le> 72" for k
    using assms that by (intro nth_equalityI) simp_all
  have "ld64 buf p = 0" "ld64 buf (p + 8) = 0" using z [of 0] z [of 8] by (simp_all add: ld64_def le_to_nat_zeros)
  then show "msg_ok (load_msg buf p)" "data_len (load_msg buf p) = 0" by (simp_all add: load_msg_def msg_ok_def load_packet_def)
qed

lemma zero_segment_bytes:
  assumes "out_rep s [] [replicate 900 0]" and "105 \<le> i" and "i < 1005"
  shows "sob_buf (o_buf s) i = 0"
proof -
  have "slot_at (sob_buf (o_buf s)) 0 (size_to_seq (cwp_start (o_cwp s))) (replicate 900 0)"
    using buf_rep_slot [of "cwp_start (o_cwp s)" "o_buf s" "[]" "replicate 900 0" "[]"] assms(1) by (simp add: out_rep_def)
  then have "mem_read (sob_buf (o_buf s)) 105 900 = replicate 900 0" by (subst (asm) slot_at_bytes) simp_all
  then have "mem_read (sob_buf (o_buf s)) 105 900 ! (i - 105) = replicate 900 0 ! (i - 105)" by (rule arg_cong)
  with assms(2,3) show ?thesis by simp
qed

text \<open>
  the worker sends from the shared buffer without the lock. When the acknowledgement of an earlier
  transmission completes the window between taking a segment and sending it, the buffer is reused;
  the worker then fills in addresses and checksum in the middle of a segment that the client sent
  meanwhile, and the stored data of that segment is destroyed before it was ever sent.
\<close>

theorem late_send_corrupts_buffer:
  assumes "out_rep (wk_out c) [q] [r]" and "length q = 100" and "length r = 900"
    and "unat (cwp_start (o_cwp (wk_out c))) + 1000 \<le> 2 ^ 32" and "unat (get_seq a) = unat (cwp_start (o_cwp (wk_out c))) + 999"
    and "wk_pc c = K_Send (slots_len [q] + off_msg_data) tmo" and "sin_addr (out_addr (sb_id b)) \<noteq> 0"
  shows "\<exists>t f u d. output_on_ack ESTABLISHED now a (wk_out c) = Some (Inr t) \<and>
    scw_send (tmp_msg (replicate 900 0)) t = Inr (f, u) \<and> out_rep u [] [replicate 900 0] \<and>
    send_worker ESTABLISHED now 36 b (c\<lparr>wk_out := u\<rparr>) = Some d \<and>
    get_data (load_msg (sob_buf (o_buf (wk_out d))) off_msg_data) \<noteq> replicate 900 0"
proof -
  have "unat (get_seq a) + 1 = unat (cwp_start (o_cwp (wk_out c))) + stream_len ([q] @ [r])" using assms(2,3,5) by simp
  from output_on_ack_ok [of "wk_out c" "[q]" "[r]" "[]", OF _ _ assms(4) this, of now] assms(1-3)
  obtain t where t: "output_on_ack ESTABLISHED now a (wk_out c) = Some (Inr t)" "out_rep t [] []" by auto
  from scw_send_ok [OF t(2), of "replicate 900 0"] obtain f u where
    u: "scw_send (tmp_msg (replicate 900 0)) t = Inr (f, u)" "out_rep u [] [replicate 900 0]" by (auto simp: eval_nat_numeral)
  note z = zero_segment_bytes [OF u(2)]
  let ?buf = "sob_buf (o_buf u)"
  have p: "slots_len [q] + off_msg_data = 249" using assms(2) by (simp add: slot_sz_def inplace_defs)
  have "msg_ok (load_msg ?buf 249)" "data_len (load_msg ?buf 249) = 0" using load_msg_zeros [of 249 ?buf] z by auto
  from base_send_granted [OF this(1), of 36 now b] this(2) obtain m dest bs where
    m: "base_send now 36 b (load_msg ?buf 249) = (m, Inr (dest, bs))" by auto
  let ?b = "store_hdr 249 m ?buf"
  let ?d = "c\<lparr>wk_out := upd_buf (store_hdr 249 m) u, wk_wire := wk_wire c @ [(dest, bs)], wk_pc := K_Poll 249 (sint tmo) 0\<rparr>"
  have step: "send_worker ESTABLISHED now 36 b (c\<lparr>wk_out := u\<rparr>) = Some ?d"
    using m assms(6) [unfolded p] by (simp add: send_worker_def worker_send_def Let_def)
  have "ld32 ?b 281 = sin_addr (out_addr (sb_id b))"
    using store_hdr_daddr [of 249 m ?buf] base_send_fields(2) [of now 36 b "load_msg ?buf 249"] m by simp
  then have "mem_read ?b 281 4 \<noteq> replicate 4 0" using assms(7) by (auto simp: ld32_def le_to_nat_zeros)
  moreover have "mem_read ?b 281 4 = replicate 4 0" if "mem_read ?b 105 900 = replicate 900 0"
  proof (rule nth_equalityI)
    fix i assume "i < length (mem_read ?b 281 4)"
    moreover have "mem_read ?b 105 900 ! (176 + i) = replicate 900 0 ! (176 + i)" by (simp only: that)
    ultimately show "mem_read ?b 281 4 ! i = replicate 4 0 ! i" by (simp add: add.assoc [symmetric])
  qed simp
  ultimately have "mem_read ?b 105 900 \<noteq> replicate 900 0" by blast
  moreover have "ld64 ?b 33 = 900" "ld64 ?b 41 = 900"
  proof -
    have "slot_at ?buf 0 (size_to_seq (cwp_start (o_cwp u))) (replicate 900 0)"
      using buf_rep_slot [of "cwp_start (o_cwp u)" "o_buf u" "[]" "replicate 900 0" "[]"] u(2) by (simp add: out_rep_def)
    then have "ld64 ?buf 33 = 900" "ld64 ?buf 41 = 900" by (subst (asm) slot_at_bytes; simp)+
    moreover have "mem_read ?b k 8 = mem_read ?buf k 8" if "k + 8 \<le> 265" for k
      using that by (intro mem_read_cong) (simp add: store_hdr_def mem_write_outside)
    ultimately show "ld64 ?b 33 = 900" "ld64 ?b 41 = 900" by (simp_all add: ld64_def)
  qed
  ultimately have "get_data (load_msg ?b off_msg_data) \<noteq> replicate 900 0"
    by (simp add: get_data_def load_msg_def load_packet_def inplace_defs sizeof_defs)
  with t u step show ?thesis by (intro exI [of _ t] exI [of _ f] exI [of _ u] exI [of _ ?d]) (simp add: upd_buf_def)
qed

text \<open>A window that is filled by two segments, the first of which is acknowledged.\<close>

lemma demo_full_window:
  "\<exists>s. out_rep s [replicate 100 1] [replicate 900 2] \<and> cwp_start (o_cwp s) = 100"
proof -
  let ?q = "replicate 100 1 :: u8 list" and ?r = "replicate 900 2 :: u8 list"
  have ne: "?q \<noteq> []" "?r \<noteq> []" by (auto simp: replicate_empty)
  have start: "cwp_start (o_cwp (established_out 100)) = 100" by (simp add: established_out_start seq_to_size_def)
  obtain s1 where s1: "out_rep s1 [] [?q]" "cwp_start (o_cwp s1) = 100"
    using scw_send_ok [OF established_out_rep [of 100] ne(1)] start by auto
  obtain s2 where s2: "out_rep s2 [] ([?q] @ [?r])" "cwp_start (o_cwp s2) = 100"
    using scw_send_ok [OF s1(1) ne(2)] s1(2) by auto
  from output_on_ack_ok [OF s2(1), of "ack_msg 199" 0] s2(2) show ?thesis by auto
qed

theorem late_send_corrupts_buffer_witness:
  "\<exists>c t f u d. output_on_ack ESTABLISHED 0 (ack_msg 1099) (wk_out c) = Some (Inr t) \<and>
    scw_send (tmp_msg (replicate 900 0)) t = Inr (f, u) \<and> send_worker ESTABLISHED 0 36 demo_a (c\<lparr>wk_out := u\<rparr>) = Some d \<and>
    get_data (load_msg (sob_buf (o_buf (wk_out d))) off_msg_data) \<noteq> replicate 900 0"
proof -
  let ?q = "replicate 100 1 :: u8 list" and ?r = "replicate 900 2 :: u8 list"
  obtain s where s: "out_rep s [?q] [?r]" "cwp_start (o_cwp s) = 100" using demo_full_window by blast
  let ?c = "(demo_worker s)\<lparr>wk_pc := K_Send (slots_len [?q] + off_msg_data) 500\<rparr>"
  have "out_rep (wk_out ?c) [?q] [?r]" "length ?q = 100" "length ?r = 900" "wk_pc ?c = K_Send (slots_len [?q] + off_msg_data) 500"
      "unat (cwp_start (o_cwp (wk_out ?c))) + 1000 \<le> 2 ^ 32" "unat (get_seq (ack_msg 1099)) = unat (cwp_start (o_cwp (wk_out ?c))) + 999"
      "sin_addr (out_addr (sb_id demo_a)) \<noteq> 0"
    using s by (simp_all add: demo_worker_def demo_a_def loop_id_def)
  from late_send_corrupts_buffer [OF this(1,2,3,5,6,4,7), of 0] show ?thesis by blast
qed

end
