(* ===== verification/Recv_Window.thy ===== *)
theory Recv_Window
  imports Mem_Layout Proto_Msg "HOL-Library.Sublist"
begin

text \<open>
  The receiving side, \<open>src/tcp_proto_input.h\<close>: \<open>receiver_window_processing\<close> and
  \<open>receiver_buffer_processing\<close> together with the entry points of \<open>src/newimpl.cpp\<close> that they call
  (\<open>output_send_ack\<close> and the two notifications). The receive worker and the client thread share
  the window area under \<open>recv_lock\<close>; \<open>mem_ctl::call\<close> releases the lock around a notification
  or a wait. A section between two such points is atomic, so the pair is a state machine whose
  steps are these sections; \<open>wpc\<close> and \<open>cpc\<close> say where each thread stands.
\<close>

section \<open>State\<close>

datatype wpc = W_Idle | W_Signal_not_empty | W_Relock | W_Wait_flushed | W_Relock_flushed

datatype cpc = C_Idle | C_Wait_not_empty size_t | C_Relock size_t | C_Signal_flushed

text \<open>
  \<open>not_empty\<close> and \<open>complete\<close> are the counts of the semaphores \<open>recv_worker_buf_not_empty_notif\<close> and
  \<open>recv_worker_complete_notif\<close>; \<open>in_acks\<close> are the acknowledgements sent. \<open>accepted\<close> and
  \<open>delivered\<close> are histories of the bytes stored and handed to the client; no step reads them.
\<close>

record in_st =
  in_rwp :: rwp_area
  in_buf :: bmem
  not_empty :: nat
  complete :: nat
  in_wpc :: wpc
  in_cpc :: cpc
  in_acks :: "msg list"
  accepted :: "u8 list"
  delivered :: "u8 list"

section \<open>receiver_buffer_processing\<close>

text \<open>\<open>memcpy\<close> between the message or the client and \<open>char buf[INPUT_BUF_SZ]\<close>; a range outside
  either side is a \<open>Fault\<close>.\<close>

definition put_data :: "off_t \<Rightarrow> u8 list \<Rightarrow> size_t \<Rightarrow> bmem \<Rightarrow> bmem res" where
  "put_data pos data n buf =
     (if unat pos + unat n \<le> INPUT_BUF_SZ \<and> unat n \<le> length data
      then Inr (mem_write buf (unat pos) (take (unat n) data)) else Inl Fault)"

definition buf_flush :: "off_t \<Rightarrow> size_t \<Rightarrow> bmem \<Rightarrow> u8 list res" where
  "buf_flush flushed_off n buf =
     (if unat flushed_off + unat n \<le> INPUT_BUF_SZ then Inr (mem_read buf (unat flushed_off) (unat n))
      else Inl Fault)"

section \<open>receiver_window_processing\<close>

definition rwp_setup :: "rwp_area \<Rightarrow> receiver_window" where
  "rwp_setup a = receiver_window3 (rwp_start a) (rwp_off a) (rwp_sz a)"

definition rwp_flush :: "receiver_window \<Rightarrow> rwp_area \<Rightarrow> rwp_area" where
  "rwp_flush w a = a\<lparr>rwp_start := rw_start w, rwp_off := rw_off w, rwp_sz := rw_sz w\<rparr>"

definition on_buffer_flushed :: "rwp_area \<Rightarrow> rwp_area" where
  "on_buffer_flushed a = rwp_flush (next_window (rwp_setup a)) (a\<lparr>rwp_flushed_off := 0\<rparr>)"

definition wrote_win_sz :: "rwp_area \<Rightarrow> size_t" where
  "wrote_win_sz a = rwp_off a - rwp_flushed_off a"

definition rwp_force_move_start :: "tcp_seq \<Rightarrow> rwp_area \<Rightarrow> rwp_area" where
  "rwp_force_move_start start_seq a =
     (let a' = a\<lparr>rwp_flushed_off := 0\<rparr>
      in rwp_flush ((rwp_setup a')\<lparr>rw_start := seq_to_size start_seq, rw_off := 0\<rparr>) a')"

text \<open>\<open>socket_full_impl::output_send_ack\<close>: the message it sends.\<close>

definition output_send_ack :: "tcp_seq \<Rightarrow> size_t \<Rightarrow> msg" where
  "output_send_ack seq winsz =
     set_window_sz (ucast winsz) (set_seq seq (set_ack (msg_new None 0)))"

definition send_win_ack :: "in_st \<Rightarrow> in_st" where
  "send_win_ack s =
     (let w = rwp_setup (in_rwp s)
      in s\<lparr>in_acks := in_acks s @ [output_send_ack (size_to_seq (before_begin w)) (get_sz w)]\<rparr>)"

text \<open>The end of \<open>__move\<close> and of \<open>on_msg\<close>: wait when the window is full, else acknowledge.\<close>

definition move_tail :: "in_st \<Rightarrow> in_st" where
  "move_tail s =
     (if get_sz (rwp_setup (in_rwp s)) = 0 then s\<lparr>in_wpc := W_Wait_flushed\<rparr>
      else (send_win_ack s)\<lparr>in_wpc := W_Idle\<rparr>)"

definition move :: "u8 list \<Rightarrow> size_t \<Rightarrow> in_st \<Rightarrow> in_st res" where
  "move data n s =
     (case put_data (rwp_off (in_rwp s)) data n (in_buf s) of
        Inl e \<Rightarrow> Inl e
      | Inr buf' \<Rightarrow>
          (let need_not_empty_signal = (wrote_win_sz (in_rwp s) = 0);
               s' = s\<lparr>in_buf := buf',
                      in_rwp := rwp_flush (win_inc n (rwp_setup (in_rwp s))) (in_rwp s),
                      accepted := accepted s @ take (unat n) data\<rparr>
           in Inr (if need_not_empty_signal then s'\<lparr>in_wpc := W_Signal_not_empty\<rparr> else move_tail s')))"

definition on_msg :: "msg \<Rightarrow> in_st \<Rightarrow> in_st res" where
  "on_msg m s =
     (let win = rwp_setup (in_rwp s); seq = get_seq m; data_sz = data_len m
      in if contains win (receiver_window2 (seq_to_size seq) data_sz) \<and> seq_to_size seq = win_begin win
         then move (pbuf (packet m)) data_sz s
         else Inr (send_win_ack s))"

text \<open>The part of \<open>client_flush_request\<close> after the optional wait.\<close>

definition client_flush_now :: "size_t \<Rightarrow> in_st \<Rightarrow> in_st res" where
  "client_flush_now req_sz s =
     (let sz = min (wrote_win_sz (in_rwp s)) req_sz
      in case buf_flush (rwp_flushed_off (in_rwp s)) sz (in_buf s) of
           Inl e \<Rightarrow> Inl e
         | Inr bs \<Rightarrow>
             (let a' = (in_rwp s)\<lparr>rwp_flushed_off := rwp_flushed_off (in_rwp s) + sz\<rparr>;
                  s' = s\<lparr>in_rwp := a', delivered := delivered s @ bs\<rparr>
              in Inr (s'\<lparr>in_cpc := (if wrote_win_sz a' = 0 \<and> get_sz (rwp_setup a') = 0
                                    then C_Signal_flushed else C_Idle)\<rparr>)))"

definition client_flush_request :: "size_t \<Rightarrow> in_st \<Rightarrow> in_st res" where
  "client_flush_request req_sz s =
     (if wrote_win_sz (in_rwp s) = 0 then Inr (s\<lparr>in_cpc := C_Wait_not_empty req_sz\<rparr>)
      else client_flush_now req_sz s)"

section \<open>Steps of the two threads\<close>

text \<open>The worker after the start of \<open>on_msg\<close>; \<open>None\<close> where it is blocked or idle.\<close>

definition worker_step :: "in_st \<Rightarrow> in_st option" where
  "worker_step s =
     (case in_wpc s of
        W_Idle \<Rightarrow> None
      | W_Signal_not_empty \<Rightarrow> Some (s\<lparr>not_empty := not_empty s + 1, in_wpc := W_Relock\<rparr>)
      | W_Relock \<Rightarrow> Some (move_tail s)
      | W_Wait_flushed \<Rightarrow>
          (if complete s = 0 then None
           else Some (s\<lparr>complete := complete s - 1, in_wpc := W_Relock_flushed\<rparr>))
      | W_Relock_flushed \<Rightarrow>
          Some ((send_win_ack (s\<lparr>in_rwp := on_buffer_flushed (in_rwp s)\<rparr>))\<lparr>in_wpc := W_Idle\<rparr>))"

definition client_step :: "in_st \<Rightarrow> in_st res option" where
  "client_step s =
     (case in_cpc s of
        C_Idle \<Rightarrow> None
      | C_Wait_not_empty n \<Rightarrow>
          (if not_empty s = 0 then None
           else Some (Inr (s\<lparr>not_empty := not_empty s - 1, in_cpc := C_Relock n\<rparr>)))
      | C_Relock n \<Rightarrow> Some (client_flush_now n s)
      | C_Signal_flushed \<Rightarrow> Some (Inr (s\<lparr>complete := complete s + 1, in_cpc := C_Idle\<rparr>)))"

datatype in_event = E_msg msg | E_worker | E_request size_t | E_client

definition in_exec :: "in_event \<Rightarrow> in_st \<Rightarrow> in_st res option" where
  "in_exec e s =
     (case e of
        E_msg m \<Rightarrow> (if in_wpc s = W_Idle then Some (on_msg m s) else None)
      | E_worker \<Rightarrow> map_option Inr (worker_step s)
      | E_request n \<Rightarrow> (if in_cpc s = C_Idle then Some (client_flush_request n s) else None)
      | E_client \<Rightarrow> client_step s)"

text \<open>A schedule: \<open>None\<close> when an event is not enabled or faults.\<close>

fun in_run :: "in_event list \<Rightarrow> in_st \<Rightarrow> in_st option" where
  "in_run [] s = Some s"
| "in_run (e # es) s = (case in_exec e s of Some (Inr t) \<Rightarrow> in_run es t | _ \<Rightarrow> None)"

definition in_init :: "rwp_area \<Rightarrow> in_st" where
  "in_init a = \<lparr>in_rwp = a, in_buf = (\<lambda>_. 0), not_empty = 0, complete = 0, in_wpc = W_Idle,
     in_cpc = C_Idle, in_acks = [], accepted = [], delivered = []\<rparr>"

text \<open>The area after the handshake has moved the window's start.\<close>

definition established_rwp :: "tcp_seq \<Rightarrow> rwp_area" where
  "established_rwp start = rwp_force_move_start start (rwp (on_init zero_mem))"

inductive in_step :: "in_st \<Rightarrow> in_st \<Rightarrow> bool" where
  msg: "msg_ok m \<Longrightarrow> in_exec (E_msg m) s = Some (Inr t) \<Longrightarrow> in_step s t"
| worker: "in_exec E_worker s = Some (Inr t) \<Longrightarrow> in_step s t"
| request: "in_exec (E_request n) s = Some (Inr t) \<Longrightarrow> in_step s t"
| client: "in_exec E_client s = Some (Inr t) \<Longrightarrow> in_step s t"

definition in_start :: "in_st \<Rightarrow> bool" where
  "in_start s \<longleftrightarrow> (\<exists>seq. s = in_init (established_rwp seq))"

inductive_cases in_stepE: "in_step s t"

section \<open>recv_proc\<close>

text \<open>
  The loop of \<open>socket_full_impl::recv_proc\<close> against a schedule of turns: on its turn the client asks
  for the \<open>sz\<close> bytes still missing, or goes on inside its request; \<open>add\<close> is what the request
  handed out. \<open>None\<close>: a turn of a thread that cannot move, or of a client whose loop has ended.
\<close>

datatype turn = T_client | T_worker | T_msg msg

definition turn_event :: "turn \<Rightarrow> size_t \<Rightarrow> in_st \<Rightarrow> in_event" where
  "turn_event a sz s =
     (case a of
        T_client \<Rightarrow> (if in_cpc s = C_Idle then E_request sz else E_client)
      | T_worker \<Rightarrow> E_worker
      | T_msg m \<Rightarrow> E_msg m)"

fun recv_proc :: "turn list \<Rightarrow> size_t \<Rightarrow> in_st \<Rightarrow> (size_t \<times> in_st) option" where
  "recv_proc [] sz s = Some (sz, s)"
| "recv_proc (a # as) sz s =
     (if a = T_client \<and> in_cpc s = C_Idle \<and> sz = 0 then None
      else case in_exec (turn_event a sz s) s of
             Some (Inr t) \<Rightarrow>
               (let add = word_of_nat (length (delivered t) - length (delivered s)) in recv_proc as (sz - add) t)
           | _ \<Rightarrow> None)"

section \<open>Invariant\<close>

text \<open>
  The offsets are ordered and inside the window, the window has its configured size, and it has not
  moved past the first lap by more than one window; while the worker is inside \<open>on_msg\<close> it has just
  accepted a segment of the first lap; it waits only with a full window, and it never leaves a full
  window behind.
\<close>

definition in_inv :: "in_st \<Rightarrow> bool" where
  "in_inv s \<longleftrightarrow>
     rwp_sz (in_rwp s) = INPUT_WINDOW_SZ \<and>
     unat (rwp_flushed_off (in_rwp s)) \<le> unat (rwp_off (in_rwp s)) \<and>
     unat (rwp_off (in_rwp s)) \<le> 1000 \<and>
     unat (rwp_start (in_rwp s)) < 4294968296 \<and>
     (in_wpc s \<noteq> W_Idle \<longrightarrow> unat (rwp_start (in_rwp s)) < 4294967296) \<and>
     (in_wpc s = W_Wait_flushed \<or> in_wpc s = W_Relock_flushed \<longrightarrow> rwp_off (in_rwp s) = 1000) \<and>
     (in_wpc s = W_Idle \<longrightarrow> rwp_off (in_rwp s) \<noteq> 1000)"

text \<open>The bytes stored but not yet handed to the client.\<close>

definition pending :: "in_st \<Rightarrow> u8 list" where
  "pending s = mem_read (in_buf s) (unat (rwp_flushed_off (in_rwp s)))
     (unat (rwp_off (in_rwp s)) - unat (rwp_flushed_off (in_rwp s)))"

section \<open>Abstract specification\<close>

text \<open>
  What the receiving side promises, without buffer, offsets and sequence numbers: a queue with a
  bounded number of bytes per window, the two threads' positions and the two semaphores.
  \<open>ai_in\<close> and \<open>ai_out\<close> are what went in and what came out.
\<close>

record in_abs =
  ai_room :: nat
  ai_q :: "u8 list"
  ai_in :: "u8 list"
  ai_out :: "u8 list"
  ai_wpc :: wpc
  ai_cpc :: cpc
  ai_ne :: nat
  ai_co :: nat

definition abs_tail :: "in_abs \<Rightarrow> in_abs" where
  "abs_tail a = a\<lparr>ai_wpc := (if ai_room a = 0 then W_Wait_flushed else W_Idle)\<rparr>"

definition abs_accept :: "u8 list \<Rightarrow> in_abs \<Rightarrow> in_abs" where
  "abs_accept bs a =
     (let a' = a\<lparr>ai_room := ai_room a - length bs, ai_q := ai_q a @ bs, ai_in := ai_in a @ bs\<rparr>
      in if ai_q a = [] then a'\<lparr>ai_wpc := W_Signal_not_empty\<rparr> else abs_tail a')"

definition abs_flush :: "nat \<Rightarrow> in_abs \<Rightarrow> in_abs" where
  "abs_flush n a = a\<lparr>ai_q := drop n (ai_q a), ai_out := ai_out a @ take n (ai_q a),
     ai_cpc := (if drop n (ai_q a) = [] \<and> ai_room a = 0 then C_Signal_flushed else C_Idle)\<rparr>"

inductive abs_step :: "in_abs \<Rightarrow> in_abs \<Rightarrow> bool" where
  a_reject: "ai_wpc a = W_Idle \<Longrightarrow> abs_step a a"
| a_accept: "ai_wpc a = W_Idle \<Longrightarrow> length bs \<le> ai_room a \<Longrightarrow> abs_step a (abs_accept bs a)"
| a_signal: "ai_wpc a = W_Signal_not_empty \<Longrightarrow> abs_step a (a\<lparr>ai_ne := ai_ne a + 1, ai_wpc := W_Relock\<rparr>)"
| a_relock: "ai_wpc a = W_Relock \<Longrightarrow> abs_step a (abs_tail a)"
| a_wait: "ai_wpc a = W_Wait_flushed \<Longrightarrow> ai_co a = Suc n \<Longrightarrow>
    abs_step a (a\<lparr>ai_co := n, ai_wpc := W_Relock_flushed\<rparr>)"
| a_reset: "ai_wpc a = W_Relock_flushed \<Longrightarrow>
    abs_step a (a\<lparr>ai_room := 1000, ai_q := [], ai_wpc := W_Idle\<rparr>)"
| a_request_wait: "ai_cpc a = C_Idle \<Longrightarrow> ai_q a = [] \<Longrightarrow> abs_step a (a\<lparr>ai_cpc := C_Wait_not_empty k\<rparr>)"
| a_request_now: "ai_cpc a = C_Idle \<Longrightarrow> ai_q a \<noteq> [] \<Longrightarrow> abs_step a (abs_flush (unat (k :: size_t)) a)"
| a_awake: "ai_cpc a = C_Wait_not_empty k \<Longrightarrow> ai_ne a = Suc n \<Longrightarrow>
    abs_step a (a\<lparr>ai_ne := n, ai_cpc := C_Relock k\<rparr>)"
| a_flush: "ai_cpc a = C_Relock k \<Longrightarrow> abs_step a (abs_flush (unat (k :: size_t)) a)"
| a_complete: "ai_cpc a = C_Signal_flushed \<Longrightarrow> abs_step a (a\<lparr>ai_co := ai_co a + 1, ai_cpc := C_Idle\<rparr>)"

definition in_abs_of :: "in_st \<Rightarrow> in_abs" where
  "in_abs_of s = \<lparr>ai_room = 1000 - unat (rwp_off (in_rwp s)), ai_q = pending s, ai_in = accepted s,
     ai_out = delivered s, ai_wpc = in_wpc s, ai_cpc = in_cpc s, ai_ne = not_empty s, ai_co = complete s\<rparr>"

section \<open>Lemmas\<close>

lemma rwp_full_iff: "rwp_sz a = INPUT_WINDOW_SZ \<Longrightarrow> get_sz (rwp_setup a) = 0 \<longleftrightarrow> rwp_off a = 1000"
  by (auto simp: get_sz_def rwp_setup_def receiver_window3_def INPUT_WINDOW_SZ_def)

lemma rwp_full_iff_unat:
  "rwp_sz a = INPUT_WINDOW_SZ \<Longrightarrow> get_sz (rwp_setup a) = 0 \<longleftrightarrow> unat (rwp_off a) = 1000"
  by (simp add: rwp_full_iff) (simp add: word_unat_eq_iff)

lemma unat_INPUT_WINDOW_SZ [simp]: "unat INPUT_WINDOW_SZ = 1000"
  by (simp add: INPUT_WINDOW_SZ_def)

lemma rwp_setup_sel [simp]:
  "rw_start (rwp_setup a) = rwp_start a" "rw_off (rwp_setup a) = rwp_off a" "rw_sz (rwp_setup a) = rwp_sz a"
  by (simp_all add: rwp_setup_def receiver_window3_def)

lemma in_inv_win_ok: "in_inv s \<Longrightarrow> win_ok (rwp_setup (in_rwp s))"
  by (simp add: in_inv_def win_ok_def)

lemma unat_wrote_win_sz:
  "in_inv s \<Longrightarrow> unat (wrote_win_sz (in_rwp s)) = unat (rwp_off (in_rwp s)) - unat (rwp_flushed_off (in_rwp s))"
  by (simp add: in_inv_def wrote_win_sz_def unat_minus_no_wrap)

lemma length_pending: "length (pending s) = unat (rwp_off (in_rwp s)) - unat (rwp_flushed_off (in_rwp s))"
  by (simp add: pending_def)

lemma wrote_win_sz_0_iff: "in_inv s \<Longrightarrow> wrote_win_sz (in_rwp s) = 0 \<longleftrightarrow> pending s = []"
  using unat_wrote_win_sz [of s] length_pending [of s] by (simp add: word_unat_eq_iff flip: length_0_conv)

lemma in_inv_init: "in_inv (in_init (established_rwp seq))"
  using unat_u32_bound [of seq]
  by (simp add: in_inv_def in_init_def established_rwp_def rwp_force_move_start_def rwp_flush_def
      on_init_def init_below_numeral mem_tags_def zero_mem_def Let_def)

text \<open>A segment that passes the two tests of \<open>on_msg\<close> fits into the rest of the window.\<close>

lemma on_msg_fits:
  assumes "in_inv s" and "unat n < 4611686018427387904"
    and "contains (rwp_setup (in_rwp s)) (receiver_window2 (seq_to_size seq) n)"
    and "seq_to_size seq = win_begin (rwp_setup (in_rwp s))"
  shows "unat (rwp_off (in_rwp s)) + unat n \<le> 1000" and "unat (rwp_start (in_rwp s)) < 4294967296"
proof -
  let ?w = "rwp_setup (in_rwp s)"
  have ok: "win_ok ?w" using assms(1) by (rule in_inv_win_ok)
  have seq: "unat seq = unat (win_begin ?w)" using assms(4) by (metis unat_seq_to_size)
  have e: "unat (win_begin ?w + n) = unat (win_begin ?w) + unat n"
    using assms(2) seq unat_u32_bound [of seq] unat_plus_no_wrap [of "win_begin ?w" n] by simp
  then have "\<not> (seq_to_size (size_to_seq (win_end ?w)) < win_begin ?w \<and>
      win_begin ?w + n < seq_to_size (size_to_seq (win_end ?w)))"
    by (auto simp: word_less_nat_alt)
  then have "win_begin ?w + n \<le> win_end ?w"
    using assms(3,4) by (auto simp: contains_def Let_def)
  then show "unat (rwp_off (in_rwp s)) + unat n \<le> 1000"
    using assms(1) by (simp add: word_le_nat_alt e win_ok_begin [OF ok] win_ok_end [OF ok] in_inv_def)
  show "unat (rwp_start (in_rwp s)) < 4294967296"
    using seq unat_u32_bound [of seq] by (simp add: win_ok_begin [OF ok])
qed

lemma in_order_contained:
  assumes "in_inv s" and "unat n < 4611686018427387904"
    and "seq_to_size seq = win_begin (rwp_setup (in_rwp s))"
  shows "contains (rwp_setup (in_rwp s)) (receiver_window2 (seq_to_size seq) n) \<longleftrightarrow>
    unat (rwp_off (in_rwp s)) + unat n \<le> 1000"
proof
  let ?w = "rwp_setup (in_rwp s)"
  have ok: "win_ok ?w" using assms(1) by (rule in_inv_win_ok)
  have seq: "unat seq = unat (win_begin ?w)" using assms(3) by (metis unat_seq_to_size)
  have e: "unat (win_begin ?w + n) = unat (win_begin ?w) + unat n"
    using assms(2) seq unat_u32_bound [of seq] unat_plus_no_wrap [of "win_begin ?w" n] by simp
  then have sh: "\<not> (seq_to_size (size_to_seq (win_end ?w)) < win_begin ?w \<and>
      win_begin ?w + n < seq_to_size (size_to_seq (win_end ?w)))"
    by (auto simp: word_less_nat_alt)
  assume "unat (rwp_off (in_rwp s)) + unat n \<le> 1000"
  then have "win_begin ?w + n \<le> win_end ?w"
    using assms(1) by (simp add: word_le_nat_alt e win_ok_begin [OF ok] win_ok_end [OF ok] in_inv_def)
  then show "contains ?w (receiver_window2 (seq_to_size seq) n)"
    using sh assms(3) by (auto simp: contains_def Let_def)
qed (rule on_msg_fits(1) [OF assms(1,2) _ assms(3)])

lemma rwp_flush_inc: "rwp_flush (win_inc n (rwp_setup a)) a = a\<lparr>rwp_off := rwp_off a + n\<rparr>"
  by (simp add: rwp_flush_def win_inc_def)

lemma on_buffer_flushed_eq:
  "on_buffer_flushed a = a\<lparr>rwp_start := rwp_start a + rwp_sz a, rwp_off := 0, rwp_flushed_off := 0\<rparr>"
  by (simp add: on_buffer_flushed_def rwp_flush_def next_window_def)

lemma send_win_ack_sel [simp]:
  "in_rwp (send_win_ack s) = in_rwp s" "in_buf (send_win_ack s) = in_buf s"
  "accepted (send_win_ack s) = accepted s" "delivered (send_win_ack s) = delivered s"
  "in_wpc (send_win_ack s) = in_wpc s" "in_cpc (send_win_ack s) = in_cpc s"
  "not_empty (send_win_ack s) = not_empty s" "complete (send_win_ack s) = complete s"
  by (simp_all add: send_win_ack_def Let_def)

lemma move_tail_sel [simp]:
  "in_rwp (move_tail s) = in_rwp s" "in_buf (move_tail s) = in_buf s"
  "accepted (move_tail s) = accepted s" "delivered (move_tail s) = delivered s"
  "in_cpc (move_tail s) = in_cpc s" "pending (move_tail s) = pending s"
  by (simp_all add: move_tail_def pending_def)

lemma in_inv_move_tail:
  "rwp_sz (in_rwp s) = INPUT_WINDOW_SZ \<Longrightarrow> unat (rwp_flushed_off (in_rwp s)) \<le> unat (rwp_off (in_rwp s)) \<Longrightarrow>
   unat (rwp_off (in_rwp s)) \<le> 1000 \<Longrightarrow> unat (rwp_start (in_rwp s)) < 4294967296 \<Longrightarrow> in_inv (move_tail s)"
  by (auto simp: in_inv_def move_tail_def rwp_full_iff split: if_splits)

lemma in_abs_of_move_tail:
  "rwp_sz (in_rwp s) = INPUT_WINDOW_SZ \<Longrightarrow> unat (rwp_off (in_rwp s)) \<le> 1000 \<Longrightarrow>
   in_abs_of (move_tail s) = abs_tail (in_abs_of s)"
  by (auto simp: in_abs_of_def abs_tail_def move_tail_def pending_def rwp_full_iff_unat)

lemma move_ok:
  assumes "in_inv s" and "unat (rwp_off (in_rwp s)) + unat n \<le> 1000"
    and "unat (rwp_start (in_rwp s)) < 4294967296" and "unat n \<le> length data" and "in_wpc s = W_Idle"
  shows "\<exists>t. move data n s = Inr t \<and> in_inv t \<and>
    in_abs_of t = abs_accept (take (unat n) data) (in_abs_of s)"
proof -
  let ?a = "in_rwp s"
  let ?s' = "s\<lparr>in_buf := mem_write (in_buf s) (unat (rwp_off ?a)) (take (unat n) data),
     in_rwp := ?a\<lparr>rwp_off := rwp_off ?a + n\<rparr>, accepted := accepted s @ take (unat n) data\<rparr>"
  have off: "unat (rwp_off ?a + n) = unat (rwp_off ?a) + unat n"
    using assms(2) unat_plus_no_wrap [of "rwp_off ?a" n] by simp
  have le: "unat (rwp_flushed_off ?a) \<le> unat (rwp_off ?a)" using assms(1) by (simp add: in_inv_def)
  have sz: "rwp_sz ?a = INPUT_WINDOW_SZ" using assms(1) by (simp add: in_inv_def)
  have mv: "move data n s = Inr (if wrote_win_sz ?a = 0 then ?s'\<lparr>in_wpc := W_Signal_not_empty\<rparr> else move_tail ?s')"
    using assms by (simp add: move_def put_data_def INPUT_BUF_SZ_def rwp_flush_inc Let_def)
  have p: "pending ?s' = pending s @ take (unat n) data"
    using le assms(4) bm.rd_wr_end [of "in_buf s" "unat (rwp_flushed_off ?a)"
        "unat (rwp_off ?a) - unat (rwp_flushed_off ?a)" "take (unat n) data"]
    by (simp add: pending_def off)
  have "in_inv (?s'\<lparr>in_wpc := W_Signal_not_empty\<rparr>)"
    using assms by (simp add: in_inv_def off)
  moreover have "in_inv (move_tail ?s')"
    using assms by (intro in_inv_move_tail) (simp_all add: in_inv_def off)
  moreover have "in_abs_of (?s'\<lparr>in_wpc := W_Signal_not_empty\<rparr>) =
      (in_abs_of ?s')\<lparr>ai_wpc := W_Signal_not_empty\<rparr>"
    by (simp add: in_abs_of_def pending_def)
  moreover have "in_abs_of (move_tail ?s') = abs_tail (in_abs_of ?s')"
    using assms(2) by (intro in_abs_of_move_tail) (simp_all add: off sz)
  moreover have "in_abs_of ?s' = (in_abs_of s)\<lparr>ai_room := ai_room (in_abs_of s) - length (take (unat n) data),
      ai_q := ai_q (in_abs_of s) @ take (unat n) data, ai_in := ai_in (in_abs_of s) @ take (unat n) data\<rparr>"
    using p assms(4) by (simp add: in_abs_of_def off)
  ultimately show ?thesis
    unfolding mv abs_accept_def Let_def using wrote_win_sz_0_iff [OF assms(1)] by (simp add: in_abs_of_def)
qed

lemma client_flush_now_ok:
  assumes "in_inv s"
  shows "\<exists>t. client_flush_now n s = Inr t \<and> in_inv t \<and> in_abs_of t = abs_flush (unat n) (in_abs_of s)"
proof -
  let ?a = "in_rwp s"
  let ?f = "unat (rwp_flushed_off ?a)" and ?o = "unat (rwp_off ?a)"
  let ?n = "min (wrote_win_sz ?a) n"
  have inv: "?f \<le> ?o" "?o \<le> 1000" using assms by (simp_all add: in_inv_def)
  have n: "unat ?n = min (?o - ?f) (unat n)"
    using unat_wrote_win_sz [OF assms] by (simp add: min_def word_le_nat_alt)
  have f: "unat (rwp_flushed_off ?a + ?n) = ?f + unat ?n"
    using inv n unat_plus_no_wrap [of "rwp_flushed_off ?a" ?n] by simp
  let ?a' = "?a\<lparr>rwp_flushed_off := rwp_flushed_off ?a + ?n\<rparr>"
  let ?t = "s\<lparr>in_rwp := ?a', delivered := delivered s @ mem_read (in_buf s) ?f (unat ?n),
     in_cpc := (if wrote_win_sz ?a' = 0 \<and> get_sz (rwp_setup ?a') = 0 then C_Signal_flushed else C_Idle)\<rparr>"
  have t: "client_flush_now n s = Inr ?t"
    using inv n by (simp add: client_flush_now_def buf_flush_def INPUT_BUF_SZ_def Let_def)
  have it: "in_inv ?t"
    using assms inv n by (auto simp: in_inv_def f)
  have d: "mem_read (in_buf s) ?f (unat ?n) = take (unat n) (pending s)"
    by (cases "?o - ?f \<le> unat n") (simp_all add: pending_def n)
  have p: "pending ?t = drop (unat n) (pending s)"
    using inv bm.rd_suffix [of "unat ?n" "?o - ?f" "in_buf s" ?f] n
    by (cases "?o - ?f \<le> unat n") (simp_all add: pending_def f)
  have "in_cpc ?t = (if drop (unat n) (pending s) = [] \<and> ?o = 1000 then C_Signal_flushed else C_Idle)"
    using wrote_win_sz_0_iff [OF it] p assms rwp_full_iff [of ?a']
    by (simp add: in_inv_def word_unat_eq_iff)
  then have "in_abs_of ?t = abs_flush (unat n) (in_abs_of s)"
    using p d inv by (auto simp: in_abs_of_def abs_flush_def)
  with t it show ?thesis by blast
qed

section \<open>Every step keeps the invariant and refines the specification\<close>

lemma on_msg_ok:
  assumes "in_inv s" and "msg_ok m" and "in_wpc s = W_Idle"
  shows "\<exists>t. on_msg m s = Inr t \<and> in_inv t \<and> abs_step (in_abs_of s) (in_abs_of t)"
proof (cases "contains (rwp_setup (in_rwp s)) (receiver_window2 (seq_to_size (get_seq m)) (data_len m)) \<and>
    seq_to_size (get_seq m) = win_begin (rwp_setup (in_rwp s))")
  case True
  have n: "unat (data_len m) < 4611686018427387904" "unat (data_len m) \<le> length (pbuf (packet m))"
    using assms(2) by (simp_all add: msg_ok_def)
  note fits = on_msg_fits [OF assms(1) n(1) conjunct1 [OF True] conjunct2 [OF True]]
  obtain t where t: "move (pbuf (packet m)) (data_len m) s = Inr t" "in_inv t"
      "in_abs_of t = abs_accept (take (unat (data_len m)) (pbuf (packet m))) (in_abs_of s)"
    using move_ok [OF assms(1) fits n(2) assms(3)] by auto
  have "abs_step (in_abs_of s) (in_abs_of t)"
    unfolding t(3) by (rule a_accept) (use assms(3) fits(1) in \<open>auto simp: in_abs_of_def\<close>)
  moreover have "on_msg m s = Inr t" unfolding on_msg_def Let_def if_P [OF True] by (rule t(1))
  ultimately show ?thesis using t(2) by blast
next
  case False
  have "on_msg m s = Inr (send_win_ack s)" unfolding on_msg_def Let_def using False by (simp only: if_False)
  moreover have "in_inv (send_win_ack s)" using assms(1) by (simp add: in_inv_def)
  moreover have "in_abs_of (send_win_ack s) = in_abs_of s" by (simp add: in_abs_of_def pending_def)
  ultimately show ?thesis using assms(3) by (auto simp: in_abs_of_def intro: a_reject)
qed

lemma worker_step_ok:
  assumes "in_inv s" and "worker_step s = Some t"
  shows "in_inv t \<and> abs_step (in_abs_of s) (in_abs_of t)"
proof (cases "in_wpc s")
  case W_Signal_not_empty
  then have "in_abs_of t = (in_abs_of s)\<lparr>ai_ne := ai_ne (in_abs_of s) + 1, ai_wpc := W_Relock\<rparr>" "in_inv t"
    using assms by (auto simp: worker_step_def in_abs_of_def pending_def in_inv_def)
  with W_Signal_not_empty show ?thesis using a_signal [of "in_abs_of s"] by (simp add: in_abs_of_def)
next
  case W_Relock
  then have t: "t = move_tail s" using assms(2) by (simp add: worker_step_def)
  have "in_inv t" unfolding t using assms W_Relock by (intro in_inv_move_tail) (simp_all add: in_inv_def)
  moreover have "in_abs_of t = abs_tail (in_abs_of s)"
    unfolding t using assms(1) by (intro in_abs_of_move_tail) (simp_all add: in_inv_def)
  ultimately show ?thesis using W_Relock a_relock [of "in_abs_of s"] by (simp add: in_abs_of_def)
next
  case W_Wait_flushed
  with assms(2) obtain n where n: "complete s = Suc n" and t: "t = s\<lparr>complete := n, in_wpc := W_Relock_flushed\<rparr>"
    by (cases "complete s") (auto simp: worker_step_def)
  then have "in_abs_of t = (in_abs_of s)\<lparr>ai_co := n, ai_wpc := W_Relock_flushed\<rparr>" "in_inv t"
    using assms(1) W_Wait_flushed by (auto simp: in_abs_of_def pending_def in_inv_def)
  with W_Wait_flushed n show ?thesis using a_wait [of "in_abs_of s" n] by (simp add: in_abs_of_def)
next
  case W_Relock_flushed
  have "unat (rwp_start (in_rwp s) + 1000) = unat (rwp_start (in_rwp s)) + 1000"
    using assms(1) unat_plus_no_wrap [of "rwp_start (in_rwp s)" 1000] by (simp add: in_inv_def)
  then have "in_abs_of t = (in_abs_of s)\<lparr>ai_room := 1000, ai_q := [], ai_wpc := W_Idle\<rparr>" "in_inv t"
    using assms W_Relock_flushed
    by (auto simp: worker_step_def in_abs_of_def pending_def in_inv_def on_buffer_flushed_eq INPUT_WINDOW_SZ_def)
  with W_Relock_flushed show ?thesis using a_reset [of "in_abs_of s"] by (simp add: in_abs_of_def)
qed (use assms(2) in \<open>simp add: worker_step_def\<close>)

lemma client_flush_request_ok:
  assumes "in_inv s" and "in_cpc s = C_Idle"
  shows "\<exists>t. client_flush_request n s = Inr t \<and> in_inv t \<and> abs_step (in_abs_of s) (in_abs_of t)"
proof (cases "pending s = []")
  case True
  let ?t = "s\<lparr>in_cpc := C_Wait_not_empty n\<rparr>"
  have "in_abs_of ?t = (in_abs_of s)\<lparr>ai_cpc := C_Wait_not_empty n\<rparr>" "in_inv ?t"
    using assms(1) by (auto simp: in_abs_of_def pending_def in_inv_def)
  with True assms show ?thesis
    using a_request_wait [of "in_abs_of s" n] wrote_win_sz_0_iff [OF assms(1)]
    by (simp add: in_abs_of_def client_flush_request_def)
next
  case False
  then show ?thesis
    using assms client_flush_now_ok [OF assms(1), of n] wrote_win_sz_0_iff [OF assms(1)]
      a_request_now [of "in_abs_of s" n]
    by (auto simp: client_flush_request_def in_abs_of_def)
qed

lemma client_step_ok:
  assumes "in_inv s" and "client_step s = Some r"
  shows "\<exists>t. r = Inr t \<and> in_inv t \<and> abs_step (in_abs_of s) (in_abs_of t)"
proof (cases "in_cpc s")
  case (C_Wait_not_empty k)
  with assms(2) obtain n where n: "not_empty s = Suc n" and t: "r = Inr (s\<lparr>not_empty := n, in_cpc := C_Relock k\<rparr>)"
    by (cases "not_empty s") (auto simp: client_step_def)
  have "in_abs_of (s\<lparr>not_empty := n, in_cpc := C_Relock k\<rparr>) = (in_abs_of s)\<lparr>ai_ne := n, ai_cpc := C_Relock k\<rparr>"
    by (simp add: in_abs_of_def pending_def)
  then show ?thesis
    using a_awake [of "in_abs_of s" k n] n C_Wait_not_empty assms(1) t by (auto simp: in_abs_of_def in_inv_def)
next
  case (C_Relock k)
  then show ?thesis
    using assms client_flush_now_ok [OF assms(1), of k] a_flush [of "in_abs_of s" k]
    by (auto simp: client_step_def in_abs_of_def)
next
  case C_Signal_flushed
  let ?t = "s\<lparr>complete := complete s + 1, in_cpc := C_Idle\<rparr>"
  have "in_abs_of ?t = (in_abs_of s)\<lparr>ai_co := ai_co (in_abs_of s) + 1, ai_cpc := C_Idle\<rparr>"
    by (simp add: in_abs_of_def pending_def)
  then show ?thesis
    using a_complete [of "in_abs_of s"] C_Signal_flushed assms
    by (auto simp: in_abs_of_def in_inv_def client_step_def)
qed (use assms(2) in \<open>simp add: client_step_def\<close>)

lemma in_step_ok:
  assumes "in_inv s" and "in_step s t"
  shows "in_inv t \<and> abs_step (in_abs_of s) (in_abs_of t)"
  using assms(2)
proof (cases rule: in_step.cases)
  case (msg m)
  then show ?thesis using on_msg_ok [OF assms(1), of m] by (auto simp: in_exec_def split: if_splits)
next
  case worker
  then show ?thesis using worker_step_ok [OF assms(1)] by (auto simp: in_exec_def)
next
  case (request n)
  then show ?thesis using client_flush_request_ok [OF assms(1), of n] by (auto simp: in_exec_def split: if_splits)
next
  case client
  then show ?thesis using client_step_ok [OF assms(1)] by (auto simp: in_exec_def)
qed

interpretation ri: inv_system in_start in_step in_inv
  by unfold_locales (auto simp: in_start_def in_inv_init in_step_ok)

text \<open>The invariant of the specification alone: what went in and is not lost comes out in order,
  and a client that waits for data already there will be woken.\<close>

definition abs_inv :: "in_abs \<Rightarrow> bool" where
  "abs_inv a \<longleftrightarrow> subseq (ai_out a @ ai_q a) (ai_in a) \<and> ai_room a \<le> 1000 \<and>
     (\<forall>k. ai_cpc a = C_Wait_not_empty k \<longrightarrow> ai_q a \<noteq> [] \<longrightarrow> 0 < ai_ne a \<or> ai_wpc a = W_Signal_not_empty)"

lemma abs_step_inv: "abs_step a b \<Longrightarrow> abs_inv a \<Longrightarrow> abs_inv b"
proof (induction rule: abs_step.induct)
  case (a_accept a bs)
  then have "subseq ((ai_out a @ ai_q a) @ bs) (ai_in a @ bs)"
    by (intro list_emb_append_mono) (auto simp: abs_inv_def)
  with a_accept show ?case by (auto simp: abs_inv_def abs_accept_def abs_tail_def Let_def)
next
  case (a_reset a)
  have "subseq (ai_out a) (ai_out a @ ai_q a)" by (rule prefix_imp_subseq) simp
  with a_reset have "subseq (ai_out a) (ai_in a)" using subseq_order.trans by (auto simp: abs_inv_def)
  then show ?case by (simp add: abs_inv_def)
qed (auto simp: abs_inv_def abs_flush_def abs_tail_def)

section \<open>Clients that do not return to an emptied full window\<close>

text \<open>
  \<open>drained\<close>: the window is full and everything in it was handed out, and the worker has not opened
  the next window yet. \<open>polite_step\<close> excludes a client that asks for more data in that moment.
\<close>

definition abs_drained :: "in_abs \<Rightarrow> bool" where
  "abs_drained a \<longleftrightarrow> ai_q a = [] \<and> ai_room a = 0"

definition drained :: "in_st \<Rightarrow> bool" where
  "drained s \<longleftrightarrow> wrote_win_sz (in_rwp s) = 0 \<and> get_sz (rwp_setup (in_rwp s)) = 0"

definition polite_step :: "in_st \<Rightarrow> in_st \<Rightarrow> bool" where
  "polite_step s t \<longleftrightarrow> in_step s t \<and> \<not> (drained s \<and> in_cpc s = C_Idle \<and> in_cpc t \<noteq> C_Idle)"

text \<open>Completion signals that are on their way from the client to the worker's window reset.\<close>

definition tokens :: "in_abs \<Rightarrow> nat" where
  "tokens a = ai_co a + of_bool (ai_cpc a = C_Signal_flushed) + of_bool (ai_wpc a = W_Relock_flushed)"

definition polite_inv :: "in_abs \<Rightarrow> bool" where
  "polite_inv a \<longleftrightarrow> ai_in a = ai_out a @ ai_q a \<and> tokens a = of_bool (abs_drained a) \<and>
     (abs_drained a \<longrightarrow> ai_cpc a = C_Idle \<or> ai_cpc a = C_Signal_flushed) \<and>
     (ai_wpc a = W_Idle \<longrightarrow> ai_room a \<noteq> 0) \<and> (ai_wpc a = W_Wait_flushed \<longrightarrow> ai_room a = 0)"

lemmas polite_defs = polite_inv_def tokens_def abs_drained_def

lemma polite_inv_step:
  "abs_step a b \<Longrightarrow> polite_inv a \<Longrightarrow> \<not> (abs_drained a \<and> ai_cpc a = C_Idle \<and> ai_cpc b \<noteq> C_Idle) \<Longrightarrow> polite_inv b"
proof (induction rule: abs_step.induct)
  case (a_accept a bs)
  then show ?case by (auto simp: polite_defs abs_accept_def abs_tail_def Let_def split: if_splits)
next
  case (a_flush a k)
  then show ?case by (auto simp: polite_defs abs_flush_def)
next
  case (a_request_now a k)
  then show ?case by (auto simp: polite_defs abs_flush_def)
qed (auto simp: polite_defs abs_tail_def of_bool_def split: if_splits)

lemma abs_drained_iff: "in_inv s \<Longrightarrow> abs_drained (in_abs_of s) \<longleftrightarrow> drained s"
  using wrote_win_sz_0_iff [of s] rwp_full_iff_unat [of "in_rwp s"]
  by (auto simp: abs_drained_def drained_def in_abs_of_def in_inv_def)

lemma in_abs_of_cpc [simp]: "ai_cpc (in_abs_of s) = in_cpc s" and in_abs_of_wpc [simp]: "ai_wpc (in_abs_of s) = in_wpc s"
  by (simp_all add: in_abs_of_def)

lemma in_abs_of_init:
  "in_abs_of (in_init (established_rwp seq)) =
     \<lparr>ai_room = 1000, ai_q = [], ai_in = [], ai_out = [], ai_wpc = W_Idle, ai_cpc = C_Idle, ai_ne = 0, ai_co = 0\<rparr>"
  by (simp add: in_abs_of_def in_init_def established_rwp_def rwp_force_move_start_def rwp_flush_def pending_def Let_def)

lemma abs_inv_init: "abs_inv (in_abs_of (in_init (established_rwp seq)))"
  and polite_inv_init: "polite_inv (in_abs_of (in_init (established_rwp seq)))"
  unfolding in_abs_of_init by (simp_all add: abs_inv_def polite_defs)

lemma recv_step_inv: "in_inv s \<and> abs_inv (in_abs_of s) \<Longrightarrow> in_step s t \<Longrightarrow> in_inv t \<and> abs_inv (in_abs_of t)"
  using in_step_ok [of s t] abs_step_inv by blast

interpretation rs: inv_system in_start in_step "\<lambda>s. in_inv s \<and> abs_inv (in_abs_of s)"
proof
  show "in_inv s \<and> abs_inv (in_abs_of s)" if "in_start s" for s
    using that in_inv_init abs_inv_init by (auto simp: in_start_def)
qed (rule recv_step_inv)

interpretation rp: inv_system in_start polite_step "\<lambda>s. in_inv s \<and> abs_inv (in_abs_of s) \<and> polite_inv (in_abs_of s)"
proof
  show "in_inv s \<and> abs_inv (in_abs_of s) \<and> polite_inv (in_abs_of s)" if "in_start s" for s
    using that by (auto simp: in_start_def in_inv_init abs_inv_init polite_inv_init)
  show "in_inv t \<and> abs_inv (in_abs_of t) \<and> polite_inv (in_abs_of t)"
    if "in_inv s \<and> abs_inv (in_abs_of s) \<and> polite_inv (in_abs_of s)" "polite_step s t" for s t
  proof -
    have st: "in_inv t" "abs_step (in_abs_of s) (in_abs_of t)"
      using that in_step_ok [of s t] by (auto simp: polite_step_def)
    moreover have "polite_inv (in_abs_of t)"
      using polite_inv_step [OF st(2)] that abs_drained_iff [of s]
      by (auto simp: polite_step_def)
    ultimately show ?thesis using that(1) abs_step_inv [OF st(2)] by blast
  qed
qed

section \<open>Runs and evaluation\<close>

definition segment :: "tcp_seq \<Rightarrow> u8 list \<Rightarrow> msg" where
  "segment seq bs = set_seq seq (msg_new (Some bs) (word_of_nat (length bs)))"

definition ev_ok :: "in_event \<Rightarrow> bool" where
  "ev_ok e = (case e of E_msg m \<Rightarrow> msg_ok m | _ \<Rightarrow> True)"

fun polite_run :: "in_event list \<Rightarrow> in_st \<Rightarrow> in_st option" where
  "polite_run [] s = Some s"
| "polite_run (e # es) s =
     (if drained s \<and> (\<exists>n. e = E_request n) then None
      else case in_exec e s of Some (Inr t) \<Rightarrow> polite_run es t | _ \<Rightarrow> None)"

lemma segment_sel:
  "get_seq (segment seq bs) = seq" "data_len (segment seq bs) = word_of_nat (length bs)"
  "length bs < 18446744073709551616 \<Longrightarrow> pbuf (packet (segment seq bs)) = bs"
  by (simp_all add: segment_def msg_access_defs msg_new_def zero_packet_def unat_word_of_nat_u64)

lemma msg_ok_segment: "length bs < 4611686018427387904 \<Longrightarrow> msg_ok (segment seq bs)"
  by (simp add: msg_ok_def segment_def msg_access_defs msg_new_def zero_packet_def unat_word_of_nat_u64)

lemma output_send_ack_sel [simp]:
  "get_seq (output_send_ack seq n) = seq" "get_window_sz (output_send_ack seq n) = ucast (ucast n :: u16)"
  by (simp_all add: output_send_ack_def msg_access_defs set_ack_def)

lemma established_rwp_eq:
  "established_rwp seq = \<lparr>rwp_start = seq_to_size seq, rwp_off = 0, rwp_sz = 1000, rwp_flushed_off = 0\<rparr>"
  by (simp add: established_rwp_def rwp_force_move_start_def rwp_flush_def
      on_init_def init_below_numeral mem_tags_def zero_mem_def Let_def INPUT_WINDOW_SZ_def)

lemmas in_eval = in_exec_def on_msg_def segment_sel established_rwp_eq contains_def move_def worker_step_def
  client_step_def client_flush_request_def client_flush_now_def put_data_def buf_flush_def rwp_setup_def
  receiver_window3_def receiver_window2_def win_begin_def win_end_def seq_modulo_def in_init_def
  INPUT_BUF_SZ_def on_buffer_flushed_eq wrote_win_sz_def move_tail_def get_sz_def
  seq_to_size_def size_to_seq_def Let_def rwp_flush_def win_inc_def mem_read_write_prefix turn_event_def drained_def

lemma in_exec_step: "ev_ok e \<Longrightarrow> in_exec e s = Some (Inr t) \<Longrightarrow> in_step s t"
  by (cases e) (auto simp: ev_ok_def intro: in_step.intros)

lemma in_run_steps: "in_run es s = Some t \<Longrightarrow> list_all ev_ok es \<Longrightarrow> in_step\<^sup>*\<^sup>* s t"
proof (induction es arbitrary: s)
  case (Cons e es)
  then obtain u where "in_exec e s = Some (Inr u)" "in_run es u = Some t"
    by (auto split: option.splits sum.splits)
  with Cons show ?case by (auto intro: converse_rtranclp_into_rtranclp in_exec_step)
qed simp

lemma in_exec_polite:
  "ev_ok e \<Longrightarrow> in_exec e s = Some (Inr t) \<Longrightarrow> \<not> (drained s \<and> (\<exists>n. e = E_request n)) \<Longrightarrow> polite_step s t"
  using in_exec_step [of e s t]
  by (cases e) (auto simp: polite_step_def in_exec_def on_msg_def move_def worker_step_def client_step_def Let_def
      split: if_splits sum.splits wpc.splits)

lemma polite_run_steps: "polite_run es s = Some t \<Longrightarrow> list_all ev_ok es \<Longrightarrow> polite_step\<^sup>*\<^sup>* s t"
proof (induction es arbitrary: s)
  case (Cons e es)
  then obtain u where "in_exec e s = Some (Inr u)" "polite_run es u = Some t" "\<not> (drained s \<and> (\<exists>n. e = E_request n))"
    by (auto split: option.splits sum.splits if_splits)
  with Cons show ?case by (auto intro: converse_rtranclp_into_rtranclp in_exec_polite)
qed simp

definition demo_run :: "in_event list" where
  "demo_run = [E_msg (segment 5 [7, 8, 9]), E_worker, E_worker, E_request 2]"

lemma demo_run_eval:
  "\<exists>t. in_run demo_run (in_init (established_rwp 5)) = Some t \<and>
     polite_run demo_run (in_init (established_rwp 5)) = Some t \<and> delivered t = [7, 8] \<and> pending t = [9]"
  by (simp add: demo_run_def in_eval pending_def) (simp add: mem_read_def mem_write_def upt_rec)

lemma demo_run_ok: "list_all ev_ok demo_run"
  by (simp add: demo_run_def ev_ok_def msg_ok_segment)

lemma in_start_init: "in_start (in_init (established_rwp seq))"
  by (auto simp: in_start_def)

lemmas demo_steps = in_run_steps [OF _ demo_run_ok] and demo_polite_steps = polite_run_steps [OF _ demo_run_ok]

section \<open>Properties\<close>



text \<open>C11: Every step of the receive worker and of the client, from a state of the invariant, keeps
  the invariant and is a step of the abstract byte queue: offsets, buffer and sequence numbers
  implement the specification.\<close>

theorem recv_refines_queue:
  assumes "in_start s" and "in_step\<^sup>*\<^sup>* s t" and "in_step t u"
  shows "abs_step (in_abs_of t) (in_abs_of u)"
  using in_step_ok [OF ri.reachable_inv [OF assms(1,2)] assms(3)] by simp

theorem recv_refines_queue_witness:
  "\<exists>t u. in_run demo_run (in_init (established_rwp 5)) = Some t \<and> in_exec (E_request 1) t = Some (Inr u) \<and>
     abs_step (in_abs_of t) (in_abs_of u)"
proof -
  obtain t u where t: "in_run demo_run (in_init (established_rwp 5)) = Some t" "in_exec (E_request 1) t = Some (Inr u)"
    by (simp add: demo_run_def in_eval)
  from recv_refines_queue [OF in_start_init demo_steps [OF t(1)] in_step.request [OF t(2)]] t show ?thesis by blast
qed

text \<open>What the client was given, followed by what waits in the buffer, is always a subsequence of
  the accepted bytes: nothing is duplicated, reordered or made up. A client that waits for data
  while data is there has a wake-up on its way.\<close>

theorem recv_no_corruption:
  assumes "in_start s" and "in_step\<^sup>*\<^sup>* s t"
  shows "subseq (delivered t @ pending t) (accepted t) \<and>
    (in_cpc t = C_Wait_not_empty k \<longrightarrow> pending t \<noteq> [] \<longrightarrow> 0 < not_empty t \<or> in_wpc t = W_Signal_not_empty)"
  using rs.reachable_inv [OF assms] by (simp add: abs_inv_def in_abs_of_def)

theorem recv_no_corruption_witness:
  "\<exists>t. in_run demo_run (in_init (established_rwp 5)) = Some t \<and> delivered t = [7, 8] \<and> pending t = [9] \<and>
     subseq (delivered t @ pending t) (accepted t)"
proof -
  obtain t where t: "in_run demo_run (in_init (established_rwp 5)) = Some t" "delivered t = [7, 8]" "pending t = [9]"
    using demo_run_eval by blast
  from recv_no_corruption [OF in_start_init demo_steps [OF t(1)]] t show ?thesis by blast
qed

text \<open>C6: As long as the client does not ask for more while a full window is drained and not yet
  replaced, nothing is lost: the accepted bytes are exactly what was delivered and what waits.\<close>

theorem polite_recv_lossless:
  assumes "in_start s" and "polite_step\<^sup>*\<^sup>* s t"
  shows "accepted t = delivered t @ pending t"
  using rp.reachable_inv [OF assms] by (simp add: polite_inv_def in_abs_of_def)

theorem polite_recv_lossless_witness:
  "\<exists>t. polite_run demo_run (in_init (established_rwp 5)) = Some t \<and> accepted t = [7, 8, 9]"
proof -
  obtain t where t: "polite_run demo_run (in_init (established_rwp 5)) = Some t" "delivered t = [7, 8]" "pending t = [9]"
    using demo_run_eval by blast
  from polite_recv_lossless [OF in_start_init demo_polite_steps [OF t(1)]] t show ?thesis by auto
qed

text \<open>Under the same discipline the two threads do not block each other: a worker that waits for the
  window to be flushed while nothing is pending can go on, or the client is about to wake it.\<close>

theorem polite_recv_no_deadlock:
  assumes "in_start s" and "polite_step\<^sup>*\<^sup>* s t" and "in_wpc t = W_Wait_flushed" and "pending t = []"
  shows "in_exec E_worker t \<noteq> None \<or> in_exec E_client t \<noteq> None"
  using rp.reachable_inv [OF assms(1,2)] assms(3,4)
  by (auto simp: polite_defs in_abs_of_def in_exec_def worker_step_def client_step_def of_bool_def split: if_splits)

theorem polite_recv_no_deadlock_witness:
  "\<exists>t. polite_run [E_msg (segment 5 (replicate 1000 1)), E_worker, E_worker, E_request 1000]
       (in_init (established_rwp 5)) = Some t \<and>
     (in_exec E_worker t \<noteq> None \<or> in_exec E_client t \<noteq> None)"
proof -
  let ?es = "[E_msg (segment 5 (replicate 1000 1)), E_worker, E_worker, E_request 1000]"
  obtain t where t: "polite_run ?es (in_init (established_rwp 5)) = Some t" "in_wpc t = W_Wait_flushed" "pending t = []"
    by (simp add: in_eval pending_def)
  have "list_all ev_ok ?es" by (simp add: ev_ok_def msg_ok_segment)
  from polite_recv_no_deadlock [OF in_start_init polite_run_steps [OF t(1) this] t(2,3)] t(1) show ?thesis by blast
qed

text \<open>C32: \<open>recv\<close> with a size above one window can lose data. The window fills with \<open>A\<close>; the client takes
  all of it and signals completion; before the worker runs, the loop asks again, passes the wait
  on the old \<open>not_empty\<close> count, gets nothing and signals completion a second time. The worker
  consumes one signal and opens the next window, \<open>B\<close> fills it, and the second signal makes the
  worker drop it: \<open>B\<close> is acknowledged and accepted, and is never delivered.\<close>

theorem recv_stale_completion_loses_window:
  assumes "length A = 1000" and "length B = 1000"
  shows "\<exists>t. recv_proc [T_msg (segment 0 A), T_worker, T_worker, T_client, T_client, T_client, T_client,
        T_client, T_client, T_worker, T_worker, T_msg (segment 1000 B), T_worker, T_worker, T_worker, T_worker]
       2000 (in_init (established_rwp 0)) = Some (1000, t) \<and>
     accepted t = A @ B \<and> delivered t = A \<and> pending t = [] \<and> in_wpc t = W_Idle \<and>
     map get_seq (in_acks t) = [999, 1999]"
  using assms by (simp add: in_eval pending_def send_win_ack_def before_begin_def)

theorem recv_stale_completion_loses_window_witness:
  "\<exists>t. recv_proc [T_msg (segment 0 (replicate 1000 1)), T_worker, T_worker, T_client, T_client, T_client, T_client,
        T_client, T_client, T_worker, T_worker, T_msg (segment 1000 (replicate 1000 2)), T_worker, T_worker, T_worker, T_worker]
       2000 (in_init (established_rwp 0)) = Some (1000, t) \<and> delivered t = replicate 1000 1"
  using recv_stale_completion_loses_window [of "replicate 1000 1" "replicate 1000 2"] by force

text \<open>C12: A segment is accepted exactly when it starts at the next expected byte and fits into the rest
  of the window; then its payload is appended. Every other segment changes nothing but is answered by
  an acknowledgement of the last byte received in order, with the room that is left.\<close>

theorem on_msg_in_order_only:
  assumes "in_inv s" and "in_wpc s = W_Idle" and "msg_ok m"
    and "unat (rwp_start (in_rwp s)) + unat (rwp_off (in_rwp s)) < 4294967296"
  shows "if unat (get_seq m) = unat (rwp_start (in_rwp s)) + unat (rwp_off (in_rwp s)) \<and>
            unat (rwp_off (in_rwp s)) + unat (data_len m) \<le> 1000
         then \<exists>t. on_msg m s = Inr t \<and> accepted t = accepted s @ get_data m \<and> pending t = pending s @ get_data m
         else on_msg m s = Inr (s\<lparr>in_acks := in_acks s @ [output_send_ack
                (size_to_seq (rwp_start (in_rwp s) + rwp_off (in_rwp s)) - 1) (1000 - rwp_off (in_rwp s))]\<rparr>)"
proof -
  let ?w = "rwp_setup (in_rwp s)" and ?b = "unat (rwp_start (in_rwp s)) + unat (rwp_off (in_rwp s))"
  have ok: "win_ok ?w" using assms(1) by (rule in_inv_win_ok)
  have b: "unat (win_begin ?w) = ?b" by (simp add: win_ok_begin [OF ok])
  have n: "unat (data_len m) < 4611686018427387904" "unat (data_len m) \<le> length (pbuf (packet m))"
    using assms(3) by (simp_all add: msg_ok_def)
  have seq: "seq_to_size (get_seq m) = win_begin ?w \<longleftrightarrow> unat (get_seq m) = ?b"
    by (simp add: word_unat_eq_iff b)
  have on: "on_msg m s = (if unat (get_seq m) = ?b \<and> unat (rwp_off (in_rwp s)) + unat (data_len m) \<le> 1000
      then move (pbuf (packet m)) (data_len m) s else Inr (send_win_ack s))"
    using in_order_contained [OF assms(1) n(1), of "get_seq m"] seq
    unfolding on_msg_def Let_def by auto
  have ack: "send_win_ack s = s\<lparr>in_acks := in_acks s @ [output_send_ack
      (size_to_seq (rwp_start (in_rwp s) + rwp_off (in_rwp s)) - 1) (1000 - rwp_off (in_rwp s))]\<rparr>"
    using assms(1) size_to_seq_before_begin [of ?w]
    by (simp add: send_win_ack_def get_sz_def in_inv_def INPUT_WINDOW_SZ_def win_begin_def)
  show ?thesis
  proof (cases "unat (get_seq m) = ?b \<and> unat (rwp_off (in_rwp s)) + unat (data_len m) \<le> 1000")
    case True
    then obtain t where t: "move (pbuf (packet m)) (data_len m) s = Inr t"
        "in_abs_of t = abs_accept (take (unat (data_len m)) (pbuf (packet m))) (in_abs_of s)"
      using move_ok [OF assms(1) _ _ n(2) assms(2)] assms(4) by auto
    then have "accepted t = accepted s @ get_data m" "pending t = pending s @ get_data m"
      by (auto simp: in_abs_of_def abs_accept_def abs_tail_def Let_def get_data_def split: if_splits)
    with True on t(1) show ?thesis by simp
  qed (simp only: on ack if_False)
qed

theorem on_msg_in_order_only_witness:
  "\<exists>t. on_msg (segment 5 [7, 8]) (in_init (established_rwp 5)) = Inr t \<and> accepted t = [7, 8]"
proof -
  have "in_wpc (in_init (established_rwp 5)) = W_Idle" "msg_ok (segment 5 [7, 8])"
    by (simp_all add: in_init_def msg_ok_segment)
  moreover have "unat (rwp_start (in_rwp (in_init (established_rwp 5)))) = 5"
      "unat (rwp_off (in_rwp (in_init (established_rwp 5)))) = 0"
    by (simp_all add: in_init_def established_rwp_eq)
  ultimately show ?thesis
    using on_msg_in_order_only [of "in_init (established_rwp 5)" "segment 5 [7, 8]"] in_inv_init [of 5]
    by (auto simp: segment_sel get_data_def in_init_def)
qed

text \<open>C33: Once the stream has passed sequence number 2^32, the receiver never accepts a byte again: the
  window's 64-bit position is compared with the 32-bit number of the segment, and every segment,
  in order or not, is only answered by another acknowledgement.\<close>

theorem on_msg_stalls_after_wrap:
  assumes "in_inv s" and "4294967296 \<le> unat (rwp_start (in_rwp s)) + unat (rwp_off (in_rwp s))"
  shows "on_msg m s = Inr (send_win_ack s)"
proof -
  have "unat (seq_to_size (get_seq m)) \<noteq> unat (win_begin (rwp_setup (in_rwp s)))"
    using unat_u32_bound [of "get_seq m"] assms(2) win_ok_begin [OF in_inv_win_ok [OF assms(1)]] by simp
  then have "seq_to_size (get_seq m) \<noteq> win_begin (rwp_setup (in_rwp s))" by metis
  then show ?thesis by (simp add: on_msg_def Let_def)
qed

theorem on_msg_stalls_after_wrap_witness:
  "\<exists>t. in_run [E_msg (segment 4294967295 (replicate 1000 1)), E_worker, E_worker, E_request 1000, E_client,
        E_worker, E_worker] (in_init (established_rwp 4294967295)) = Some t \<and>
     pending t = [] \<and> on_msg (segment 999 [2]) t = Inr (send_win_ack t)"
proof -
  let ?es = "[E_msg (segment 4294967295 (replicate 1000 1)), E_worker, E_worker, E_request 1000, E_client,
        E_worker, E_worker]"
  obtain t where t: "in_run ?es (in_init (established_rwp 4294967295)) = Some t"
      "unat (rwp_start (in_rwp t)) = 4294968295" "pending t = []"
    by (simp add: in_eval pending_def)
  have "list_all ev_ok ?es" by (simp add: ev_ok_def msg_ok_segment)
  with t(1) have "in_inv t" using ri.reachable_inv [OF in_start_init in_run_steps] by blast
  then show ?thesis using on_msg_stalls_after_wrap [of t "segment 999 [2]"] t by auto
qed

lemma move_delivered:
  "move data n s = Inr t \<Longrightarrow> delivered t = delivered s \<and> in_cpc t = in_cpc s"
  by (auto simp: move_def Let_def split: sum.splits if_splits)

lemma on_msg_delivered: "on_msg m s = Inr t \<Longrightarrow> delivered t = delivered s \<and> in_cpc t = in_cpc s"
  by (auto simp: on_msg_def Let_def move_delivered split: if_splits)

lemma worker_step_delivered: "worker_step s = Some t \<Longrightarrow> delivered t = delivered s \<and> in_cpc t = in_cpc s"
  by (auto simp: worker_step_def split: wpc.splits if_splits)

text \<open>A request under way asks for exactly the missing bytes.\<close>

definition asks_for :: "size_t \<Rightarrow> in_st \<Rightarrow> bool" where
  "asks_for sz s \<longleftrightarrow> (\<forall>k. in_cpc s = C_Wait_not_empty k \<or> in_cpc s = C_Relock k \<longrightarrow> k = sz)"

lemma client_flush_now_amount:
  assumes "in_inv s" and "client_flush_now sz s = Inr t"
  shows "\<exists>bs. delivered t = delivered s @ bs \<and> length bs \<le> unat sz \<and> asks_for r t"
  using client_flush_now_ok [OF assms(1), of sz] assms(2)
  by (auto simp: in_abs_of_def abs_flush_def asks_for_def split: if_splits)

lemma turn_amount:
  assumes "in_inv s" and "asks_for sz s" and "in_exec (turn_event a sz s) s = Some (Inr t)"
  shows "\<exists>bs. delivered t = delivered s @ bs \<and> length bs \<le> unat sz \<and> asks_for (sz - word_of_nat (length bs)) t"
proof (cases a)
  case T_client
  have now: "client_flush_now sz s = Inr t \<Longrightarrow> ?thesis"
    using client_flush_now_amount [OF assms(1)] by blast
  have idle: ?thesis if "delivered t = delivered s" "asks_for sz t"
    using that by simp
  have "in_exec (if in_cpc s = C_Idle then E_request sz else E_client) s = Some (Inr t)"
    using T_client assms(3) by (simp add: turn_event_def)
  then show ?thesis
    using assms(2) now idle
    by (cases "in_cpc s")
      (auto simp: in_exec_def client_flush_request_def client_step_def asks_for_def split: if_splits)
next
  case T_worker
  then show ?thesis
    using assms(2,3) worker_step_delivered [of s t] by (auto simp: turn_event_def in_exec_def asks_for_def)
next
  case (T_msg m)
  then show ?thesis
    using assms(2,3) on_msg_delivered [of m s t] by (auto simp: turn_event_def in_exec_def asks_for_def split: if_splits)
qed

definition turn_ok :: "turn \<Rightarrow> bool" where
  "turn_ok a = (case a of T_msg m \<Rightarrow> msg_ok m | _ \<Rightarrow> True)"

lemma turn_inv:
  "in_inv s \<Longrightarrow> turn_ok a \<Longrightarrow> in_exec (turn_event a sz s) s = Some (Inr t) \<Longrightarrow> in_inv t"
  using in_step_ok [of s t] in_exec_step [of "turn_event a sz s" s t]
  by (cases a) (auto simp: turn_ok_def turn_event_def ev_ok_def split: if_splits)

text \<open>C24: \<open>recv_proc\<close> hands out exactly what was asked for: at every moment of its loop the bytes already
  in the caller's buffer and the bytes still missing add up to the requested size, so that at its
  return the buffer holds that many bytes and it is never written beyond its end.\<close>

theorem recv_proc_exact:
  "in_inv s \<Longrightarrow> asks_for sz s \<Longrightarrow> list_all turn_ok as \<Longrightarrow> recv_proc as sz s = Some (r, t) \<Longrightarrow>
   \<exists>bs. delivered t = delivered s @ bs \<and> length bs + unat r = unat sz"
proof (induction as arbitrary: sz s)
  case (Cons a as)
  then obtain u where u: "in_exec (turn_event a sz s) s = Some (Inr u)"
      "recv_proc as (sz - word_of_nat (length (delivered u) - length (delivered s))) u = Some (r, t)"
    by (auto simp: Let_def split: if_splits option.splits sum.splits)
  obtain bs where bs: "delivered u = delivered s @ bs" "length bs \<le> unat sz" "asks_for (sz - word_of_nat (length bs)) u"
    using turn_amount [OF Cons.prems(1,2) u(1)] by blast
  have "unat (word_of_nat (length bs) :: size_t) = length bs"
    using bs(2) unat_u64_bound [of sz] by (intro unat_word_of_nat_u64) simp
  then have sz: "unat (sz - word_of_nat (length bs)) = unat sz - length bs"
    using bs(2) unat_minus_no_wrap [of "word_of_nat (length bs)" sz] by simp
  have "in_inv u" using turn_inv [OF Cons.prems(1) _ u(1)] Cons.prems(3) by simp
  from Cons.IH [OF this bs(3)] Cons.prems(3) u(2)
  obtain cs where "delivered t = delivered u @ cs" "length cs + unat r = unat (sz - word_of_nat (length bs))"
    by (auto simp: bs(1))
  then show ?case using bs sz by (intro exI [of _ "bs @ cs"]) simp
qed simp

theorem recv_proc_exact_witness:
  "\<exists>t bs. recv_proc [T_client, T_msg (segment 5 [7, 8, 9]), T_worker, T_client, T_client] 3
       (in_init (established_rwp 5)) = Some (0, t) \<and> delivered t = bs \<and> length bs = 3"
proof -
  let ?as = "[T_client, T_msg (segment 5 [7, 8, 9]), T_worker, T_client, T_client]"
  let ?s = "in_init (established_rwp 5)"
  obtain t where t: "recv_proc ?as 3 ?s = Some (0, t)" by (simp add: in_eval)
  have "asks_for 3 ?s" "list_all turn_ok ?as" by (simp_all add: asks_for_def in_init_def turn_ok_def msg_ok_segment)
  from recv_proc_exact [OF in_inv_init this t] t show ?thesis by (auto simp: in_init_def)
qed

text \<open>A datagram shorter than its headers (\<open>transfer_recvfrom\<close> records a wrapped length for it) that
  carries the expected sequence number passes the window test, and the copy into the input buffer
  then runs out of bounds.\<close>

theorem on_msg_short_packet_faults:
  assumes "in_inv s" and "transfer_recvfrom (Some bs) r = Inr m" and "msg_ok r" and "length bs < 56"
    and "unat (get_seq m) = unat (rwp_start (in_rwp s)) + unat (rwp_off (in_rwp s))"
    and "56 \<le> unat (get_seq m)" and "unat (rwp_start (in_rwp s)) + 1000 < 4294967296"
  shows "on_msg m s = Inl Fault"
proof -
  let ?w = "rwp_setup (in_rwp s)" and ?n = "data_len m"
  have ok: "win_ok ?w" using assms(1) by (rule in_inv_win_ok)
  have sz: "rwp_sz (in_rwp s) = INPUT_WINDOW_SZ" using assms(1) by (simp add: in_inv_def)
  have n: "unat ?n = 18446744073709551616 - (56 - length bs)"
    using transfer_recvfrom_short_len [OF assms(2,3,4)] by simp
  have seq: "seq_to_size (get_seq m) = win_begin ?w"
    using assms(5) by (simp add: word_unat_eq_iff win_ok_begin [OF ok])
  have e: "unat (win_begin ?w + ?n) = unat (win_begin ?w) - (56 - length bs)"
    using n assms(4-6) win_ok_begin [OF ok] unat_u32_bound [of "get_seq m"]
    by (simp add: unat_plus_if')
  have en: "unat (win_end ?w) = unat (rwp_start (in_rwp s)) + 1000"
    by (simp add: win_ok_end [OF ok] sz)
  then have "unat (size_to_seq (win_end ?w)) = unat (win_end ?w)"
    using assms(7) by (simp add: unat_size_to_seq)
  moreover have "unat (win_begin ?w) \<le> unat (win_end ?w)"
    using assms(1) en win_ok_begin [OF ok] by (simp add: in_inv_def)
  ultimately have "contains ?w (receiver_window2 (seq_to_size (get_seq m)) ?n)"
    unfolding seq by (auto simp: contains_def Let_def word_le_nat_alt word_less_nat_alt e)
  moreover have "put_data (rwp_off (in_rwp s)) (pbuf (packet m)) ?n (in_buf s) = Inl Fault"
    using n assms(4) by (simp add: put_data_def INPUT_BUF_SZ_def)
  ultimately show ?thesis using seq by (simp add: on_msg_def move_def Let_def)
qed

lemma short_datagram_seq:
  "\<exists>m. transfer_recvfrom (Some (replicate 40 1)) (msg_new None 4) = Inr m \<and> get_seq m = 16843009"
proof -
  have "unat (packet_sz (msg_new None 4)) = 60" by (simp add: packet_sz_def msg_new_def sizeof_defs)
  then show ?thesis
    by (simp add: transfer_recvfrom_def Let_def)
      (simp add: set_data_len_def load_packet_def load_TCPHDR_def load_tcphdr_def ld32_def msg_access_defs
        sizeof_defs mem_read_def mem_write_def upt_rec)
qed

theorem on_msg_short_packet_faults_witness:
  "\<exists>m. transfer_recvfrom (Some (replicate 40 1)) (msg_new None 4) = Inr m \<and>
     on_msg m (in_init (established_rwp 16843009)) = Inl Fault"
proof -
  let ?s = "in_init (established_rwp 16843009)"
  obtain m where m: "transfer_recvfrom (Some (replicate 40 1)) (msg_new None 4) = Inr m" "get_seq m = 16843009"
    using short_datagram_seq by blast
  have r: "msg_ok (msg_new None 4)" "length (replicate 40 (1::u8)) < 56"
    by (simp_all add: msg_ok_def msg_new_def zero_packet_def)
  have "rwp_start (in_rwp ?s) = 16843009" "rwp_off (in_rwp ?s) = 0"
    by (simp_all add: in_init_def established_rwp_eq seq_to_size_def)
  then show ?thesis
    using on_msg_short_packet_faults [OF in_inv_init m(1) r, of 16843009] m by simp
qed

end
