(* ===== verification/Handshake.thy ===== *)
theory Handshake
  imports Send_Window Recv_Window
begin

text \<open>
  Connection establishment and close: \<open>establish_handshaker\<close>, \<open>close_handshaker\<close> and
  \<open>internal_state\<close> of \<open>src/tcp_proto_handshaker.h\<close> with their controllers in
  \<open>socket_full_impl::handshake\<close>, \<open>close_hadnshaker_keeper\<close> and \<open>socket_full_impl::disconnect\<close> of
  \<open>src/newimpl.cpp\<close>. Both directions of a socket share one state word. A loop that waits for a
  message is a function on the list of messages that arrive; it returns the messages it has not
  consumed, and \<open>None\<close> while no message has ended it. The random numbers are arguments.
\<close>

section \<open>An endpoint\<close>

record endpoint =
  ep_state :: tcp_state
  ep_eh :: eh_area
  ep_ch :: ch_area
  ep_cwp :: cwp_area
  ep_rwp :: rwp_area
  ep_sent :: "msg list"

definition set_state :: "tcp_state \<Rightarrow> endpoint \<Rightarrow> endpoint" where
  "set_state st e = e\<lparr>ep_state := st\<rparr>"

definition get_state :: "endpoint \<Rightarrow> tcp_state" where
  "get_state e = ep_state e"

text \<open>\<open>socket_sock_base::send\<close>, as far as the peer's handshake sees it.\<close>

definition ep_send :: "msg \<Rightarrow> endpoint \<Rightarrow> endpoint" where
  "ep_send m e = e\<lparr>ep_sent := ep_sent e @ [m]\<rparr>"

section \<open>Establishing: the messages\<close>

definition hs_send_ack :: "tcp_seq \<Rightarrow> tcp_seq \<Rightarrow> endpoint \<Rightarrow> endpoint" where
  "hs_send_ack seq ack_seq =
     ep_send (set_window_sz (ucast OUTPUT_WINDOW_SZ) (set_ack_seq ack_seq (set_seq seq (set_ack (msg_new None 0)))))"

definition send_syn_ack :: "tcp_seq \<Rightarrow> tcp_seq \<Rightarrow> endpoint \<Rightarrow> endpoint" where
  "send_syn_ack seq ack_seq =
     ep_send (set_window_sz (ucast INPUT_WINDOW_SZ) (set_ack_seq ack_seq (set_seq seq (set_ack (set_syn (msg_new None 0))))))"

definition send_syn :: "tcp_seq \<Rightarrow> endpoint \<Rightarrow> endpoint" where
  "send_syn seq = ep_send (set_seq seq (set_syn (msg_new None 0)))"

definition recv_established :: "tcp_seq \<Rightarrow> endpoint \<Rightarrow> endpoint" where
  "recv_established input e = set_state ESTABLISHED (e\<lparr>ep_rwp := rwp_force_move_start input (ep_rwp e)\<rparr>)"

definition send_established :: "tcp_seq \<Rightarrow> endpoint \<Rightarrow> endpoint" where
  "send_established output e = set_state ESTABLISHED (e\<lparr>ep_cwp := scw_force_move_start output (ep_cwp e)\<rparr>)"

section \<open>establish_handshaker\<close>

definition eh_recv_on_ack :: "msg \<Rightarrow> endpoint \<Rightarrow> endpoint res" where
  "eh_recv_on_ack ack e =
     (if get_seq ack = eh_recv_ack_seq (ep_eh e) \<and> get_ack_seq ack = eh_recv_seq (ep_eh e) + 1
      then Inr (recv_established (get_ack_seq ack) e) else Inl Drop)"

definition send_on_syn_ack :: "msg \<Rightarrow> endpoint \<Rightarrow> endpoint res" where
  "send_on_syn_ack ack e =
     (if get_ack_seq ack = eh_send_seq (ep_eh e) + 1
      then Inr (send_established (get_seq ack + 1) (hs_send_ack (get_ack_seq ack) (get_seq ack + 1) e)) else Inl Drop)"

text \<open>The waiting loops; a message that the handshaker drops, or that is of another kind, is lost.\<close>

fun next_ack :: "msg list \<Rightarrow> endpoint \<Rightarrow> (msg list \<times> endpoint) option" where
  "next_ack [] e = None"
| "next_ack (m # ms) e =
     (if is_ack m \<and> \<not> is_syn m
      then (case eh_recv_on_ack m e of Inr e' \<Rightarrow> Some (ms, e') | Inl _ \<Rightarrow> next_ack ms e)
      else next_ack ms e)"

fun next_syn_ack :: "msg list \<Rightarrow> endpoint \<Rightarrow> (msg list \<times> endpoint) option" where
  "next_syn_ack [] e = None"
| "next_syn_ack (m # ms) e =
     (if is_syn m \<and> is_ack m
      then (case send_on_syn_ack m e of Inr e' \<Rightarrow> Some (ms, e') | Inl _ \<Rightarrow> next_syn_ack ms e)
      else next_syn_ack ms e)"

definition recv_on_syn :: "u32 \<Rightarrow> msg \<Rightarrow> msg list \<Rightarrow> endpoint \<Rightarrow> (msg list \<times> endpoint) option" where
  "recv_on_syn rnd syn ms e =
     (let e1 = e\<lparr>ep_eh := (ep_eh e)\<lparr>eh_recv_seq := rnd, eh_recv_ack_seq := get_seq syn + 1\<rparr>\<rparr>
      in next_ack ms (send_syn_ack (eh_recv_seq (ep_eh e1)) (eh_recv_ack_seq (ep_eh e1)) e1))"

fun next_syn :: "u32 \<Rightarrow> msg list \<Rightarrow> endpoint \<Rightarrow> (msg list \<times> endpoint) option" where
  "next_syn rnd [] e = None"
| "next_syn rnd (m # ms) e =
     (if is_syn m \<and> \<not> is_ack m then recv_on_syn rnd m ms e else next_syn rnd ms e)"

definition send_establish :: "u32 \<Rightarrow> msg list \<Rightarrow> endpoint \<Rightarrow> (msg list \<times> endpoint) option" where
  "send_establish rnd ms e =
     (let e1 = e\<lparr>ep_eh := (ep_eh e)\<lparr>eh_send_seq := rnd\<rparr>\<rparr>
      in next_syn_ack ms (send_syn (eh_send_seq (ep_eh e1)) e1))"

definition handshake :: "bool \<Rightarrow> u32 \<Rightarrow> msg list \<Rightarrow> endpoint \<Rightarrow> (msg list \<times> endpoint) option" where
  "handshake recv rnd ms e =
     (if get_state e = CLOSED then (if recv then next_syn rnd ms e else send_establish rnd ms e) else Some (ms, e))"

section \<open>Closing: the messages\<close>

definition ch_send_ack :: "tcp_seq \<Rightarrow> endpoint \<Rightarrow> endpoint" where
  "ch_send_ack seq = ep_send (set_seq seq (set_ack (msg_new None 0)))"

definition send_fin_ack :: "tcp_seq \<Rightarrow> tcp_seq \<Rightarrow> endpoint \<Rightarrow> endpoint" where
  "send_fin_ack seq ack_seq = ep_send (set_ack_seq ack_seq (set_seq seq (set_ack (set_fin (msg_new None 0)))))"

text \<open>The FIN is sent ten times.\<close>

definition send_fin :: "tcp_seq \<Rightarrow> endpoint \<Rightarrow> endpoint" where
  "send_fin seq = (ep_send (set_seq seq (set_fin (msg_new None 0)))) ^^ 10"

definition send_rst :: "tcp_seq \<Rightarrow> endpoint \<Rightarrow> endpoint" where
  "send_rst seq = ep_send (set_seq seq (set_rst (msg_new None 0)))"

definition send_rst_ack :: "tcp_seq \<Rightarrow> tcp_seq \<Rightarrow> endpoint \<Rightarrow> endpoint" where
  "send_rst_ack seq ack_seq = ep_send (set_ack_seq ack_seq (set_seq seq (set_ack (set_rst (msg_new None 0)))))"

definition recv_closed :: "endpoint \<Rightarrow> endpoint" where "recv_closed = set_state CLOSED"

definition send_closed :: "endpoint \<Rightarrow> endpoint" where "send_closed = set_state CLOSED"

section \<open>close_handshaker\<close>

definition ch_recv_on_ack :: "msg \<Rightarrow> endpoint \<Rightarrow> endpoint res" where
  "ch_recv_on_ack ack e = (if get_seq ack = ch_recv_seq (ep_ch e) then Inr (recv_closed e) else Inl Drop)"

definition send_on_fin_ack :: "msg \<Rightarrow> endpoint \<Rightarrow> endpoint res" where
  "send_on_fin_ack ack e =
     (if get_ack_seq ack = ch_send_seq (ep_ch e) then Inr (send_closed (ch_send_ack (get_seq ack) e)) else Inl Drop)"

definition send_on_ack :: "msg \<Rightarrow> endpoint \<Rightarrow> endpoint res" where
  "send_on_ack ack e = (if get_seq ack = ch_recv_seq (ep_ch e) then Inr (send_closed e) else Inl Drop)"

definition recv_on_rst_ack :: "msg \<Rightarrow> endpoint \<Rightarrow> endpoint res" where
  "recv_on_rst_ack ack e =
     (if get_ack_seq ack = ch_send_seq (ep_ch e) then Inr (send_closed (ch_send_ack (get_seq ack) e)) else Inl Drop)"

text \<open>\<open>close_hadnshaker_keeper::next_msg\<close>: wait for a message that satisfies the predicate and is not dropped.\<close>

fun ch_next_msg :: "(msg \<Rightarrow> bool) \<Rightarrow> (msg \<Rightarrow> endpoint \<Rightarrow> endpoint res) \<Rightarrow> msg list \<Rightarrow> endpoint \<Rightarrow> (msg list \<times> endpoint) option" where
  "ch_next_msg P next [] e = None"
| "ch_next_msg P next (m # ms) e =
     (if P m then (case next m e of Inr e' \<Rightarrow> Some (ms, e') | Inl _ \<Rightarrow> ch_next_msg P next ms e)
      else ch_next_msg P next ms e)"

definition next_fin_ack :: "msg list \<Rightarrow> endpoint \<Rightarrow> (msg list \<times> endpoint) option" where
  "next_fin_ack = ch_next_msg (\<lambda>m. is_fin m \<and> is_ack m) send_on_fin_ack"

definition recv_next_ack :: "msg list \<Rightarrow> endpoint \<Rightarrow> (msg list \<times> endpoint) option" where
  "recv_next_ack = ch_next_msg (\<lambda>m. \<not> is_rst m \<and> \<not> is_fin m \<and> is_ack m) ch_recv_on_ack"

definition send_next_ack :: "msg list \<Rightarrow> endpoint \<Rightarrow> (msg list \<times> endpoint) option" where
  "send_next_ack = ch_next_msg (\<lambda>m. \<not> is_rst m \<and> \<not> is_fin m \<and> is_ack m) send_on_ack"

definition next_rst_ack :: "msg list \<Rightarrow> endpoint \<Rightarrow> (msg list \<times> endpoint) option" where
  "next_rst_ack = ch_next_msg (\<lambda>m. \<not> is_fin m \<and> is_ack m) recv_on_rst_ack"

definition send_close :: "u32 \<Rightarrow> msg list \<Rightarrow> endpoint \<Rightarrow> (msg list \<times> endpoint) option" where
  "send_close rnd ms e =
     (let e1 = e\<lparr>ep_ch := (ep_ch e)\<lparr>ch_send_seq := rnd\<rparr>\<rparr> in next_fin_ack ms (send_fin (ch_send_seq (ep_ch e1)) e1))"

definition recv_close :: "u32 \<Rightarrow> msg list \<Rightarrow> endpoint \<Rightarrow> (msg list \<times> endpoint) option" where
  "recv_close rnd ms e =
     (let e1 = e\<lparr>ep_ch := (ep_ch e)\<lparr>ch_send_seq := rnd\<rparr>\<rparr> in next_rst_ack ms (send_rst (ch_send_seq (ep_ch e1)) e1))"

definition recv_on_fin :: "u32 \<Rightarrow> msg \<Rightarrow> msg list \<Rightarrow> endpoint \<Rightarrow> (msg list \<times> endpoint) option" where
  "recv_on_fin rnd fin ms e =
     (let e1 = e\<lparr>ep_ch := (ep_ch e)\<lparr>ch_recv_seq := rnd\<rparr>\<rparr>
      in recv_next_ack ms (send_fin_ack (ch_recv_seq (ep_ch e1)) (get_seq fin) e1))"

definition send_on_rst :: "u32 \<Rightarrow> msg \<Rightarrow> msg list \<Rightarrow> endpoint \<Rightarrow> (msg list \<times> endpoint) option" where
  "send_on_rst rnd fin ms e =
     (let e1 = e\<lparr>ep_ch := (ep_ch e)\<lparr>ch_recv_seq := rnd\<rparr>\<rparr>
      in send_next_ack ms (send_rst_ack (ch_recv_seq (ep_ch e1)) (get_seq fin) e1))"

text \<open>\<open>disconnect\<close>: with a received FIN or RST it answers, without it opens the close.\<close>

definition disconnect :: "bool \<Rightarrow> msg option \<Rightarrow> u32 \<Rightarrow> u32 \<Rightarrow> msg list \<Rightarrow> endpoint \<Rightarrow> (msg list \<times> endpoint) option" where
  "disconnect recv input rnd rnd' ms e =
     (case input of
        Some m \<Rightarrow>
          (case (if is_fin m \<and> \<not> is_ack m \<and> get_state e = ESTABLISHED then recv_on_fin rnd m ms e else Some (ms, e)) of
             None \<Rightarrow> None
           | Some (ms', e') \<Rightarrow>
               (if is_rst m \<and> \<not> is_ack m \<and> get_state e' = ESTABLISHED then send_on_rst rnd' m ms' e' else Some (ms', e')))
      | None \<Rightarrow>
          (if get_state e = ESTABLISHED then (if recv then recv_close rnd ms e else send_close rnd ms e) else Some (ms, e)))"

section \<open>Lemmas\<close>

text \<open>A new endpoint: its areas as the shared memory is initialised.\<close>

definition fresh_endpoint :: endpoint where
  "fresh_endpoint = (let m = on_init zero_mem
     in \<lparr>ep_state = st_state m, ep_eh = eh m, ep_ch = ch m, ep_cwp = cwp m, ep_rwp = rwp m, ep_sent = []\<rparr>)"

lemma fresh_endpoint_sel:
  "ep_state fresh_endpoint = CLOSED" "ep_sent fresh_endpoint = []" "cwp_start (ep_cwp fresh_endpoint) = 0"
  "rwp_start (ep_rwp fresh_endpoint) = 0" "ep_cwp fresh_endpoint = cwp (on_init zero_mem)"
  "ep_rwp fresh_endpoint = rwp (on_init zero_mem)"
  by (simp_all add: fresh_endpoint_def Let_def on_init_def init_below_numeral mem_tags_def zero_mem_def)

text \<open>All waiting loops are instances of one: they end at the first message that is accepted.\<close>

lemma ch_next_msg_Some:
  "ch_next_msg P next ms e = Some (rest, e') \<Longrightarrow> \<exists>pre m. ms = pre @ m # rest \<and> P m \<and> next m e = Inr e'"
proof (induction ms)
  case (Cons m ms)
  then show ?case
    by (cases "P m \<and> (\<exists>x. next m e = Inr x)") (force split: if_splits sum.splits intro: exI [of _ "[]"] exI [of _ "m # pre" for pre])+
qed simp

lemma ch_next_msg_found:
  "P m \<Longrightarrow> next m e = Inr e' \<Longrightarrow> (\<And>m'. m' \<in> set pre \<Longrightarrow> P m' \<Longrightarrow> \<exists>x. next m' e = Inl x) \<Longrightarrow>
   ch_next_msg P next (pre @ m # rest) e = Some (rest, e')"
proof (induction pre)
  case (Cons a pre)
  have "ch_next_msg P next (pre @ m # rest) e = Some (rest, e')" using Cons by simp
  moreover have "P a \<Longrightarrow> \<exists>x. next a e = Inl x" using Cons.prems(3) by simp
  ultimately show ?case by auto
qed simp

lemma next_ack_eq: "next_ack ms e = ch_next_msg (\<lambda>m. is_ack m \<and> \<not> is_syn m) eh_recv_on_ack ms e"
  by (induction ms) (auto split: sum.splits)

lemma next_syn_ack_eq: "next_syn_ack ms e = ch_next_msg (\<lambda>m. is_syn m \<and> is_ack m) send_on_syn_ack ms e"
  by (induction ms) (auto split: sum.splits)

lemma next_syn_Some:
  "next_syn rnd ms e = Some r \<Longrightarrow> \<exists>pre m ms'. ms = pre @ m # ms' \<and> is_syn m \<and> \<not> is_ack m \<and> recv_on_syn rnd m ms' e = Some r"
proof (induction ms)
  case (Cons m ms)
  then show ?case
  proof (cases "is_syn m \<and> \<not> is_ack m")
    case True
    with Cons.prems show ?thesis by (intro exI [of _ "[]"] exI [of _ m] exI [of _ ms]) simp
  next
    case False
    with Cons obtain pre m' ms' where "ms = pre @ m' # ms'" "is_syn m'" "\<not> is_ack m'" "recv_on_syn rnd m' ms' e = Some r" by auto
    then show ?thesis by (intro exI [of _ "m # pre"]) auto
  qed
qed simp

lemmas hs_msg_defs = ep_send_def hs_send_ack_def send_syn_ack_def send_syn_def send_established_def recv_established_def
  set_state_def get_state_def

lemma ep_ch_send_fin: "ep_ch (send_fin q e) = ep_ch e"
  unfolding send_fin_def by (simp add: eval_nat_numeral ep_send_def)

text \<open>The fields that the handshake reads from the messages it sends.\<close>

lemma handshake_fields:
  "get_seq (set_window_sz w m) = get_seq m" "get_ack_seq (set_window_sz w m) = get_ack_seq m"
  "get_seq (set_ack_seq q m) = get_seq m" "get_ack_seq (set_ack_seq q m) = q"
  "get_ack_seq (set_seq q m) = get_ack_seq m" "get_seq (set_seq q m) = q"
  "is_syn (set_window_sz w m) = is_syn m" "is_ack (set_window_sz w m) = is_ack m"
  "is_syn (set_ack_seq q m) = is_syn m" "is_ack (set_ack_seq q m) = is_ack m"
  "is_syn (set_seq q m) = is_syn m" "is_ack (set_seq q m) = is_ack m"
  "is_ack (set_ack m)" "is_syn (set_ack m) = is_syn m" "is_syn (set_syn m)" "is_ack (set_syn m) = is_ack m"
  "\<not> is_ack (msg_new b n)" "\<not> is_syn (msg_new b n)"
  by (simp_all add: msg_access_defs bit_simps msg_new_def zero_packet_def zero_tcphdr_def)

lemma client_established:
  assumes "handshake False x cin a = Some (rest, a')" and "ep_state a = CLOSED"
  shows "\<exists>m \<in> set cin. is_syn m \<and> is_ack m \<and> get_ack_seq m = x + 1 \<and> ep_state a' = ESTABLISHED \<and>
    ep_cwp a' = scw_force_move_start (get_seq m + 1) (ep_cwp a) \<and> ep_rwp a' = ep_rwp a"
proof -
  let ?e = "send_syn x (a\<lparr>ep_eh := (ep_eh a)\<lparr>eh_send_seq := x\<rparr>\<rparr>)"
  have "ch_next_msg (\<lambda>m. is_syn m \<and> is_ack m) send_on_syn_ack cin ?e = Some (rest, a')"
    using assms by (simp add: handshake_def get_state_def send_establish_def next_syn_ack_eq)
  from ch_next_msg_Some [OF this] obtain pre m where "cin = pre @ m # rest" "is_syn m" "is_ack m" "send_on_syn_ack m ?e = Inr a'"
    by auto
  then show ?thesis by (intro bexI [of _ m]) (auto simp: send_on_syn_ack_def hs_msg_defs split: if_splits)
qed

lemma server_established:
  assumes "handshake True y sin b = Some (rest, b')" and "ep_state b = CLOSED"
  shows "\<exists>syn \<in> set sin. \<exists>ack \<in> set sin. is_syn syn \<and> \<not> is_ack syn \<and> is_ack ack \<and> get_seq ack = get_seq syn + 1 \<and>
    get_ack_seq ack = y + 1 \<and> ep_state b' = ESTABLISHED \<and> ep_rwp b' = rwp_force_move_start (y + 1) (ep_rwp b) \<and>
    ep_cwp b' = ep_cwp b \<and> ep_sent b' = ep_sent (send_syn_ack y (get_seq syn + 1) b)"
proof -
  have "next_syn y sin b = Some (rest, b')" using assms by (simp add: handshake_def get_state_def)
  from next_syn_Some [OF this] obtain pre syn ms where ms: "sin = pre @ syn # ms" "is_syn syn" "\<not> is_ack syn"
      "recv_on_syn y syn ms b = Some (rest, b')" by blast
  let ?e = "send_syn_ack y (get_seq syn + 1) (b\<lparr>ep_eh := (ep_eh b)\<lparr>eh_recv_seq := y, eh_recv_ack_seq := get_seq syn + 1\<rparr>\<rparr>)"
  have "ch_next_msg (\<lambda>m. is_ack m \<and> \<not> is_syn m) eh_recv_on_ack ms ?e = Some (rest, b')"
    using ms(4) by (simp add: recv_on_syn_def next_ack_eq)
  from ch_next_msg_Some [OF this] obtain pre' ack where ack: "ms = pre' @ ack # rest" "is_ack ack" "eh_recv_on_ack ack ?e = Inr b'"
    by auto
  then show ?thesis
    using ms by (intro bexI [of _ syn] bexI [of _ ack]) (auto simp: eh_recv_on_ack_def hs_msg_defs split: if_splits)
qed

section \<open>Properties\<close>

text \<open>C8: When both sides finish the handshake and no message was forged (each side received only messages
  that the other sent, lost, repeated or reordered in any way), both are established and agree on
  the stream's start: the client's send window and the server's receive window start at the
  number after the server's random number. The reverse direction is opened without a handshake:
  it starts at 0 on both sides.\<close>

theorem handshake_agreement:
  assumes "handshake False x cin fresh_endpoint = Some (r, a)" and "handshake True y sin fresh_endpoint = Some (r', b)"
    and "set cin \<subseteq> set (ep_sent b)"
  shows "ep_state a = ESTABLISHED \<and> ep_state b = ESTABLISHED \<and>
    cwp_start (ep_cwp a) = seq_to_size (y + 1) \<and> rwp_start (ep_rwp b) = seq_to_size (y + 1) \<and>
    cwp_start (ep_cwp b) = 0 \<and> rwp_start (ep_rwp a) = 0"
proof -
  obtain m where m: "m \<in> set cin" "ep_state a = ESTABLISHED" "ep_rwp a = ep_rwp fresh_endpoint"
      "ep_cwp a = scw_force_move_start (get_seq m + 1) (ep_cwp fresh_endpoint)"
    using client_established [OF assms(1)] fresh_endpoint_sel(1) by auto
  obtain q where b: "ep_state b = ESTABLISHED" "ep_rwp b = rwp_force_move_start (y + 1) (ep_rwp fresh_endpoint)"
      "ep_cwp b = ep_cwp fresh_endpoint" "ep_sent b = ep_sent (send_syn_ack y q fresh_endpoint)"
    using server_established [OF assms(2)] fresh_endpoint_sel(1) by auto
  have "get_seq m = y"
    using m(1) assms(3) b(4) by (auto simp: send_syn_ack_def ep_send_def fresh_endpoint_sel handshake_fields)
  with m b show ?thesis
    by (simp add: fresh_endpoint_sel(1-4) scw_force_move_start_def cwp_flush_def rwp_force_move_start_def rwp_flush_def Let_def)
qed

definition demo_syn :: msg where "demo_syn = set_seq 5 (set_syn (msg_new None 0))"

definition demo_syn_ack :: msg where
  "demo_syn_ack = set_window_sz (ucast INPUT_WINDOW_SZ) (set_ack_seq 6 (set_seq 9 (set_ack (set_syn (msg_new None 0)))))"

definition demo_ack :: msg where
  "demo_ack = set_window_sz (ucast OUTPUT_WINDOW_SZ) (set_ack_seq 10 (set_seq 6 (set_ack (msg_new None 0))))"

lemma demo_handshake:
  "\<exists>a b. handshake False 5 [demo_syn_ack] fresh_endpoint = Some ([], a) \<and>
     handshake True 9 [demo_syn, demo_ack] fresh_endpoint = Some ([], b) \<and> ep_sent b = [demo_syn_ack] \<and>
     ep_sent a = [demo_syn, demo_ack]"
  by (simp add: handshake_def send_establish_def recv_on_syn_def send_on_syn_ack_def eh_recv_on_ack_def hs_msg_defs
      fresh_endpoint_sel handshake_fields demo_syn_def demo_syn_ack_def demo_ack_def Let_def)

theorem handshake_agreement_witness:
  "\<exists>a b. handshake False 5 [demo_syn_ack] fresh_endpoint = Some ([], a) \<and>
     handshake True 9 [demo_syn, demo_ack] fresh_endpoint = Some ([], b) \<and>
     cwp_start (ep_cwp a) = rwp_start (ep_rwp b) \<and> ep_state a = ESTABLISHED"
proof -
  obtain a b where ab: "handshake False 5 [demo_syn_ack] fresh_endpoint = Some ([], a)"
      "handshake True 9 [demo_syn, demo_ack] fresh_endpoint = Some ([], b)" "ep_sent b = [demo_syn_ack]"
    using demo_handshake by blast
  with handshake_agreement [OF ab(1,2)] show ?thesis by auto
qed

text \<open>C30: Nobody is established by accident: the client only by a SYN-ACK that acknowledges its own random
  number, the server only by an acknowledgement that carries the number after its own random number
  and follows the number of a SYN that it received.\<close>

theorem handshake_needs_nonce:
  assumes "handshake recv x ms fresh_endpoint = Some (r, e)"
  shows "if recv
    then \<exists>syn \<in> set ms. \<exists>ack \<in> set ms. is_syn syn \<and> is_ack ack \<and> get_seq ack = get_seq syn + 1 \<and> get_ack_seq ack = x + 1
    else \<exists>m \<in> set ms. is_syn m \<and> is_ack m \<and> get_ack_seq m = x + 1"
  using assms client_established [of x ms fresh_endpoint r e] server_established [of x ms fresh_endpoint r e]
    fresh_endpoint_sel(1)
  by (cases recv) (simp_all, blast+)

theorem handshake_needs_nonce_witness:
  "\<exists>a. handshake False 5 [demo_syn_ack] fresh_endpoint = Some ([], a) \<and> get_ack_seq demo_syn_ack = 5 + 1"
proof -
  obtain a where a: "handshake False 5 [demo_syn_ack] fresh_endpoint = Some ([], a)" using demo_handshake by blast
  from handshake_needs_nonce [OF a] a show ?thesis by auto
qed

text \<open>C31: The three-message close: when the side that closes and the side that answers its FIN both finish,
  both are closed; the first has seen a FIN-ACK that names its own random number, the second an
  acknowledgement that names its own.\<close>

theorem close_agreement:
  assumes "disconnect False None x x' cin a = Some (r, a')" and "ep_state a = ESTABLISHED"
    and "disconnect recv (Some fin) y y' sin b = Some (r', b')" and "ep_state b = ESTABLISHED"
    and "is_fin fin" and "\<not> is_ack fin"
  shows "ep_state a' = CLOSED \<and> ep_state b' = CLOSED \<and> (\<exists>m \<in> set cin. is_fin m \<and> is_ack m \<and> get_ack_seq m = x) \<and>
    (\<exists>m \<in> set sin. is_ack m \<and> \<not> is_fin m \<and> get_seq m = y)"
proof -
  have "next_fin_ack cin (send_fin x (a\<lparr>ep_ch := (ep_ch a)\<lparr>ch_send_seq := x\<rparr>\<rparr>)) = Some (r, a')"
    using assms(1,2) by (simp add: disconnect_def get_state_def send_close_def)
  then obtain pre m where "cin = pre @ m # r" "is_fin m" "is_ack m"
      "send_on_fin_ack m (send_fin x (a\<lparr>ep_ch := (ep_ch a)\<lparr>ch_send_seq := x\<rparr>\<rparr>)) = Inr a'"
    unfolding next_fin_ack_def by (auto dest: ch_next_msg_Some)
  then have A: "ep_state a' = CLOSED" "\<exists>m \<in> set cin. is_fin m \<and> is_ack m \<and> get_ack_seq m = x"
    by (auto simp: send_on_fin_ack_def send_closed_def set_state_def ep_ch_send_fin split: if_splits)
  let ?e = "send_fin_ack y (get_seq fin) (b\<lparr>ep_ch := (ep_ch b)\<lparr>ch_recv_seq := y\<rparr>\<rparr>)"
  obtain r2 b2 where b2: "recv_next_ack sin ?e = Some (r2, b2)"
    using assms(3-6) by (auto simp: disconnect_def get_state_def recv_on_fin_def split: option.splits)
  then obtain pre' m' where m': "sin = pre' @ m' # r2" "is_ack m'" "\<not> is_fin m'" "ch_recv_on_ack m' ?e = Inr b2"
    unfolding recv_next_ack_def by (auto dest: ch_next_msg_Some)
  then have "ep_state b2 = CLOSED" "get_seq m' = y"
    by (auto simp: ch_recv_on_ack_def recv_closed_def set_state_def send_fin_ack_def ep_send_def split: if_splits)
  moreover have "b' = b2" using assms(3-6) b2 \<open>ep_state b2 = CLOSED\<close>
    by (simp add: disconnect_def get_state_def recv_on_fin_def)
  ultimately show ?thesis using A m' by auto
qed

theorem close_agreement_witness:
  "\<exists>a' b'. disconnect False None 3 0 [set_ack_seq 3 (set_seq 4 (set_ack (set_fin (msg_new None 0))))]
       (set_state ESTABLISHED fresh_endpoint) = Some ([], a') \<and>
     disconnect False (Some (set_seq 3 (set_fin (msg_new None 0)))) 4 0 [set_seq 4 (set_ack (msg_new None 0))]
       (set_state ESTABLISHED fresh_endpoint) = Some ([], b') \<and> ep_state a' = CLOSED \<and> ep_state b' = CLOSED"
proof -
  let ?e = "set_state ESTABLISHED fresh_endpoint"
  let ?fin = "set_seq 3 (set_fin (msg_new None 0))" and ?fa = "set_ack_seq 3 (set_seq 4 (set_ack (set_fin (msg_new None 0))))"
  let ?ack = "set_seq 4 (set_ack (msg_new None 0))"
  have f: "is_fin ?fin" "\<not> is_ack ?fin" "\<not> is_rst ?fin" "is_fin ?fa" "is_ack ?fa" "get_ack_seq ?fa = 3"
      "is_ack ?ack" "\<not> is_fin ?ack" "\<not> is_rst ?ack" "get_seq ?ack = 4" "ep_state ?e = ESTABLISHED"
    by (simp_all add: msg_access_defs bit_simps msg_new_def zero_packet_def zero_tcphdr_def set_state_def)
  obtain a' where a': "disconnect False None 3 0 [?fa] ?e = Some ([], a')"
    using f by (simp add: disconnect_def get_state_def send_close_def next_fin_ack_def send_on_fin_ack_def ep_ch_send_fin)
  obtain b' where b': "disconnect False (Some ?fin) 4 0 [?ack] ?e = Some ([], b')"
    using f by (simp add: disconnect_def get_state_def recv_on_fin_def recv_next_ack_def ch_recv_on_ack_def
        send_fin_ack_def ep_send_def recv_closed_def set_state_def)
  from close_agreement [OF a' f(11) b' f(11) f(1,2)] a' b' show ?thesis by blast
qed

end
