(* ===== verification/Full_Socket.thy ===== *)
theory Full_Socket
  imports Send_Worker Handshake
begin

text \<open>
  The whole socket, \<open>socket_full_impl\<close> of \<open>src/newimpl.cpp\<close>: its areas and base class in one record, the
  dispatch loop of \<open>input_recv_worker\<close> with \<open>input_on_regular_msg\<close>, and the entry points \<open>handshake\<close>,
  \<open>recv\<close>, \<open>send\<close> and the destructor in terms of the components; the client socket
  \<open>socket_client\<close>. At the end the components are put together: a segment on its way from one socket to
  another and its acknowledgement on the way back.
\<close>

section \<open>State\<close>

text \<open>\<open>fi_sent\<close> are the messages handed to \<open>socket_sock_base::send\<close> by the handshakes and by the receiving
  side, in order.\<close>

record full_impl =
  fi_base :: socket_sock_base
  fi_state :: tcp_state
  fi_eh :: eh_area
  fi_ch :: ch_area
  fi_in :: in_st
  fi_out :: out_st
  fi_sent :: "msg list"
  fi_recv_worker :: worker_thread
  fi_send_worker :: worker_thread

text \<open>The part of the socket that the handshakers see, and its update.\<close>

definition ep_of :: "full_impl \<Rightarrow> endpoint" where
  "ep_of s = \<lparr>ep_state = fi_state s, ep_eh = fi_eh s, ep_ch = fi_ch s, ep_cwp = o_cwp (fi_out s), ep_rwp = in_rwp (fi_in s),
     ep_sent = fi_sent s\<rparr>"

definition put_ep :: "endpoint \<Rightarrow> full_impl \<Rightarrow> full_impl" where
  "put_ep e s = s\<lparr>fi_state := ep_state e, fi_eh := ep_eh e, fi_ch := ep_ch e, fi_out := (fi_out s)\<lparr>o_cwp := ep_cwp e\<rparr>,
     fi_in := (fi_in s)\<lparr>in_rwp := ep_rwp e\<rparr>, fi_sent := ep_sent e\<rparr>"

text \<open>The receiving side after a step: its new acknowledgements are sent.\<close>

definition put_in :: "in_st \<Rightarrow> full_impl \<Rightarrow> full_impl" where
  "put_in t s = s\<lparr>fi_in := t, fi_sent := fi_sent s @ drop (length (in_acks (fi_in s))) (in_acks t)\<rparr>"

section \<open>The receive worker\<close>

definition input_on_regular_msg :: "msg \<Rightarrow> full_impl \<Rightarrow> full_impl res" where
  "input_on_regular_msg m s =
     (if fi_state s = ESTABLISHED
      then (case on_msg m (fi_in s) of Inl e \<Rightarrow> Inl e | Inr t \<Rightarrow> Inr (put_in t s))
      else Inr s)"

text \<open>
  What \<open>do_job\<close> does with a message. \<open>ms\<close> are the messages that arrive while a closing handshake waits;
  those it did not take are returned.
\<close>

definition recv_worker_on_msg ::
  "size_t \<Rightarrow> u32 \<Rightarrow> u32 \<Rightarrow> msg list \<Rightarrow> msg \<Rightarrow> full_impl \<Rightarrow> world \<Rightarrow> (msg list \<times> full_impl \<times> world) res option" where
  "recv_worker_on_msg now rnd rnd' ms m s w =
     (if is_usual m
      then Some (case input_on_regular_msg m s of Inl e \<Rightarrow> Inl e | Inr t \<Rightarrow> Inr (ms, t, w))
      else if is_fin m \<or> is_rst m
      then (case disconnect False (Some m) rnd rnd' ms (ep_of s) of
              None \<Rightarrow> None
            | Some (ms', e) \<Rightarrow> Some (Inr (ms', put_ep e s, w)))
      else if is_ack m
      then (case output_on_ack (fi_state s) (get_timestamp now (fi_base s)) m (fi_out s) of
              None \<Rightarrow> None
            | Some (Inl e) \<Rightarrow> Some (Inl e)
            | Some (Inr t) \<Rightarrow> Some (Inr (ms, s\<lparr>fi_out := t\<rparr>, w)))
      else (case enqueue_msg (fi_base s) m w of
              None \<Rightarrow> None
            | Some (Inl e) \<Rightarrow> Some (Inl e)
            | Some (Inr w') \<Rightarrow> Some (Inr (ms, s, w'))))"

text \<open>
  A step of \<open>do_job\<close>: the worker goes on inside \<open>on_msg\<close>, or takes the next message. A timeout is caught;
  every other exception ends the process.
\<close>

definition recv_worker_step ::
  "(bool \<times> bool) option \<Rightarrow> u8 list option \<Rightarrow> mq_attr \<Rightarrow> size_t \<Rightarrow> u32 \<Rightarrow> u32 \<Rightarrow> msg list \<Rightarrow> full_impl \<Rightarrow> world \<Rightarrow>
   (msg list \<times> full_impl \<times> world) res option" where
  "recv_worker_step sel datagram junk now rnd rnd' ms s w =
     (if in_wpc (fi_in s) \<noteq> W_Idle
      then (case worker_step (fi_in s) of None \<Rightarrow> None | Some t \<Rightarrow> Some (Inr (ms, put_in t s, w)))
      else if \<not> is_active (fi_recv_worker s) then None
      else (case sock_next_msg sel datagram junk (fi_base s) w of
              None \<Rightarrow> None
            | Some (Inl Timeout, w') \<Rightarrow> Some (Inr (ms, s, w'))
            | Some (Inl e, w') \<Rightarrow> Some (Inl e)
            | Some (Inr m, w') \<Rightarrow> recv_worker_on_msg now rnd rnd' ms m s w'))"

section \<open>Entry points\<close>

definition full_handshake :: "bool \<Rightarrow> u32 \<Rightarrow> msg list \<Rightarrow> full_impl \<Rightarrow> (msg list \<times> full_impl) option" where
  "full_handshake recv rnd ms s =
     (case handshake recv rnd ms (ep_of s) of None \<Rightarrow> None | Some (ms', e) \<Rightarrow> Some (ms', put_ep e s))"

text \<open>\<open>recv\<close>: the handshake, the worker, then \<open>recv_proc\<close> against a schedule; the result are the bytes still
  missing, what was handed out, and the socket.\<close>

definition full_recv :: "u32 \<Rightarrow> msg list \<Rightarrow> turn list \<Rightarrow> size_t \<Rightarrow> full_impl \<Rightarrow> (size_t \<times> u8 list \<times> full_impl) option" where
  "full_recv rnd ms ts bsz s =
     (case full_handshake True rnd ms s of
        None \<Rightarrow> None
      | Some (ms', s1) \<Rightarrow>
          (let s2 = s1\<lparr>fi_recv_worker := worker_start (fi_recv_worker s1)\<rparr>
           in case recv_proc ts bsz (fi_in s2) of
                None \<Rightarrow> None
              | Some (left, t) \<Rightarrow> Some (left, drop (length (delivered (fi_in s2))) (delivered t), put_in t s2)))"

text \<open>\<open>send\<close>: the handshake and the workers; then the sending thread runs from the returned configuration.\<close>

definition full_send :: "u32 \<Rightarrow> msg list \<Rightarrow> u8 list \<Rightarrow> full_impl \<Rightarrow> (send_cfg \<times> full_impl) option" where
  "full_send rnd ms data s =
     (case full_handshake False rnd ms s of
        None \<Rightarrow> None
      | Some (ms', s1) \<Rightarrow>
          (let s2 = s1\<lparr>fi_send_worker := worker_start (fi_send_worker s1), fi_recv_worker := worker_start (fi_recv_worker s1)\<rparr>
           in Some (send_call data (fi_out s2), s2)))"

text \<open>\<open>~socket_full_impl\<close> without \<open>USE_SAFETY_CLOSE\<close>, which no file defines: the workers are stopped and
  joined; \<open>None\<close> while one of them still runs.\<close>

definition full_passive :: "full_impl \<Rightarrow> full_impl" where
  "full_passive s = s\<lparr>fi_recv_worker := set_passive (fi_recv_worker s), fi_send_worker := set_passive (fi_send_worker s)\<rparr>"

definition full_join :: "full_impl \<Rightarrow> full_impl option" where
  "full_join s =
     (case worker_join (fi_recv_worker s) of
        None \<Rightarrow> None
      | Some r \<Rightarrow>
          (case worker_join (fi_send_worker s) of
             None \<Rightarrow> None
           | Some t \<Rightarrow> Some (s\<lparr>fi_recv_worker := r, fi_send_worker := t\<rparr>)))"

text \<open>The socket object that the constructor makes over the freshly initialised memory \<open>m\<close> of its base; all
  notifications are at 0.\<close>

definition full_new :: "socket_sock_base \<Rightarrow> shmem \<Rightarrow> full_impl" where
  "full_new b m = \<lparr>fi_base = b, fi_state = st_state m, fi_eh = eh m, fi_ch = ch m,
     fi_in = (in_init (rwp m))\<lparr>in_buf := rbp_buf (rbp m)\<rparr>,
     fi_out = \<lparr>o_cwp = cwp m, o_buf = \<lparr>sob_buf = sob_buf (sob m), off_map = off_map (sob m), sob_end = sob_end (sob m), sob_sem = (\<lambda>_. 0)\<rparr>,
       o_cwc = rwc m, o_tc = tc m, o_fr = fr m, buf_empty = 0, buf_not_empty = 0\<rparr>,
     fi_sent = [], fi_recv_worker = worker_ctor, fi_send_worker = worker_ctor\<rparr>"

text \<open>\<open>socket_client::connect\<close>: construct the socket and open the connection.\<close>

definition client_connect ::
  "nat \<Rightarrow> size_t \<Rightarrow> socket_base \<Rightarrow> u32 \<Rightarrow> msg list \<Rightarrow> world \<Rightarrow> (msg list \<times> full_impl \<times> world) option" where
  "client_connect p now b rnd ms w =
     (case full_ctor p now b w of
        None \<Rightarrow> None
      | Some (sb, w1) \<Rightarrow>
          (case full_handshake False rnd ms (full_new sb (so_client (w_shm w1 (the (pr_shd (w_proc w1 p)))))) of
             None \<Rightarrow> None
           | Some (ms', s) \<Rightarrow> Some (ms', s, w1)))"

section \<open>A segment and its acknowledgement\<close>

text \<open>
  A datagram arrives at the host of a socket: the socket's receive worker takes it from the raw socket,
  which puts it into the socket's queue, and then from the queue. \<open>h\<close> is the IP header that the kernel
  put in front.
\<close>

definition deliver :: "iphdr \<Rightarrow> u8 list \<Rightarrow> mq_attr \<Rightarrow> size_t \<Rightarrow> full_impl \<Rightarrow> world \<Rightarrow> (full_impl \<times> world) option" where
  "deliver h bs junk now s w =
     (case recv_worker_step (Some (True, False)) (Some (iphdr_bytes h @ bs)) junk now 0 0 [] s w of
        Some (Inr (ms, s1, w1)) \<Rightarrow>
          (case recv_worker_step (Some (False, True)) None junk now 0 0 [] s1 w1 of
             Some (Inr (ms', s2, w2)) \<Rightarrow> Some (s2, w2)
           | _ \<Rightarrow> None)
      | _ \<Rightarrow> None)"

text \<open>The receive worker goes on until it is idle again, at most \<open>n\<close> steps.\<close>

fun settle :: "nat \<Rightarrow> full_impl \<Rightarrow> full_impl option" where
  "settle n s =
     (if in_wpc (fi_in s) = W_Idle then Some s
      else case n of
             0 \<Rightarrow> None
           | Suc k \<Rightarrow> (case worker_step (fi_in s) of None \<Rightarrow> None | Some t \<Rightarrow> settle k (put_in t s)))"

declare settle.simps [simp del]

text \<open>The send worker takes a segment and sends it; \<open>ret\<close> is what \<open>sendto\<close> returns.\<close>

definition transmit :: "size_t \<Rightarrow> int \<Rightarrow> full_impl \<Rightarrow> (wk_cfg \<times> u8 list) option" where
  "transmit now ret s =
     (case send_worker (fi_state s) now ret (fi_base s)
             \<lparr>wk_out = fi_out s, wk_pc = K_Top, wk_active = is_active (fi_send_worker s), wk_lock = 1, wk_wire = []\<rparr> of
        None \<Rightarrow> None
      | Some c \<Rightarrow>
          (case send_worker (fi_state s) now ret (fi_base s) c of
             None \<Rightarrow> None
           | Some d \<Rightarrow> (case wk_wire d of [(dest, bs)] \<Rightarrow> Some (d, bs) | _ \<Rightarrow> None)))"

text \<open>
  The exchange of one segment between the sockets \<open>a\<close> and \<open>b\<close> over a network that loses nothing: the
  send worker of \<open>a\<close> transmits, \<open>b\<close> receives and acknowledges, \<open>a\<close> takes the acknowledgement, and the
  send worker looks at its message again.
\<close>

definition exchange ::
  "iphdr \<Rightarrow> iphdr \<Rightarrow> mq_attr \<Rightarrow> size_t \<Rightarrow> int \<Rightarrow> full_impl \<times> world \<Rightarrow> full_impl \<times> world \<Rightarrow>
   ((full_impl \<times> world) \<times> (full_impl \<times> world)) option" where
  "exchange ha hb junk now ret A B =
     (case (A, B) of ((a, wa), (b, wb)) \<Rightarrow>
       case transmit now ret a of
         None \<Rightarrow> None
       | Some (d, bs) \<Rightarrow>
           (let a1 = a\<lparr>fi_out := wk_out d\<rparr>
            in case deliver ha bs junk now b wb of
                 None \<Rightarrow> None
               | Some (b1, wb1) \<Rightarrow>
                   (case settle 2 b1 of
                      None \<Rightarrow> None
                    | Some b2 \<Rightarrow>
                        (case base_send now 36 (fi_base b2) (last (fi_sent b2)) of
                           (k, Inl e) \<Rightarrow> None
                         | (k, Inr (dest, ks)) \<Rightarrow>
                             (case deliver hb ks junk now a1 wa of
                                None \<Rightarrow> None
                              | Some (a2, wa1) \<Rightarrow>
                                  (case send_worker (fi_state a2) now ret (fi_base a2) (d\<lparr>wk_out := fi_out a2\<rparr>) of
                                     None \<Rightarrow> None
                                   | Some d' \<Rightarrow>
                                       (if wk_pc d' = K_Top then Some ((a2\<lparr>fi_out := wk_out d'\<rparr>, wa1), (b2, wb1)) else None)))))))"

section \<open>Lemmas\<close>

text \<open>What the receiving side does with the next segment when the window stays open: the bytes are accepted
  and acknowledged, and the worker is idle again.\<close>

lemma settle_idle: "in_wpc (fi_in s) = W_Idle \<Longrightarrow> settle n s = Some s"
  by (subst settle.simps) simp

lemma settle_step: "in_wpc (fi_in s) \<noteq> W_Idle \<Longrightarrow> worker_step (fi_in s) = Some t \<Longrightarrow> settle (Suc n) s = settle n (put_in t s)"
  by (subst settle.simps) simp

definition stored_in :: "msg \<Rightarrow> in_st \<Rightarrow> in_st" where
  "stored_in m s = s\<lparr>in_buf := mem_write (in_buf s) (unat (rwp_off (in_rwp s))) (get_data m),
     in_rwp := (in_rwp s)\<lparr>rwp_off := rwp_off (in_rwp s) + data_len m\<rparr>, accepted := accepted s @ get_data m\<rparr>"

lemma stored_in_sel [simp]:
  "in_acks (stored_in m s) = in_acks s" "not_empty (stored_in m s) = not_empty s" "accepted (stored_in m s) = accepted s @ get_data m"
  "in_rwp (stored_in m s) = (in_rwp s)\<lparr>rwp_off := rwp_off (in_rwp s) + data_len m\<rparr>"
  by (simp_all add: stored_in_def)

lemma on_msg_stores:
  assumes "in_inv s" and "msg_ok m" and "unat (get_seq m) = unat (rwp_start (in_rwp s)) + unat (rwp_off (in_rwp s))"
    and "unat (rwp_off (in_rwp s)) + unat (data_len m) \<le> 1000"
  shows "on_msg m s = Inr (if wrote_win_sz (in_rwp s) = 0 then (stored_in m s)\<lparr>in_wpc := W_Signal_not_empty\<rparr> else move_tail (stored_in m s))"
proof -
  let ?w = "rwp_setup (in_rwp s)"
  have n: "unat (data_len m) < 4611686018427387904" "unat (data_len m) \<le> length (pbuf (packet m))" using assms(2) by (simp_all add: msg_ok_def)
  have "seq_to_size (get_seq m) = win_begin ?w"
    using assms(3) by (simp add: word_unat_eq_iff win_ok_begin [OF in_inv_win_ok [OF assms(1)]])
  moreover from this have "contains ?w (receiver_window2 (seq_to_size (get_seq m)) (data_len m))"
    using in_order_contained [OF assms(1) n(1)] assms(4) by simp
  ultimately have "on_msg m s = move (pbuf (packet m)) (data_len m) s" unfolding on_msg_def Let_def by (simp only: simp_thms if_True)
  then show ?thesis
    using assms(4) n(2) by (simp add: move_def put_data_def INPUT_BUF_SZ_def rwp_flush_inc Let_def stored_in_def get_data_def)
qed

lemma stored_in_inv:
  assumes "in_inv s" and "unat (rwp_start (in_rwp s)) < 4294967296" and "unat (rwp_off (in_rwp s)) + unat (data_len m) < 1000"
  shows "rwp_sz (in_rwp (stored_in m s)) = INPUT_WINDOW_SZ" "unat (rwp_off (in_rwp (stored_in m s))) = unat (rwp_off (in_rwp s)) + unat (data_len m)"
    "in_inv (move_tail (stored_in m s))" "get_sz (rwp_setup (in_rwp (stored_in m s))) \<noteq> 0"
proof -
  have off: "unat (rwp_off (in_rwp s) + data_len m) = unat (rwp_off (in_rwp s)) + unat (data_len m)"
    using assms(3) unat_plus_no_wrap [of "rwp_off (in_rwp s)" "data_len m"] by simp
  then show "unat (rwp_off (in_rwp (stored_in m s))) = unat (rwp_off (in_rwp s)) + unat (data_len m)" by (simp add: stored_in_def)
  show sz: "rwp_sz (in_rwp (stored_in m s)) = INPUT_WINDOW_SZ" using assms(1) by (simp add: stored_in_def in_inv_def)
  show "in_inv (move_tail (stored_in m s))"
    using assms off by (intro in_inv_move_tail) (simp_all add: stored_in_def in_inv_def)
  show "get_sz (rwp_setup (in_rwp (stored_in m s))) \<noteq> 0"
    using assms(3) off rwp_full_iff_unat [OF sz] by simp
qed

text \<open>The receiving side has taken \<open>bs\<close> and handed out nothing.\<close>

definition got :: "in_st \<Rightarrow> in_st \<Rightarrow> u8 list \<Rightarrow> bool" where
  "got s t bs \<longleftrightarrow> accepted t = accepted s @ bs \<and> pending t = pending s @ bs \<and> delivered t = delivered s \<and> in_cpc t = in_cpc s"

lemma got_simps [simp]: "got s s []" "got s t xs \<Longrightarrow> got t u ys \<Longrightarrow> got s u (xs @ ys)"
  by (simp_all add: got_def)

lemma stored_in_pending:
  assumes "in_inv s" and "msg_ok m" and "unat (rwp_off (in_rwp s)) + unat (data_len m) < 1000"
  shows "pending (stored_in m s) = pending s @ get_data m"
proof -
  let ?a = "in_rwp s"
  have "unat (rwp_off ?a + data_len m) = unat (rwp_off ?a) + unat (data_len m)"
    using assms(3) unat_plus_no_wrap [of "rwp_off ?a" "data_len m"] by simp
  moreover have "unat (rwp_flushed_off ?a) \<le> unat (rwp_off ?a)" using assms(1) by (simp add: in_inv_def)
  ultimately show ?thesis
    using bm.rd_wr_end [of "in_buf s" "unat (rwp_flushed_off ?a)" "unat (rwp_off ?a) - unat (rwp_flushed_off ?a)" "get_data m"]
      length_get_data [OF assms(2)]
    by (simp add: pending_def stored_in_def)
qed

lemma recv_segment:
  assumes "in_inv (fi_in b)" and "in_wpc (fi_in b) = W_Idle" and "msg_ok m" and "fi_state b = ESTABLISHED"
    and "unat (get_seq m) = unat (rwp_start (in_rwp (fi_in b))) + unat (rwp_off (in_rwp (fi_in b)))"
    and "unat (rwp_off (in_rwp (fi_in b))) + unat (data_len m) < 1000"
  shows "\<exists>b1 b2. input_on_regular_msg m b = Inr b1 \<and> settle 2 b1 = Some b2 \<and> in_inv (fi_in b2) \<and> in_wpc (fi_in b2) = W_Idle \<and>
    got (fi_in b) (fi_in b2) (get_data m) \<and>
    in_rwp (fi_in b2) = (in_rwp (fi_in b))\<lparr>rwp_off := rwp_off (in_rwp (fi_in b)) + data_len m\<rparr> \<and>
    fi_sent b2 = fi_sent b @ [output_send_ack (size_to_seq (rwp_start (in_rwp (fi_in b)) + rwp_off (in_rwp (fi_in b)) + data_len m) - 1)
      (1000 - (rwp_off (in_rwp (fi_in b)) + data_len m))] \<and>
    fi_base b2 = fi_base b \<and> fi_state b2 = ESTABLISHED \<and> fi_out b2 = fi_out b \<and> fi_recv_worker b2 = fi_recv_worker b"
proof -
  let ?s = "fi_in b" and ?t = "stored_in m (fi_in b)"
  have lap: "unat (rwp_start (in_rwp ?s)) < 4294967296" using assms(5) unat_u32_bound [of "get_seq m"] by simp
  note st = stored_in_inv [OF assms(1) lap assms(6)]
  have "pending ?t = pending ?s @ get_data m" by (rule stored_in_pending [OF assms(1,3,6)])
  then have got: "got ?s (?t\<lparr>not_empty := n, in_wpc := pc, in_acks := x\<rparr>) (get_data m)" "got ?s (?t\<lparr>in_wpc := pc, in_acks := x\<rparr>) (get_data m)" for n pc x
    by (simp_all add: got_def pending_def) (simp_all add: stored_in_def)
  let ?k = "output_send_ack (size_to_seq (rwp_start (in_rwp ?s) + rwp_off (in_rwp ?s) + data_len m) - 1) (1000 - (rwp_off (in_rwp ?s) + data_len m))"
  have tail: "move_tail (?t\<lparr>not_empty := n, in_wpc := pc\<rparr>) = ?t\<lparr>not_empty := n, in_wpc := W_Idle, in_acks := in_acks ?s @ [?k]\<rparr>" for n pc
    using st(1,4) size_to_seq_before_begin [of "rwp_setup (in_rwp ?t)"]
    by (simp add: move_tail_def send_win_ack_def Let_def get_sz_def win_begin_def INPUT_WINDOW_SZ_def add.assoc)
  have v: "move_tail ?t = ?t\<lparr>in_wpc := W_Idle, in_acks := in_acks ?s @ [?k]\<rparr>"
    using st(1,4) size_to_seq_before_begin [of "rwp_setup (in_rwp ?t)"]
    by (simp add: move_tail_def send_win_ack_def Let_def get_sz_def win_begin_def INPUT_WINDOW_SZ_def add.assoc)
  have inv: "in_inv (?t\<lparr>not_empty := n, in_wpc := W_Idle, in_acks := x\<rparr>)" "in_inv (?t\<lparr>in_wpc := W_Idle, in_acks := x\<rparr>)" for n x
    using st(3) unfolding v by (simp_all add: in_inv_def)
  show ?thesis
  proof (cases "wrote_win_sz (in_rwp ?s) = 0")
    case True
    let ?u = "?t\<lparr>in_wpc := W_Signal_not_empty\<rparr>"
    let ?v = "?t\<lparr>not_empty := not_empty ?s + 1, in_wpc := W_Idle, in_acks := in_acks ?s @ [?k]\<rparr>"
    have on: "input_on_regular_msg m b = Inr (put_in ?u b)"
      using on_msg_stores [OF assms(1,3,5) less_imp_le [OF assms(6)]] True assms(4) by (simp add: input_on_regular_msg_def)
    let ?r = "?u\<lparr>not_empty := not_empty ?s + 1, in_wpc := W_Relock\<rparr>"
    let ?b = "put_in ?v (put_in ?r (put_in ?u b))"
    have "worker_step ?u = Some ?r" by (simp add: worker_step_def)
    then have "settle 2 (put_in ?u b) = settle 1 (put_in ?r (put_in ?u b))"
      unfolding numeral_2_eq_2 One_nat_def by (intro settle_step) (simp_all add: put_in_def)
    also have "\<dots> = settle 0 ?b"
      using tail [where n = "not_empty ?s + 1" and pc = W_Relock] unfolding One_nat_def
      by (intro settle_step) (simp_all add: put_in_def worker_step_def)
    also have "\<dots> = Some ?b" by (rule settle_idle) (simp add: put_in_def)
    finally show ?thesis
      using on inv(1) [where n = "not_empty ?s + 1" and x = "in_acks ?s @ [?k]"] got(1) assms(4)
      by (intro exI [of _ "put_in ?u b"] exI [of _ ?b]) (simp add: put_in_def)
  next
    case False
    let ?v = "?t\<lparr>in_wpc := W_Idle, in_acks := in_acks ?s @ [?k]\<rparr>"
    have on: "input_on_regular_msg m b = Inr (put_in ?v b)"
      using on_msg_stores [OF assms(1,3,5) less_imp_le [OF assms(6)]] False assms(4) by (simp add: input_on_regular_msg_def v)
    moreover have "settle 2 (put_in ?v b) = Some (put_in ?v b)" by (rule settle_idle) (simp add: put_in_def)
    ultimately show ?thesis
      using inv(2) [where x = "in_acks ?s @ [?k]"] got(2) assms(4)
      by (intro exI [of _ "put_in ?v b"]) (simp add: put_in_def)
  qed
qed

text \<open>These are steps of the receiving side as \<open>Recv_Window\<close> has them.\<close>

lemma settle_polite: "settle n s = Some t \<Longrightarrow> polite_step\<^sup>*\<^sup>* (fi_in s) (fi_in t)"
proof (induction n arbitrary: s)
  case (Suc n)
  show ?case
  proof (cases "in_wpc (fi_in s) = W_Idle")
    case False
    with Suc.prems obtain u where u: "worker_step (fi_in s) = Some u" "settle n (put_in u s) = Some t"
      by (auto simp: settle.simps [of "Suc n"] split: option.splits)
    have "polite_step (fi_in s) u" using u(1) by (intro in_exec_polite [of E_worker]) (simp_all add: ev_ok_def in_exec_def)
    with Suc.IH [OF u(2)] show ?thesis by (simp add: put_in_def converse_rtranclp_into_rtranclp)
  qed (use Suc.prems settle_idle in auto)
qed (auto simp: settle.simps split: if_splits)

lemma regular_msg_polite:
  "input_on_regular_msg m s = Inr t \<Longrightarrow> msg_ok m \<Longrightarrow> in_wpc (fi_in s) = W_Idle \<Longrightarrow> fi_state s = ESTABLISHED \<Longrightarrow>
   polite_step (fi_in s) (fi_in t)"
  by (intro in_exec_polite [of "E_msg m"]) (auto simp: ev_ok_def in_exec_def input_on_regular_msg_def put_in_def split: sum.splits)

text \<open>A host on which a socket can receive: the socket owns its queue, nothing is waiting, and the process
  may raise the limit of its queues.\<close>

definition host_ok :: "full_impl \<Rightarrow> world \<Rightarrow> nat \<Rightarrow> bool" where
  "host_ok s w i \<longleftrightarrow> sock_queue_ok (fi_base s) w i \<and> mqu_msgs (mo_obj (w_mq w) i) = [] \<and> mo_priv (w_mq w) \<and> mo_rlim (w_mq w) \<noteq> None \<and>
     in_wpc (fi_in s) = W_Idle \<and> is_active (fi_recv_worker s)"

text \<open>\<open>a\<close> sends to \<open>b\<close>: the addresses mirror each other and the kernel's header carries them.\<close>

definition peers :: "socket_sock_base \<Rightarrow> socket_sock_base \<Rightarrow> iphdr \<Rightarrow> bool" where
  "peers a b h \<longleftrightarrow> addr_comparable (in_addr (sb_id b)) (out_addr (sb_id a)) \<and> addr_comparable (out_addr (sb_id b)) (in_addr (sb_id a)) \<and>
     saddr h = sin_addr (in_addr (sb_id a)) \<and> daddr h = sin_addr (out_addr (sb_id a))"

lemma host_ok_raised:
  assumes "host_ok s w i" and "raise_mq_rlimit junk (w_mq w) = Inr os1"
  shows "host_ok s (w\<lparr>w_mq := os1\<rparr>) i"
  using assms raise_mq_rlimit_keeps [OF assms(2)]
  by (auto simp: host_ok_def sock_queue_ok_def get_mq_def raise_mq_rlimit_def get_mq_rlimit_def set_mq_rlimit_def Let_def
      split: if_splits option.splits)

lemma deliver_ok:
  assumes "msg_ok m" and "base_send now' ret a m = (m', Inr (dest, bs))" and "host_ok b w i" and "peers a (fi_base b) h"
    and "unat (data_len m) \<le> unat (max_data_sz (fi_base b))"
  shows "\<exists>r w'. deliver h bs junk now b w =
      (case recv_worker_on_msg now 0 0 [] r b w' of Some (Inr (ms, s, w2)) \<Rightarrow> Some (s, w2) | _ \<Rightarrow> None) \<and>
    host_ok b w' i \<and> same_segment r m \<and> msg_ok r"
proof -
  obtain os1 where os1: "raise_mq_rlimit junk (w_mq w) = Inr os1" using raise_granted assms(3) by (auto simp: host_ok_def)
  have q: "sock_queue_ok (fi_base b) w i" "mqu_msgs (mo_obj (w_mq w) i) = []" and idle: "in_wpc (fi_in b) = W_Idle" "is_active (fi_recv_worker b)"
    using assms(3) by (simp_all add: host_ok_def)
  note p = assms(4) [unfolded peers_def]
  have "unat (max_data_sz (fi_base b)) < 2 ^ 62" using sock_queue_ok_sizes(2) [OF q(1)] by simp
  from datagram_delivered [OF assms(1,2) q _ _ _ _ assms(5,5) this os1, of h] p obtain w1 r where
    w1: "sock_next_msg (Some (True, False)) (Some (iphdr_bytes h @ bs)) junk (fi_base b) w = Some (Inl Timeout, w1)"
      "sock_next_msg (Some (False, True)) None junk (fi_base b) w1 = Some (Inr r, w\<lparr>w_mq := os1\<rparr>)" "same_segment r m" "msg_ok r"
    by blast
  then have "deliver h bs junk now b w =
      (case recv_worker_on_msg now 0 0 [] r b (w\<lparr>w_mq := os1\<rparr>) of Some (Inr (ms, s, w2)) \<Rightarrow> Some (s, w2) | _ \<Rightarrow> None)"
    using idle by (simp add: deliver_def recv_worker_step_def split: option.splits sum.splits prod.splits)
  with w1(3,4) host_ok_raised [OF assms(3) os1] show ?thesis by blast
qed

text \<open>The kinds of messages that the two sides exchange.\<close>

lemma same_segment_kind:
  assumes "same_segment r m"
  shows "is_usual r = is_usual m" "is_ack r = is_ack m" "is_fin r = is_fin m" "is_rst r = is_rst m" "is_syn r = is_syn m"
    "get_seq r = get_seq m" "get_data r = get_data m"
  using assms by (simp_all add: same_segment_def is_usual_def is_ack_def is_fin_def is_rst_def is_syn_def)

lemma same_segment_len: "same_segment r m \<Longrightarrow> msg_ok r \<Longrightarrow> msg_ok m \<Longrightarrow> unat (data_len r) = unat (data_len m)"
  by (metis length_get_data same_segment_kind(7))

lemma ack_kind: "is_ack (output_send_ack q n)" "\<not> is_usual (output_send_ack q n)" "\<not> is_fin (output_send_ack q n)" "\<not> is_rst (output_send_ack q n)"
  "msg_ok (output_send_ack q n)" "data_len (output_send_ack q n) = 0"
  by (simp_all add: output_send_ack_def msg_access_defs bit_simps msg_new_def zero_packet_def zero_tcphdr_def msg_ok_def is_usual_def)

text \<open>Segments that wait to be sent: their flag bytes are clear and they are not marked.\<close>

fun fresh_segs :: "bmem \<Rightarrow> nat \<Rightarrow> u8 list list \<Rightarrow> bool" where
  "fresh_segs buf a [] = True"
| "fresh_segs buf a (p # ps) = (buf (a + 65) = 0 \<and> buf (a + 82) = 0 \<and> fresh_segs buf (a + slot_sz p) ps)"

lemma fresh_segs_cong: "(\<And>i. a \<le> i \<Longrightarrow> buf' i = buf i) \<Longrightarrow> fresh_segs buf' a ps = fresh_segs buf a ps"
proof (induction ps arbitrary: a)
  case (Cons p ps)
  then show ?case using Cons.IH [of "a + slot_sz p"] by simp
qed simp

lemma usual_msg: "buf (p + 49) = 0 \<Longrightarrow> is_usual (load_msg buf p)"
  by (simp add: is_usual_def is_ack_def is_syn_def is_fin_def is_rst_def msg_hdr_def load_msg_def load_packet_def load_TCPHDR_def load_tcphdr_def
      sizeof_defs add.commute)

text \<open>The buffer and the window after an acknowledgement of the oldest segment.\<close>

lemma on_ack_tail_buf: "on_ack_tail w s = Inr t \<Longrightarrow> sob_buf (o_buf t) = sob_buf (o_buf s)"
  by (auto simp: on_ack_tail_def on_sent_buf_empty_def sob_refresh_def put_real_off_def Let_def split: if_splits sum.splits)

lemma output_on_ack_buf:
  assumes "out_rep s ps (as @ bs)" and "as \<noteq> []" and "unat (cwp_start (o_cwp s)) + 1000 \<le> 2 ^ 32"
    and "unat (get_seq m) + 1 = unat (cwp_start (o_cwp s)) + stream_len (ps @ as)"
    and "output_on_ack ESTABLISHED now m s = Some (Inr t)"
  shows "sob_buf (o_buf t) = sob_buf (o_buf s)"
proof -
  let ?s = "s\<lparr>o_cwc := cwc_on_ack m (o_cwc s)\<rparr>"
  have "out_rep ?s ps (as @ bs)" using assms(1) by (simp add: out_rep_def)
  from scw_on_ack_eq [OF this assms(2), of m now] assms(3-5) show ?thesis
    by (auto simp: output_on_ack_def output_refresh_on_msg_pair_def post_all_def dest!: on_ack_tail_buf)
qed

lemma acked_complete:
  assumes "out_rep s (ps @ [q]) qs" and "unat (cwp_start (o_cwp s)) + 1000 \<le> 4294967296"
  shows "check_msg_complete (load_msg (sob_buf (o_buf s)) (slots_len ps + off_msg_data)) s"
proof -
  let ?m = "load_msg (sob_buf (o_buf s)) (slots_len ps + off_msg_data)" and ?w = "cwp_setup (o_cwp s)" and ?st = "cwp_start (o_cwp s)"
  note nat = out_rep_nat [OF assms(1)]
  have rep: "buf_rep ?st (o_buf s) (ps @ q # qs)" using assms(1) by (simp add: out_rep_def)
  have pos: "0 < length q" using rep by (auto simp: buf_rep_def chain_append)
  have "stream_len ps + length q + stream_len qs \<le> 1000" using nat(3) by simp
  then have lt: "stream_len ps < 1000" using pos by linarith
  then have "unat (word_of_nat (stream_len ps) :: size_t) = stream_len ps" by (simp add: unat_word_of_nat_u64)
  then have "unat (?st + word_of_nat (stream_len ps)) = unat ?st + stream_len ps"
    using lt assms(2) unat_plus_no_wrap [of ?st "word_of_nat (stream_len ps)"] by simp
  moreover have "get_seq ?m = size_to_seq (?st + word_of_nat (stream_len ps))"
    using buf_rep_slot [OF rep] by (simp add: slot_at_def Let_def)
  ultimately have seq: "unat (get_seq ?m) = unat ?st + stream_len ps" using lt assms(2) by (simp add: unat_size_to_seq)
  have "unat (win_begin ?w) = unat ?st + stream_len (ps @ [q])" by (simp add: win_ok_begin [OF nat(4)] nat(1))
  moreover have "unat (win_end ?w) = unat ?st + 1000" using assms(1) by (simp add: win_ok_end [OF nat(4)] out_rep_def)
  ultimately show ?thesis
    using seq pos assms(2) unat_u32_bound [of "get_seq ?m"] by (simp add: check_msg_complete_def msg_in_win_def contains_single [OF nat(4)])
qed

text \<open>
  \<open>a\<close> and \<open>b\<close> agree on the stream from \<open>a\<close> to \<open>b\<close>: both are established, \<open>a\<close> has the segments
  \<open>ps\<close> of its window acknowledged and \<open>qs\<close> to send, and \<open>b\<close> expects the first byte of \<open>qs\<close>, during
  the first lap of the sequence space.
\<close>

definition synced :: "full_impl \<Rightarrow> full_impl \<Rightarrow> u8 list list \<Rightarrow> u8 list list \<Rightarrow> bool" where
  "synced a b ps qs \<longleftrightarrow> out_rep (fi_out a) ps qs \<and> fresh_segs (sob_buf (o_buf (fi_out a))) (slots_len ps) qs \<and>
     fi_state a = ESTABLISHED \<and> fi_state b = ESTABLISHED \<and> is_active (fi_send_worker a) \<and> in_inv (fi_in b) \<and>
     rwp_start (in_rwp (fi_in b)) = cwp_start (o_cwp (fi_out a)) \<and> rwp_off (in_rwp (fi_in b)) = cwp_off (o_cwp (fi_out a)) \<and>
     unat (cwp_start (o_cwp (fi_out a))) + 1000 \<le> 2 ^ 32"

lemma transmit_ok:
  assumes "out_rep (fi_out a) ps (q # qs)" and "fresh_segs (sob_buf (o_buf (fi_out a))) (slots_len ps) (q # qs)"
    and "fi_state a = ESTABLISHED" and "is_active (fi_send_worker a)" and "ret = int (36 + length q)"
  shows "\<exists>d bs m m' dest. transmit now ret a = Some (d, bs) \<and> base_send now ret (fi_base a) m = (m', Inr (dest, bs)) \<and>
    msg_ok m \<and> is_usual m \<and> get_data m = q \<and> unat (data_len m) = length q \<and>
    get_seq m = size_to_seq (cwp_start (o_cwp (fi_out a)) + word_of_nat (stream_len ps)) \<and>
    (\<exists>tmo. wk_pc d = K_Poll (slots_len ps + off_msg_data) tmo 0) \<and> wk_lock d = 1 \<and> wk_active d \<and>
    out_rep (wk_out d) ps (q # qs) \<and> o_cwp (wk_out d) = o_cwp (fi_out a) \<and> sob_sem (o_buf (wk_out d)) = sob_sem (o_buf (fi_out a)) \<and>
    fresh_segs (sob_buf (o_buf (wk_out d))) (slots_len ps + slot_sz q) qs \<and>
    o_cwc (wk_out d) = o_cwc (fi_out a) \<and> buf_empty (wk_out d) = buf_empty (fi_out a)"
proof -
  let ?p = "slots_len ps + off_msg_data"
  let ?c = "\<lparr>wk_out = fi_out a, wk_pc = K_Top, wk_active = is_active (fi_send_worker a), wk_lock = 1, wk_wire = []\<rparr>"
  let ?s = "upd_buf (mark_msg_used ?p True) (fi_out a)"
  let ?t = "get_timeout (o_tc (fi_out a))"
  let ?c1 = "?c\<lparr>wk_out := ?s, wk_pc := K_Send ?p ?t\<rparr>"
  have nu: "\<not> is_msg_used ?p (sob_buf (o_buf (fi_out a)))" using assms(2) by (simp add: is_msg_used_def inplace_defs add.commute)
  have s: "worker_next ?c = Some ?c1" "out_rep ?s ps (q # qs)" using worker_next_eq [of ?c ps q qs] assms(1) nu by simp_all
  have one: "send_worker ESTABLISHED now ret (fi_base a) ?c = Some ?c1" using s(1) assms(4) by (simp add: send_worker_def)
  let ?m = "load_msg (sob_buf (o_buf ?s)) ?p"
  have "out_rep (wk_out ?c1) ps (q # qs)" using s(2) by simp
  from worker_send_ok [OF this assms(5), of now "fi_base a" ?t] obtain m' dest bs where
    m: "base_send now ret (fi_base a) ?m = (m', Inr (dest, bs))" "out_rep (upd_buf (store_hdr ?p m') ?s) ps (q # qs)"
      "worker_send now ret (fi_base a) ?p ?t ?c1 = ?c1\<lparr>wk_out := upd_buf (store_hdr ?p m') ?s, wk_wire := [(dest, bs)], wk_pc := K_Poll ?p (sint ?t) 0\<rparr>"
    by auto
  let ?d = "?c1\<lparr>wk_out := upd_buf (store_hdr ?p m') ?s, wk_wire := [(dest, bs)], wk_pc := K_Poll ?p (sint ?t) 0\<rparr>"
  have two: "send_worker ESTABLISHED now ret (fi_base a) ?c1 = Some ?d" unfolding m(3) [symmetric] by (simp add: send_worker_def)
  have "transmit now ret a = Some (?d, bs)" using one two assms(3) by (simp add: transmit_def)
  moreover have "is_usual ?m"
    using assms(2) by (intro usual_msg) (simp add: mark_msg_used_def inplace_defs add.commute)
  moreover have "sob_buf (o_buf (wk_out ?d)) i = sob_buf (o_buf (fi_out a)) i" if "slots_len ps + slot_sz q \<le> i" for i
    using that slot_sz_bounds(1) [of q] by (simp add: store_hdr_def mark_msg_used_def inplace_defs mem_write_outside)
  then have "fresh_segs (sob_buf (o_buf (wk_out ?d))) (slots_len ps + slot_sz q) qs"
    using assms(2) fresh_segs_cong [of "slots_len ps + slot_sz q" "sob_buf (o_buf (wk_out ?d))" "sob_buf (o_buf (fi_out a))" qs] by simp
  ultimately show ?thesis
    using m(1,2) stored_msg [OF s(2)] assms(4)
    by (intro exI [of _ ?d] exI [of _ bs] exI [of _ ?m] exI [of _ m'] exI [of _ dest]) simp
qed

lemma host_ok_same:
  "host_ok s w i \<Longrightarrow> fi_base t = fi_base s \<Longrightarrow> in_wpc (fi_in t) = W_Idle \<Longrightarrow> fi_recv_worker t = fi_recv_worker s \<Longrightarrow> host_ok t w i"
  by (simp add: host_ok_def)

text \<open>A segment that is expected arrives, is accepted and acknowledged.\<close>

definition good_ack :: "msg \<Rightarrow> bool" where
  "good_ack k \<longleftrightarrow> is_ack k \<and> \<not> is_fin k \<and> \<not> is_rst k \<and> msg_ok k \<and> data_len k = 0 \<and> get_window_sz k \<noteq> 0"

lemma good_ack_sent:
  assumes "n < 1000"
  shows "good_ack (output_send_ack q (1000 - word_of_nat n))"
proof -
  let ?w = "word_of_nat (1000 - n) :: size_t"
  have "ucast (ucast ?w :: u16) = ?w" by (simp add: word_unat_eq_iff unat_word_of_nat_u64 unsigned_ucast_eq unsigned_take_bit_eq take_bit_nat_eq_self)
  moreover have "unat ?w = 1000 - n" by (rule unat_word_of_nat_u64) simp
  then have "?w \<noteq> 0" using assms by (metis less_irrefl unsigned_0 zero_less_diff)
  moreover have "1000 - word_of_nat n = ?w" using assms by (simp add: of_nat_diff)
  ultimately show ?thesis by (simp add: good_ack_def ack_kind)
qed

lemma receive_ok:
  assumes "msg_ok m" and "is_usual m" and "base_send now' ret a m = (m', Inr (dest, bs))" and "host_ok b w i" and "peers a (fi_base b) h"
    and "unat (data_len m) \<le> unat (max_data_sz (fi_base b))" and "in_inv (fi_in b)" and "fi_state b = ESTABLISHED"
    and "unat (get_seq m) = unat (rwp_start (in_rwp (fi_in b))) + unat (rwp_off (in_rwp (fi_in b)))"
    and "unat (rwp_off (in_rwp (fi_in b))) + unat (data_len m) < 1000"
  shows "\<exists>b1 w1 b2. deliver h bs junk now b w = Some (b1, w1) \<and> settle 2 b1 = Some b2 \<and> host_ok b2 w1 i \<and> in_inv (fi_in b2) \<and>
    polite_step\<^sup>*\<^sup>* (fi_in b) (fi_in b2) \<and>
    got (fi_in b) (fi_in b2) (get_data m) \<and> fi_base b2 = fi_base b \<and> fi_state b2 = ESTABLISHED \<and>
    in_rwp (fi_in b2) = (in_rwp (fi_in b))\<lparr>rwp_off := rwp_off (in_rwp (fi_in b)) + data_len m\<rparr> \<and> good_ack (last (fi_sent b2)) \<and>
    get_seq (last (fi_sent b2)) = size_to_seq (rwp_start (in_rwp (fi_in b)) + rwp_off (in_rwp (fi_in b)) + data_len m) - 1"
proof -
  obtain r w1 where r: "deliver h bs junk now b w =
      (case recv_worker_on_msg now 0 0 [] r b w1 of Some (Inr (ms, s, w2)) \<Rightarrow> Some (s, w2) | _ \<Rightarrow> None)"
      "host_ok b w1 i" "same_segment r m" "msg_ok r"
    using deliver_ok [OF assms(1,3-6)] by blast
  note k = same_segment_kind [OF r(3)]
  have len: "data_len r = data_len m" using same_segment_len [OF r(3,4) assms(1)] by (simp add: word_unat_eq_iff)
  have idle: "in_wpc (fi_in b) = W_Idle" using assms(4) by (simp add: host_ok_def)
  let ?off = "rwp_off (in_rwp (fi_in b)) + data_len m"
  from recv_segment [OF assms(7) idle r(4) assms(8)] assms(9,10) k(6) len obtain b1 b2 where
    b: "input_on_regular_msg r b = Inr b1" "settle 2 b1 = Some b2" "in_inv (fi_in b2)" "in_wpc (fi_in b2) = W_Idle"
      "got (fi_in b) (fi_in b2) (get_data r)" "fi_base b2 = fi_base b" "fi_state b2 = ESTABLISHED"
      "in_rwp (fi_in b2) = (in_rwp (fi_in b))\<lparr>rwp_off := ?off\<rparr>"
      "last (fi_sent b2) = output_send_ack (size_to_seq (rwp_start (in_rwp (fi_in b)) + ?off) - 1) (1000 - ?off)"
      "fi_recv_worker b2 = fi_recv_worker b"
    by (auto simp: add.assoc)
  have off: "unat ?off = unat (rwp_off (in_rwp (fi_in b))) + unat (data_len m)"
    using assms(10) unat_plus_no_wrap [of "rwp_off (in_rwp (fi_in b))" "data_len m"] by simp
  have "good_ack (last (fi_sent b2))"
    using good_ack_sent [of "unat ?off"] assms(10) off unfolding b(9) by simp
  moreover have "deliver h bs junk now b w = Some (b1, w1)" using r(1) b(1) k(1) assms(2) by (simp add: recv_worker_on_msg_def)
  moreover have "host_ok b2 w1 i" using host_ok_same [OF r(2) b(6,4,10)] .
  moreover have "polite_step\<^sup>*\<^sup>* (fi_in b) (fi_in b2)"
    using regular_msg_polite [OF b(1) r(4) idle assms(8)] settle_polite [OF b(2)] by (rule converse_rtranclp_into_rtranclp)
  ultimately show ?thesis using b(2,3,5-9) k(7) by (intro exI [of _ b1] exI [of _ w1] exI [of _ b2]) (simp add: add.assoc)
qed

text \<open>The acknowledgement of the oldest segment arrives. \<open>acked\<close> is what it does to the sending side.\<close>

definition acked :: "out_st \<Rightarrow> u8 list list \<Rightarrow> u8 list \<Rightarrow> u8 list list \<Rightarrow> out_st \<Rightarrow> bool" where
  "acked s ps q qs t \<longleftrightarrow> out_rep t (ps @ [q]) qs \<and> cwp_start (o_cwp t) = cwp_start (o_cwp s) \<and>
     sob_sem (o_buf t) = sob_sem (post_all (starts (slots_len ps) [q]) (o_buf s)) \<and>
     buf_empty t = buf_empty s + of_bool (qs = []) \<and> (\<exists>k. get_window_sz k \<noteq> 0 \<and> o_cwc t = cwc_on_ack k (o_cwc s))"

lemma ack_ok:
  assumes "good_ack k" and "base_send now' ret b k = (k', Inr (dest, ks))"
    and "host_ok a w i" and "peers b (fi_base a) h" and "fi_state a = ESTABLISHED"
    and "out_rep (fi_out a) ps (q # qs)" and "unat (cwp_start (o_cwp (fi_out a))) + 1000 \<le> 2 ^ 32" and "stream_len (ps @ [q]) < 1000"
    and "unat (get_seq k) + 1 = unat (cwp_start (o_cwp (fi_out a))) + stream_len (ps @ [q])"
  shows "\<exists>w1 t. deliver h ks junk now a w = Some (a\<lparr>fi_out := t\<rparr>, w1) \<and> host_ok (a\<lparr>fi_out := t\<rparr>) w1 i \<and>
    acked (fi_out a) ps q qs t \<and> sob_buf (o_buf t) = sob_buf (o_buf (fi_out a))"
proof -
  have k: "is_ack k" "\<not> is_fin k" "\<not> is_rst k" "msg_ok k" "data_len k = 0" "get_window_sz k \<noteq> 0" using assms(1) by (simp_all add: good_ack_def)
  have "unat (data_len k) \<le> unat (max_data_sz (fi_base a))" using k(5) by simp
  from deliver_ok [OF k(4) assms(2-4) this] obtain r w1 where r: "deliver h ks junk now a w =
      (case recv_worker_on_msg now 0 0 [] r a w1 of Some (Inr (ms, s, w2)) \<Rightarrow> Some (s, w2) | _ \<Rightarrow> None)"
      "host_ok a w1 i" "same_segment r k" "msg_ok r" by blast
  note s = same_segment_kind [OF r(3)]
  let ?ts = "get_timestamp now (fi_base a)"
  have rep: "out_rep (fi_out a) ps ([q] @ qs)" using assms(6) by simp
  have seq: "unat (get_seq r) + 1 = unat (cwp_start (o_cwp (fi_out a))) + stream_len (ps @ [q])" using assms(9) s(6) by simp
  have win: "get_window_sz r \<noteq> 0" using r(3) k(6) by (simp add: same_segment_def)
  from output_on_ack_ok [OF rep _ assms(7) seq, of ?ts] assms(8) win obtain t where
    t: "output_on_ack ESTABLISHED ?ts r (fi_out a) = Some (Inr t)" "acked (fi_out a) ps q qs t" by (auto simp: acked_def)
  have "deliver h ks junk now a w = Some (a\<lparr>fi_out := t\<rparr>, w1)"
    using r(1) t(1) s k(1-3) assms(5) by (simp add: recv_worker_on_msg_def is_usual_def)
  moreover have "host_ok (a\<lparr>fi_out := t\<rparr>) w1 i" using r(2) by (simp add: host_ok_def)
  ultimately show ?thesis using t output_on_ack_buf [OF rep _ assms(7) seq t(1)] by auto
qed

lemma unat_seq_pred:
  assumes "unat (x :: size_t) \<le> 4294967296" and "0 < unat x"
  shows "unat (size_to_seq x - 1) + 1 = unat x"
proof -
  have "unat (x - 1) = unat x - 1" using assms(2) by (simp add: unat_minus_no_wrap)
  moreover have "unat (x - 1) < 4294967296" using calculation assms by simp
  moreover have "size_to_seq x - 1 = size_to_seq (x - 1)" by (simp add: size_to_seq_diff)
  ultimately show ?thesis using assms(2) by (simp add: unat_size_to_seq)
qed

lemma synced_expected:
  assumes "synced a b ps (q # qs)"
  shows "unat (size_to_seq (cwp_start (o_cwp (fi_out a)) + word_of_nat (stream_len ps))) =
      unat (rwp_start (in_rwp (fi_in b))) + unat (rwp_off (in_rwp (fi_in b)))"
    and "unat (rwp_off (in_rwp (fi_in b))) = stream_len ps" "stream_len ps + length q \<le> 1000" "0 < length q"
    "unat (rwp_start (in_rwp (fi_in b)) + rwp_off (in_rwp (fi_in b)) + word_of_nat (length q)) =
      unat (cwp_start (o_cwp (fi_out a))) + stream_len (ps @ [q])"
proof -
  have rep: "out_rep (fi_out a) ps (q # qs)" and lap: "unat (cwp_start (o_cwp (fi_out a))) + 1000 \<le> 4294967296"
    and eq: "rwp_start (in_rwp (fi_in b)) = cwp_start (o_cwp (fi_out a))" "rwp_off (in_rwp (fi_in b)) = cwp_off (o_cwp (fi_out a))"
    using assms by (simp_all add: synced_def)
  note nat = out_rep_nat [OF rep]
  show off: "unat (rwp_off (in_rwp (fi_in b))) = stream_len ps" using nat(1) eq by simp
  show pos: "0 < length q" using rep by (auto simp: out_rep_def buf_rep_def chain_append)
  have "stream_len ps + length q + stream_len qs \<le> 1000" using nat(3) by simp
  then show le: "stream_len ps + length q \<le> 1000" by linarith
  with pos have lt: "stream_len ps < 1000" by linarith
  have o: "word_of_nat (stream_len ps) = cwp_off (o_cwp (fi_out a))" using rep by (simp add: out_rep_def)
  have sum: "unat (cwp_start (o_cwp (fi_out a)) + cwp_off (o_cwp (fi_out a))) = unat (cwp_start (o_cwp (fi_out a))) + stream_len ps"
    using nat(1) lap lt unat_plus_no_wrap [of "cwp_start (o_cwp (fi_out a))" "cwp_off (o_cwp (fi_out a))"] by simp
  then show "unat (size_to_seq (cwp_start (o_cwp (fi_out a)) + word_of_nat (stream_len ps))) =
      unat (rwp_start (in_rwp (fi_in b))) + unat (rwp_off (in_rwp (fi_in b)))"
    using lap lt eq off by (simp add: o unat_size_to_seq)
  have n: "unat (word_of_nat (length q) :: size_t) = length q" using le by (simp add: unat_word_of_nat_u64)
  show "unat (rwp_start (in_rwp (fi_in b)) + rwp_off (in_rwp (fi_in b)) + word_of_nat (length q)) =
      unat (cwp_start (o_cwp (fi_out a))) + stream_len (ps @ [q])"
    using sum n eq lap le unat_plus_no_wrap [of "cwp_start (o_cwp (fi_out a)) + cwp_off (o_cwp (fi_out a))" "word_of_nat (length q)"] by simp
qed

text \<open>After the exchange both sides have moved behind the segment.\<close>

lemma synced_advance:
  assumes "synced a b ps (q # qs)" and "acked (fi_out a) ps q qs t"
    and "fresh_segs (sob_buf (o_buf t)) (slots_len ps + slot_sz q) qs" and "in_inv (fi_in b2)" and "fi_state b2 = ESTABLISHED"
    and "in_rwp (fi_in b2) = (in_rwp (fi_in b))\<lparr>rwp_off := rwp_off (in_rwp (fi_in b)) + word_of_nat (length q)\<rparr>"
  shows "synced (a\<lparr>fi_out := t\<rparr>) b2 (ps @ [q]) qs"
proof -
  have "cwp_off (o_cwp t) = word_of_nat (stream_len (ps @ [q]))" using assms(2) by (simp add: acked_def out_rep_def)
  moreover have "cwp_off (o_cwp (fi_out a)) = word_of_nat (stream_len ps)" using assms(1) by (simp add: synced_def out_rep_def)
  ultimately have "rwp_off (in_rwp (fi_in b2)) = cwp_off (o_cwp t)" using assms(1,6) by (simp add: synced_def)
  with assms show ?thesis by (simp add: synced_def acked_def)
qed

lemma exchange_ok:
  assumes "synced a b ps (q # qs)" and "stream_len (ps @ [q]) < 1000" and "host_ok a wa i" and "host_ok b wb j"
    and "peers (fi_base a) (fi_base b) ha" and "peers (fi_base b) (fi_base a) hb" and "length q \<le> unat (max_data_sz (fi_base b))"
    and "ret = int (36 + length q)"
  shows "\<exists>wa' b' wb' t. exchange ha hb junk now ret (a, wa) (b, wb) = Some ((a\<lparr>fi_out := t\<rparr>, wa'), (b', wb')) \<and>
    synced (a\<lparr>fi_out := t\<rparr>) b' (ps @ [q]) qs \<and> acked (fi_out a) ps q qs t \<and>
    host_ok (a\<lparr>fi_out := t\<rparr>) wa' i \<and> host_ok b' wb' j \<and> fi_base b' = fi_base b \<and>
    got (fi_in b) (fi_in b') q \<and> polite_step\<^sup>*\<^sup>* (fi_in b) (fi_in b')"
proof -
  have syn: "out_rep (fi_out a) ps (q # qs)" "fresh_segs (sob_buf (o_buf (fi_out a))) (slots_len ps) (q # qs)" "fi_state a = ESTABLISHED"
      "fi_state b = ESTABLISHED" "is_active (fi_send_worker a)" "in_inv (fi_in b)" "unat (cwp_start (o_cwp (fi_out a))) + 1000 \<le> 2 ^ 32"
    using assms(1) by (simp_all add: synced_def)
  note ex = synced_expected [OF assms(1)]
  from transmit_ok [OF syn(1-3,5) assms(8), of now] obtain d bs m m' dest p tmo where
    tr: "transmit now ret a = Some (d, bs)" "base_send now ret (fi_base a) m = (m', Inr (dest, bs))" "msg_ok m" "is_usual m" "get_data m = q"
      "unat (data_len m) = length q" "get_seq m = size_to_seq (cwp_start (o_cwp (fi_out a)) + word_of_nat (stream_len ps))"
      "wk_pc d = K_Poll (slots_len ps + off_msg_data) tmo 0" "wk_lock d = 1" "out_rep (wk_out d) ps (q # qs)"
      "o_cwp (wk_out d) = o_cwp (fi_out a)" "sob_sem (o_buf (wk_out d)) = sob_sem (o_buf (fi_out a))"
      "fresh_segs (sob_buf (o_buf (wk_out d))) (slots_len ps + slot_sz q) qs" "o_cwc (wk_out d) = o_cwc (fi_out a)"
      "buf_empty (wk_out d) = buf_empty (fi_out a)" by blast
  have dl: "data_len m = word_of_nat (length q)" using tr(6) word_of_nat_unat [of "data_len m"] by simp
  let ?b = "rwp_start (in_rwp (fi_in b)) + rwp_off (in_rwp (fi_in b)) + data_len m"
  have "unat (get_seq m) = unat (rwp_start (in_rwp (fi_in b))) + unat (rwp_off (in_rwp (fi_in b)))" using ex(1) tr(7) by simp
  moreover have "unat (rwp_off (in_rwp (fi_in b))) + unat (data_len m) < 1000" using ex(2) tr(6) assms(2) by simp
  moreover have "unat (data_len m) \<le> unat (max_data_sz (fi_base b))" using assms(7) tr(6) by simp
  ultimately obtain b1 wb1 b2 where b: "deliver ha bs junk now b wb = Some (b1, wb1)" "settle 2 b1 = Some b2" "host_ok b2 wb1 j"
      "in_inv (fi_in b2)" "polite_step\<^sup>*\<^sup>* (fi_in b) (fi_in b2)" "got (fi_in b) (fi_in b2) q" "fi_base b2 = fi_base b" "fi_state b2 = ESTABLISHED"
      "in_rwp (fi_in b2) = (in_rwp (fi_in b))\<lparr>rwp_off := rwp_off (in_rwp (fi_in b)) + data_len m\<rparr>" "good_ack (last (fi_sent b2))"
      "get_seq (last (fi_sent b2)) = size_to_seq ?b - 1"
    using receive_ok [OF tr(3,4,2) assms(4,5) _ syn(6,4)] tr(5) by metis
  let ?k = "last (fi_sent b2)" and ?a1 = "a\<lparr>fi_out := wk_out d\<rparr>"
  have "msg_ok ?k" "data_len ?k = 0" using b(10) by (simp_all add: good_ack_def)
  then obtain k' kd ks where ks: "base_send now 36 (fi_base b2) ?k = (k', Inr (kd, ks))" using base_send_granted [of ?k 36] by fastforce
  have "unat (cwp_start (o_cwp (fi_out a))) + stream_len (ps @ [q]) \<le> 4294967296" using syn(7) assms(2) by simp
  then have seq: "unat (get_seq ?k) + 1 = unat (cwp_start (o_cwp (fi_out ?a1))) + stream_len (ps @ [q])"
    using unat_seq_pred [of ?b] ex(4,5) unfolding b(11) dl by (simp add: tr(11))
  have a1: "host_ok ?a1 wa i" "peers (fi_base b2) (fi_base ?a1) hb" "fi_state ?a1 = ESTABLISHED" "out_rep (fi_out ?a1) ps (q # qs)"
      "unat (cwp_start (o_cwp (fi_out ?a1))) + 1000 \<le> 2 ^ 32"
    using assms(3,6) syn(3,7) b(7) tr(10,11) by (simp_all add: host_ok_def)
  obtain wa1 t where t: "deliver hb ks junk now ?a1 wa = Some (?a1\<lparr>fi_out := t\<rparr>, wa1)" "host_ok (?a1\<lparr>fi_out := t\<rparr>) wa1 i"
      "acked (fi_out ?a1) ps q qs t" "sob_buf (o_buf t) = sob_buf (o_buf (fi_out ?a1))"
    using ack_ok [OF b(10) ks a1 assms(2) seq] by blast
  have "check_msg_complete (load_msg (sob_buf (o_buf t)) (slots_len ps + off_msg_data)) t"
    using acked_complete [of t ps q qs] a1(5) t(3) by (simp add: acked_def)
  then have poll: "send_worker ESTABLISHED now ret (fi_base a) (d\<lparr>wk_out := t\<rparr>) = Some (d\<lparr>wk_out := t, wk_pc := K_Top\<rparr>)"
    using tr(8,9) by (simp add: send_worker_def worker_poll_def Let_def)
  have "exchange ha hb junk now ret (a, wa) (b, wb) = Some ((a\<lparr>fi_out := t\<rparr>, wa1), (b2, wb1))"
    using tr(1) b(1,2) ks t(1) poll syn(3) by (simp add: exchange_def Let_def)
  moreover have ak: "acked (fi_out a) ps q qs t" using t(3) tr(11,12,14,15) by (simp add: acked_def post_all_def)
  moreover have "synced (a\<lparr>fi_out := t\<rparr>) b2 (ps @ [q]) qs"
    using b(9) dl t(4) tr(13) by (intro synced_advance [OF assms(1) ak _ b(4,8)]) simp_all
  moreover have "host_ok (a\<lparr>fi_out := t\<rparr>) wa1 i" using t(2) by (simp add: host_ok_def)
  ultimately show ?thesis using b(3,5-7) by blast
qed

end
