(* ===== verification/Connection.thy ===== *)
theory Connection
  imports Full_Socket
begin

text \<open>
  A connection as a whole: the thread that calls \<open>send\<close> on one socket, the workers of both sockets with
  the network between them, and the thread that calls \<open>recv\<close> on the other socket, in every order. A
  call of \<open>send\<close> with less than a window of data ends, and the reader gets exactly the data.
\<close>

section \<open>Steps\<close>

text \<open>
  \<open>tk_send\<close> is the thread in \<open>send\<close> with the sending side of the socket \<open>tk_a\<close>, \<open>tk_want\<close> is what the
  loop of \<open>recv_proc\<close> on the socket \<open>tk_b\<close> still has to hand out.
\<close>

record talk_cfg =
  tk_send :: send_cfg
  tk_a :: full_impl
  tk_wa :: world
  tk_b :: full_impl
  tk_wb :: world
  tk_want :: size_t

definition sender :: "talk_cfg \<Rightarrow> full_impl" where
  "sender c = (tk_a c)\<lparr>fi_out := sc_st (tk_send c)\<rparr>"

text \<open>
  \<open>round\<close>: while the sending thread is outside its critical section, the workers exchange the oldest
  segment; the kernel takes the whole datagram and its headers carry the addresses of the sockets.
  \<open>reader\<close>: a turn of the loop in \<open>recv_proc\<close>.
\<close>

inductive talk :: "talk_cfg \<Rightarrow> talk_cfg \<Rightarrow> bool" where
  thread: "send_thread (tk_send c) = Some d \<Longrightarrow> talk c (c\<lparr>tk_send := d\<rparr>)"
| round: "lock_free (sc_pc (tk_send c)) \<Longrightarrow> out_rep (sc_st (tk_send c)) ps (q # qs) \<Longrightarrow> ret = int (36 + length q) \<Longrightarrow>
    peers (fi_base (tk_a c)) (fi_base (tk_b c)) ha \<Longrightarrow> peers (fi_base (tk_b c)) (fi_base (tk_a c)) hb \<Longrightarrow>
    exchange ha hb junk now ret (sender c, tk_wa c) (tk_b c, tk_wb c) = Some ((a, wa), (b, wb)) \<Longrightarrow>
    talk c (c\<lparr>tk_send := (tk_send c)\<lparr>sc_st := fi_out a\<rparr>, tk_a := a, tk_wa := wa, tk_b := b, tk_wb := wb\<rparr>)"
| reader: "recv_proc [T_client] (tk_want c) (fi_in (tk_b c)) = Some (want, t) \<Longrightarrow>
    talk c (c\<lparr>tk_b := put_in t (tk_b c), tk_want := want\<rparr>)"

section \<open>The sending thread\<close>

text \<open>What a step of the thread does to the segments: it appends one, or none.\<close>

definition same_out :: "out_st \<Rightarrow> out_st \<Rightarrow> bool" where
  "same_out s t \<longleftrightarrow> o_cwp t = o_cwp s \<and> sob_buf (o_buf t) = sob_buf (o_buf s) \<and> off_map (o_buf t) = off_map (o_buf s) \<and>
     sob_end (o_buf t) = sob_end (o_buf s) \<and> o_cwc t = o_cwc s"

lemma same_out_refl [simp]: "same_out s s"
  by (simp add: same_out_def)

lemma same_out_rep: "same_out s t \<Longrightarrow> out_rep t ps qs = out_rep s ps qs"
  by (simp add: same_out_def out_rep_def buf_rep_def)

definition puts :: "nat \<Rightarrow> nat \<Rightarrow> send_cfg \<Rightarrow> send_cfg \<Rightarrow> bool" where
  "puts n f c d \<longleftrightarrow> (sc_pc c = S_Loop \<or> sc_pc c = S_Check_seg n) \<and> 0 < n \<and> n \<le> length (sc_data c) \<and> n \<le> unat (mtu (o_cwc (sc_st c))) \<and>
     (\<exists>s. scw_send (tmp_msg (take n (sc_data c))) (sc_st c) = Inr (f, s) \<and> d = package_sent n f s c)"

lemma puts_sel:
  assumes "puts n f c d"
  shows "sc_pc d = S_Loop" "sc_futs d = sc_futs c @ [f]" "sc_data d = drop n (sc_data c)" "sc_rest d = sc_rest c"
    "sc_log d = sc_log c @ [take n (sc_data c)]" "scw_send (tmp_msg (take n (sc_data c))) (sc_st c) = Inr (f, sc_st d)"
  using assms by (auto simp: puts_def package_sent_def)

text \<open>The steps that append nothing.\<close>

inductive quiet :: "send_cfg \<Rightarrow> send_cfg \<Rightarrow> bool" where
  q_return: "sc_pc c = S_Top \<Longrightarrow> sc_rest c = [] \<Longrightarrow> quiet c (c\<lparr>sc_pc := S_Return\<rparr>)"
| q_chunk: "sc_pc c = S_Top \<Longrightarrow> 0 < n \<Longrightarrow> n \<le> length (sc_rest c) \<Longrightarrow>
    quiet c (c\<lparr>sc_pc := S_Loop, sc_data := take n (sc_rest c), sc_rest := drop n (sc_rest c), sc_futs := []\<rparr>)"
| q_sent: "sc_pc c = S_Loop \<Longrightarrow> sc_data c = [] \<Longrightarrow> quiet c (c\<lparr>sc_pc := S_Futures (sc_futs c)\<rparr>)"
| q_check: "sc_pc c = S_Loop \<Longrightarrow> quiet c (c\<lparr>sc_pc := S_Check_seg n\<rparr>)"
| q_sleep: "sc_pc c = S_Check_seg n \<Longrightarrow> quiet c (c\<lparr>sc_pc := S_Sleep_seg n\<rparr>)"
| q_wake: "sc_pc c = S_Sleep_seg n \<Longrightarrow> buf_empty (sc_st c) = Suc k \<Longrightarrow>
    quiet c (c\<lparr>sc_st := (sc_st c)\<lparr>buf_empty := k\<rparr>, sc_pc := S_Check_seg n\<rparr>)"
| q_future: "sc_pc c = S_Futures (f # fs) \<Longrightarrow> sob_sem (o_buf (sc_st c)) f = Suc k \<Longrightarrow>
    quiet c (c\<lparr>sc_st := (sc_st c)\<lparr>o_buf := (o_buf (sc_st c))\<lparr>sob_sem := (sob_sem (o_buf (sc_st c)))(f := k)\<rparr>\<rparr>, sc_pc := S_Futures fs\<rparr>)"
| q_top: "sc_pc c = S_Futures [] \<Longrightarrow> quiet c (c\<lparr>sc_pc := S_Top\<rparr>)"

lemma quiet_same:
  "quiet c d \<Longrightarrow> sc_data c = [] \<or> sc_pc c \<noteq> S_Top \<Longrightarrow>
   same_out (sc_st c) (sc_st d) \<and> sc_log d = sc_log c \<and> sc_data d @ sc_rest d = sc_data c @ sc_rest c"
  by (auto elim!: quiet.cases simp: same_out_def)

lemma send_thread_cases:
  assumes "send_inv data c" and "send_thread c = Some d"
  shows "(\<exists>n f. puts n f c d) \<or> quiet c d"
proof -
  obtain ps qs where c: "out_rep (sc_st c) ps qs" "stream_len ps < 1000" "pc_inv c ps qs" "win_open (sc_st c)"
    using assms(1) by (auto simp: send_inv_def)
  let ?m = "unat (mtu (o_cwc (sc_st c)))"
  have pos: "0 < ?m" using c(4) by (auto simp: win_open_def word_unat_eq_iff)
  have put: "\<exists>f s. output_send_as_single_package (take n (sc_data c)) (sc_st c) = Inr (f, s) \<and> puts n f c (package_sent n f s c)"
    if n: "sc_pc c = S_Loop \<or> sc_pc c = S_Check_seg n" "0 < n" "n \<le> length (sc_data c)" "n \<le> ?m" for n
  proof -
    have "stream_len (ps @ qs) + length (take n (sc_data c)) \<le> 1000" "take n (sc_data c) \<noteq> []" using c(3) n by (auto simp: pc_inv_def)
    from scw_send_ok [OF c(1) this(2,1)] obtain s where "scw_send (tmp_msg (take n (sc_data c))) (sc_st c) = Inr (slots_len (ps @ qs), s)" by auto
    with n show ?thesis
      by (intro exI [of _ "slots_len (ps @ qs)"] exI [of _ s]) (simp add: puts_def output_send_as_single_package_def package_sent_def)
  qed
  show ?thesis
  proof (cases "sc_pc c")
    case S_Top
    have "unat (scw_get_sz (sc_st c)) = 1000 - stream_len ps"
      using out_rep_nat(1,4) [OF c(1)] c(1) by (simp add: scw_get_sz_def win_ok_get_sz out_rep_def)
    then have "sc_rest c \<noteq> [] \<Longrightarrow> 0 < min (unat (scw_get_sz (sc_st c))) (length (sc_rest c))" using c(2) by simp
    then show ?thesis
      using assms(2) S_Top q_return [OF S_Top] q_chunk [OF S_Top, of "min (unat (scw_get_sz (sc_st c))) (length (sc_rest c))"]
      by (auto simp: send_thread_def Let_def split: if_splits)
  next
    case S_Loop
    then have d: "d = nagles_iter c" using assms(2) by (simp add: send_thread_def)
    show ?thesis
    proof (cases "sc_data c \<noteq> [] \<and> ?m < unat (bounded_win_sz (o_cwc (sc_st c))) \<and> ?m \<le> length (sc_data c)")
      case True
      then obtain f s where "output_send_as_single_package (take ?m (sc_data c)) (sc_st c) = Inr (f, s)" "puts ?m f c (package_sent ?m f s c)"
        using put [of ?m] pos S_Loop by blast
      with True d show ?thesis by (auto simp: nagles_iter_def Let_def)
    next
      case False
      then show ?thesis using d q_sent [OF S_Loop] q_check [OF S_Loop] by (auto simp: nagles_iter_def Let_def)
    qed
  next
    case (S_Check_seg n)
    then have "0 < n" "n \<le> length (sc_data c)" "n \<le> ?m" using c(3) by (simp_all add: pc_inv_def)
    with put [of n] S_Check_seg obtain f s where
      "output_send_as_single_package (take n (sc_data c)) (sc_st c) = Inr (f, s)" "puts n f c (package_sent n f s c)" by blast
    then show ?thesis
      using assms(2) S_Check_seg q_sleep [OF S_Check_seg] by (auto simp: send_thread_def Let_def split: if_splits)
  next
    case (S_Sleep_seg n)
    then show ?thesis using assms(2) q_wake [OF S_Sleep_seg] by (cases "buf_empty (sc_st c)") (auto simp: send_thread_def Let_def)
  next
    case (S_Futures fs)
    then show ?thesis
      using assms(2) q_top [of c] q_future [of c]
      by (cases fs; cases "sob_sem (o_buf (sc_st c)) (hd fs)") (auto simp: send_thread_def Let_def)
  qed (use c(3) in \<open>simp_all add: pc_inv_def\<close>, use assms(2) in \<open>simp add: send_thread_def\<close>)
qed

text \<open>The flags of a new segment are clear.\<close>

lemma fresh_segs_append: "fresh_segs buf a (ps @ qs) \<longleftrightarrow> fresh_segs buf a ps \<and> fresh_segs buf (a + slots_len ps) qs"
  by (induction ps arbitrary: a) (simp_all add: add.assoc)

lemma fresh_segs_below:
  "(\<And>i. i < a + slots_len ps \<Longrightarrow> buf' i = buf i) \<Longrightarrow> fresh_segs buf' a ps = fresh_segs buf a ps"
proof (induction ps arbitrary: a)
  case (Cons p ps)
  have "65 < slot_sz p" "82 < slot_sz p" using slot_sz_bounds(1) [of p] by simp_all
  then show ?case using Cons.prems Cons.IH [of "a + slot_sz p"] by (simp add: add.assoc)
qed simp

lemma scw_send_fresh:
  assumes "out_rep s ps qs" and "length p \<le> 1000" and "scw_send (tmp_msg p) s = Inr (f, t)" and "fresh_segs (sob_buf (o_buf s)) (slots_len ps) qs"
  shows "fresh_segs (sob_buf (o_buf t)) (slots_len ps) (qs @ [p])"
proof -
  let ?a = "slots_len (ps @ qs) + off_msg_data"
  obtain q where t: "sob_buf (o_buf t) = msg_copy_to (sob_buf (o_buf s)) ?a (set_seq q (tmp_msg p))" using scw_send_buf [OF assms(1,3)] by blast
  note new = put_unused [OF assms(2), where buf = "sob_buf (o_buf s)" and a = ?a and q = q, folded t]
  have "fresh_segs (sob_buf (o_buf t)) (slots_len ps) qs = fresh_segs (sob_buf (o_buf s)) (slots_len ps) qs"
    by (rule fresh_segs_below) (simp add: new(3))
  then show ?thesis using assms(4) new(1,2) by (simp add: fresh_segs_append is_msg_used_def inplace_defs add.commute add.left_commute)
qed

lemma puts_ok:
  assumes "puts n f c d" and "out_rep (sc_st c) ps qs" and "stream_len (ps @ qs) + length (sc_data c) \<le> 1000"
    and "fresh_segs (sob_buf (o_buf (sc_st c))) (slots_len ps) qs"
  defines "p \<equiv> take n (sc_data c)"
  shows "out_rep (sc_st d) ps (qs @ [p])" "fresh_segs (sob_buf (o_buf (sc_st d))) (slots_len ps) (qs @ [p])"
    "f = slots_len (ps @ qs)" "sob_sem (o_buf (sc_st d)) = (sob_sem (o_buf (sc_st c)))(slots_len (ps @ qs) := 0)"
    "o_cwc (sc_st d) = o_cwc (sc_st c)" "cwp_start (o_cwp (sc_st d)) = cwp_start (o_cwp (sc_st c))" "length p = n"
proof -
  have n: "0 < n" "n \<le> length (sc_data c)" "scw_send (tmp_msg p) (sc_st c) = Inr (f, sc_st d)"
    using assms(1) puts_sel(6) [OF assms(1)] by (simp_all add: puts_def p_def)
  then have p: "p \<noteq> []" "stream_len (ps @ qs) + length p \<le> 1000" "length p = n" using assms(3) by (auto simp: p_def)
  from scw_send_ok [OF assms(2) p(1,2)] n(3) show "out_rep (sc_st d) ps (qs @ [p])" "f = slots_len (ps @ qs)"
      "sob_sem (o_buf (sc_st d)) = (sob_sem (o_buf (sc_st c)))(slots_len (ps @ qs) := 0)" "o_cwc (sc_st d) = o_cwc (sc_st c)"
      "cwp_start (o_cwp (sc_st d)) = cwp_start (o_cwp (sc_st c))" by auto
  show "fresh_segs (sob_buf (o_buf (sc_st d))) (slots_len ps) (qs @ [p])"
    using p(2) by (intro scw_send_fresh [OF assms(2) _ n(3) assms(4)]) simp
qed (use assms(1) in \<open>simp add: puts_def p_def\<close>)

section \<open>Futures\<close>

text \<open>The futures that the thread will still wait for belong to outstanding segments, or are posted.\<close>

definition futs_left :: "send_cfg \<Rightarrow> nat list" where
  "futs_left c = (case sc_pc c of S_Futures fs \<Rightarrow> fs | S_Top \<Rightarrow> [] | S_Return \<Rightarrow> [] | _ \<Rightarrow> sc_futs c)"

definition fut_inv :: "send_cfg \<Rightarrow> u8 list list \<Rightarrow> u8 list list \<Rightarrow> bool" where
  "fut_inv c ps qs \<longleftrightarrow> distinct (futs_left c) \<and> list_all (fut_ok (sc_st c) ps qs) (futs_left c) \<and>
     (sc_data c \<noteq> [] \<longrightarrow> list_all (\<lambda>f. f < slots_len (ps @ qs)) (futs_left c))"

lemma fut_inv_puts:
  assumes "fut_inv c ps qs" and "puts n f c d" and "f = slots_len (ps @ qs)"
    and "sob_sem (o_buf (sc_st d)) = (sob_sem (o_buf (sc_st c)))(slots_len (ps @ qs) := 0)"
  shows "fut_inv d ps (qs @ [p])"
proof -
  have futs: "futs_left d = futs_left c @ [f]"
    using assms(2) puts_sel(1,2) [OF assms(2)] by (auto simp: futs_left_def puts_def)
  have "0 < slot_sz p" using slot_sz_bounds(1) [of p] by simp
  moreover have "sc_data c \<noteq> []" using assms(2) by (auto simp: puts_def)
  ultimately show ?thesis
    using assms(1,3,4) unfolding fut_inv_def futs by (auto simp: starts_append fut_ok_def list_all_iff)
qed

lemma fut_inv_quiet: "quiet c d \<Longrightarrow> fut_inv c ps qs \<Longrightarrow> fut_inv d ps qs"
  by (erule quiet.cases) (auto simp: fut_inv_def futs_left_def fut_ok_def list_all_iff split: if_splits)

lemma fut_inv_seg_step:
  assumes "fut_inv c ps qs" and "pc_inv c ps qs" and "seg_step (sc_st c) ps qs t ps' qs'"
  shows "fut_inv (c\<lparr>sc_st := t\<rparr>) ps' qs'"
proof -
  have futs: "futs_left (c\<lparr>sc_st := t\<rparr>) = futs_left c" by (cases "sc_pc c") (simp_all add: futs_left_def)
  have "stream_len (ps @ qs) = 1000 \<Longrightarrow> sc_data c = []" using assms(2) by (cases "sc_pc c") (simp_all add: pc_inv_def)
  then have "sc_data c \<noteq> [] \<Longrightarrow> ps @ qs = ps' @ qs'" using assms(3) by (auto simp: seg_step_def)
  then show ?thesis using assms(1,3) unfolding fut_inv_def futs by (auto simp: seg_step_def list_all_iff)
qed

section \<open>The reading thread\<close>

definition recv_inv :: "in_st \<Rightarrow> bool" where
  "recv_inv s \<longleftrightarrow> in_inv s \<and> abs_inv (in_abs_of s) \<and> polite_inv (in_abs_of s)"

lemma recv_inv_steps: "polite_step\<^sup>*\<^sup>* s t \<Longrightarrow> recv_inv s \<Longrightarrow> recv_inv t"
  unfolding recv_inv_def by (rule rp.steps_inv)

text \<open>The request of the reader is for what its loop still misses.\<close>

definition wants :: "size_t \<Rightarrow> in_st \<Rightarrow> bool" where
  "wants n s \<longleftrightarrow> (case in_cpc s of C_Idle \<Rightarrow> True | C_Wait_not_empty k \<Rightarrow> k = n \<and> n \<noteq> 0 | C_Relock k \<Rightarrow> k = n \<and> n \<noteq> 0 | C_Signal_flushed \<Rightarrow> False)"

definition rank_read :: "in_st \<Rightarrow> nat" where
  "rank_read s = (case in_cpc s of C_Relock k \<Rightarrow> 3 | C_Idle \<Rightarrow> 2 | C_Wait_not_empty k \<Rightarrow> 1 | C_Signal_flushed \<Rightarrow> 0)"

text \<open>What a turn of the reader leaves alone.\<close>

definition read_frame :: "in_st \<Rightarrow> in_st \<Rightarrow> bool" where
  "read_frame s t \<longleftrightarrow> accepted t = accepted s \<and> in_wpc t = in_wpc s \<and> in_acks t = in_acks s \<and>
     rwp_start (in_rwp t) = rwp_start (in_rwp s) \<and> rwp_off (in_rwp t) = rwp_off (in_rwp s)"

lemma flush_open:
  assumes "in_inv s" and "in_wpc s = W_Idle" and "client_flush_now n s = Inr t"
  shows "read_frame s t" "in_cpc t = C_Idle" "not_empty t = not_empty s" "delivered t = delivered s @ take (unat n) (pending s)"
proof -
  have "in_abs_of t = abs_flush (unat n) (in_abs_of s)" using client_flush_now_ok [OF assms(1), of n] assms(3) by auto
  from arg_cong [OF this, of ai_out] arg_cong [OF this, of ai_cpc]
  have out: "delivered t = delivered s @ take (unat n) (pending s)"
      "in_cpc t = (if drop (unat n) (pending s) = [] \<and> 1000 \<le> unat (rwp_off (in_rwp s)) then C_Signal_flushed else C_Idle)"
    by (simp_all add: in_abs_of_def abs_flush_def)
  moreover have "unat (rwp_off (in_rwp s)) < 1000"
    using assms(1,2) by (auto simp: in_inv_def word_unat_eq_iff)
  ultimately show "delivered t = delivered s @ take (unat n) (pending s)" "in_cpc t = C_Idle" by simp_all
  show "read_frame s t" "not_empty t = not_empty s"
    using assms(3) by (auto simp: client_flush_now_def read_frame_def Let_def split: sum.splits)
qed

text \<open>A turn of the reader makes progress: it hands out bytes, takes a signal, or moves on to wait.\<close>

definition read_less :: "in_st \<Rightarrow> size_t \<Rightarrow> in_st \<Rightarrow> size_t \<Rightarrow> bool" where
  "read_less t n' s n \<longleftrightarrow> unat n' < unat n \<or> n' = n \<and> (not_empty t < not_empty s \<or> not_empty t = not_empty s \<and> rank_read t < rank_read s)"

lemma flush_turn:
  assumes "in_inv s" and "in_wpc s = W_Idle" and "client_flush_now n s = Inr t"
    and "pending s \<noteq> [] \<and> n \<noteq> 0 \<or> in_cpc s = C_Relock n"
  defines "n' \<equiv> n - word_of_nat (length (delivered t) - length (delivered s))"
  shows "read_frame s t" "wants n' t" "unat n' + length (delivered t) = unat n + length (delivered s)" "read_less t n' s n"
proof -
  note fl = flush_open [OF assms(1-3)]
  let ?k = "length (take (unat n) (pending s))"
  have k: "?k \<le> unat n" by simp
  then have "?k < 18446744073709551616" using unat_u64_bound [of n] by linarith
  then have "unat (word_of_nat ?k :: size_t) = ?k" by (rule unat_word_of_nat_u64)
  moreover have n': "n' = n - word_of_nat ?k" using fl(4) by (simp add: n'_def)
  ultimately have u: "unat n' = unat n - ?k" using k by (metis unat_minus_no_wrap)
  show "read_frame s t" by (rule fl(1))
  show "wants n' t" using fl(2) by (simp add: wants_def)
  show "unat n' + length (delivered t) = unat n + length (delivered s)" using fl(4) u k by simp
  show "read_less t n' s n"
  proof (cases "?k = 0")
    case True
    then have "in_cpc s = C_Relock n" using assms(4) by (auto simp: word_unat_eq_iff min_def split: if_splits)
    with True n' fl(2,3) show ?thesis by (simp add: read_less_def rank_read_def)
  next
    case False
    then show ?thesis using u k by (simp add: read_less_def del: length_take)
  qed
qed

lemma reader_ok:
  assumes "recv_inv s" and "in_wpc s = W_Idle" and "wants n s" and "recv_proc [T_client] n s = Some (n', t)"
  shows "polite_step s t" "read_frame s t \<and> wants n' t \<and> unat n' + length (delivered t) = unat n + length (delivered s) \<and> read_less t n' s n"
proof -
  have inv: "in_inv s" using assms(1) by (simp add: recv_inv_def)
  have r: "in_exec (turn_event T_client n s) s = Some (Inr t)" "\<not> (in_cpc s = C_Idle \<and> n = 0)"
      "n' = n - word_of_nat (length (delivered t) - length (delivered s))"
    using assms(4) by (auto simp: Let_def split: if_splits option.splits sum.splits)
  have "\<not> drained s" using inv assms(2) rwp_full_iff [of "in_rwp s"] by (auto simp: drained_def in_inv_def)
  with r(1) show "polite_step s t" by (intro in_exec_polite [of "turn_event T_client n s"]) (auto simp: ev_ok_def turn_event_def)
  show "read_frame s t \<and> wants n' t \<and> unat n' + length (delivered t) = unat n + length (delivered s) \<and> read_less t n' s n"
  proof (cases "in_cpc s")
    case C_Idle
    show ?thesis
    proof (cases "pending s = []")
      case True
      then have "t = s\<lparr>in_cpc := C_Wait_not_empty n\<rparr>"
        using r(1) C_Idle wrote_win_sz_0_iff [OF inv] by (simp add: in_exec_def turn_event_def client_flush_request_def)
      then show ?thesis using C_Idle r(2,3) by (simp add: read_frame_def wants_def read_less_def rank_read_def)
    next
      case False
      then have "client_flush_now n s = Inr t"
        using r(1) C_Idle wrote_win_sz_0_iff [OF inv] by (simp add: in_exec_def turn_event_def client_flush_request_def)
      from flush_turn [OF inv assms(2) this] False C_Idle r(2) show ?thesis unfolding r(3) by blast
    qed
  next
    case (C_Wait_not_empty k)
    then have "0 < not_empty s" "t = s\<lparr>not_empty := not_empty s - 1, in_cpc := C_Relock k\<rparr>"
      using r(1) by (simp_all add: in_exec_def turn_event_def client_step_def split: if_splits)
    then show ?thesis using C_Wait_not_empty assms(3) r(3) by (simp add: read_frame_def wants_def read_less_def)
  next
    case (C_Relock k)
    then have k: "k = n" "n \<noteq> 0" using assms(3) by (simp_all add: wants_def)
    with C_Relock have "client_flush_now n s = Inr t" using r(1) by (simp add: in_exec_def turn_event_def client_step_def)
    from flush_turn [OF inv assms(2) this] C_Relock k show ?thesis unfolding r(3) by blast
  qed (use assms(3) in \<open>simp add: wants_def\<close>)
qed

text \<open>When the reader has no turn, its loop has ended or everything that has arrived was handed out.\<close>

lemma reader_stuck:
  assumes "recv_inv s" and "in_wpc s = W_Idle" and "wants n s" and "recv_proc [T_client] n s = None"
  shows "n = 0 \<and> in_cpc s = C_Idle \<or> n \<noteq> 0 \<and> pending s = []"
proof -
  have inv: "in_inv s" "abs_inv (in_abs_of s)" using assms(1) by (simp_all add: recv_inv_def)
  have fl: "\<exists>t. client_flush_now n s = Inr t" for n using client_flush_now_ok [OF inv(1), of n] by blast
  show ?thesis
  proof (cases "in_cpc s")
    case C_Idle
    then show ?thesis
      using assms(4) fl [of n] by (auto simp: in_exec_def turn_event_def client_flush_request_def Let_def split: if_splits)
  next
    case (C_Wait_not_empty k)
    then have "not_empty s = 0" "n \<noteq> 0"
      using assms(3,4) by (auto simp: in_exec_def turn_event_def client_step_def wants_def Let_def split: if_splits)
    then show ?thesis using inv(2) C_Wait_not_empty assms(2) by (auto simp: abs_inv_def in_abs_of_def)
  next
    case (C_Relock k)
    then show ?thesis using assms(4) fl [of k] by (auto simp: in_exec_def turn_event_def client_step_def Let_def)
  qed (use assms(3) in \<open>simp add: wants_def\<close>)
qed

section \<open>Invariant of a connection\<close>

text \<open>
  What holds in between: the segments \<open>ps\<close> are acknowledged and \<open>qs\<close> are outstanding; the peer has
  accepted all but \<open>qs\<close>; everything still fits into the window, and the congestion window cannot
  overflow while the rest is acknowledged.
\<close>

definition segs_inv :: "talk_cfg \<Rightarrow> u8 list list \<Rightarrow> u8 list list \<Rightarrow> bool" where
  "segs_inv c ps qs \<longleftrightarrow>
     (let s = tk_send c; w = o_cwc (sc_st s); left = length (sc_data s) + length (sc_rest s)
      in synced (sender c) (tk_b c) ps qs \<and> stream_len (ps @ qs) + left < 1000 \<and>
         list_all (\<lambda>q. length q \<le> unat (max_data_sz (fi_base (tk_b c)))) qs \<and>
         accepted (fi_in (tk_b c)) @ concat qs = concat (sc_log s) \<and> fut_inv s ps qs \<and>
         unat (congection_win_sz w) + unat (mtu w) * (length qs + left + 1) < 18446744073709551616 \<and>
         unat (mtu w) \<le> unat (max_data_sz (fi_base (tk_b c))))"

definition hosts_inv :: "talk_cfg \<Rightarrow> bool" where
  "hosts_inv c \<longleftrightarrow> (\<exists>i. host_ok (tk_a c) (tk_wa c) i) \<and> (\<exists>j. host_ok (tk_b c) (tk_wb c) j) \<and>
     (\<exists>ha. peers (fi_base (tk_a c)) (fi_base (tk_b c)) ha) \<and> (\<exists>hb. peers (fi_base (tk_b c)) (fi_base (tk_a c)) hb)"

definition reader_inv :: "u8 list \<Rightarrow> talk_cfg \<Rightarrow> bool" where
  "reader_inv data c \<longleftrightarrow> recv_inv (fi_in (tk_b c)) \<and> wants (tk_want c) (fi_in (tk_b c)) \<and>
     unat (tk_want c) + length (delivered (fi_in (tk_b c))) = length data"

definition talk_inv :: "u8 list \<Rightarrow> talk_cfg \<Rightarrow> bool" where
  "talk_inv data c \<longleftrightarrow> send_inv data (tk_send c) \<and> hosts_inv c \<and> reader_inv data c \<and> (\<exists>ps qs. segs_inv c ps qs)"

lemma segs_inv_rep:
  assumes "send_inv data (tk_send c)" and "segs_inv c ps qs"
  shows "out_rep (sc_st (tk_send c)) ps qs" "pc_inv (tk_send c) ps qs" "win_open (sc_st (tk_send c))" "stream_len ps < 1000"
    "fresh_segs (sob_buf (o_buf (sc_st (tk_send c)))) (slots_len ps) qs" "stream_len (ps @ qs) + length (sc_data (tk_send c)) \<le> 1000"
proof -
  show rep: "out_rep (sc_st (tk_send c)) ps qs" "fresh_segs (sob_buf (o_buf (sc_st (tk_send c)))) (slots_len ps) qs"
    using assms(2) by (simp_all add: segs_inv_def synced_def sender_def Let_def)
  show "stream_len ps < 1000" "stream_len (ps @ qs) + length (sc_data (tk_send c)) \<le> 1000" using assms(2) by (simp_all add: segs_inv_def Let_def)
  show "pc_inv (tk_send c) ps qs" "win_open (sc_st (tk_send c))"
    using assms(1) out_rep_unique [OF rep(1)] by (auto simp: send_inv_def)
qed

lemma host_ok_out [simp]: "host_ok (s\<lparr>fi_out := t\<rparr>) w i = host_ok s w i"
  by (simp add: host_ok_def)

text \<open>The sending thread keeps it.\<close>

lemma segs_inv_puts:
  assumes "send_inv data (tk_send c)" and "segs_inv c ps qs" and "puts n f (tk_send c) d"
  shows "segs_inv (c\<lparr>tk_send := d\<rparr>) ps (qs @ [take n (sc_data (tk_send c))])"
proof -
  note r = segs_inv_rep [OF assms(1,2)]
  note p = puts_ok [OF assms(3) r(1,6,5)] and sel = puts_sel [OF assms(3)]
  let ?c = "tk_send c"
  let ?w = "o_cwc (sc_st ?c)" and ?left = "length (sc_data ?c) + length (sc_rest ?c)"
  have n: "0 < n" "n \<le> length (sc_data ?c)" "n \<le> unat (mtu ?w)" using assms(3) by (simp_all add: puts_def)
  have syn: "synced (sender (c\<lparr>tk_send := d\<rparr>)) (tk_b c) ps (qs @ [take n (sc_data ?c)])"
    using assms(2) p(1,2,6) r(1) by (simp add: segs_inv_def synced_def sender_def out_rep_def Let_def)
  have "length qs + 1 + (length (sc_data ?c) - n + length (sc_rest ?c)) + 1 \<le> length qs + ?left + 1" using n by simp
  then have "unat (mtu ?w) * (length qs + 1 + (length (sc_data ?c) - n + length (sc_rest ?c)) + 1) \<le> unat (mtu ?w) * (length qs + ?left + 1)"
    by (rule mult_le_mono2)
  then have cong: "unat (congection_win_sz ?w) + unat (mtu ?w) * (length qs + 1 + (length (sc_data ?c) - n + length (sc_rest ?c)) + 1) < 18446744073709551616"
    using assms(2) by (simp add: segs_inv_def Let_def)
  show ?thesis
    using assms(2) syn cong n fut_inv_puts [OF _ assms(3) p(3,4), of "take n (sc_data ?c)"] p(5,7)
    unfolding segs_inv_def Let_def by (simp add: sel)
qed

lemma segs_inv_quiet:
  assumes "segs_inv c ps qs" and "quiet (tk_send c) d" and "pc_inv (tk_send c) ps qs"
  shows "segs_inv (c\<lparr>tk_send := d\<rparr>) ps qs"
proof -
  have "sc_data (tk_send c) = [] \<or> sc_pc (tk_send c) \<noteq> S_Top" using assms(3) by (auto simp: pc_inv_def)
  from quiet_same [OF assms(2) this] have q: "same_out (sc_st (tk_send c)) (sc_st d)" "sc_log d = sc_log (tk_send c)"
      "length (sc_data d) + length (sc_rest d) = length (sc_data (tk_send c)) + length (sc_rest (tk_send c))"
    by (auto simp flip: length_append)
  then have "synced (sender (c\<lparr>tk_send := d\<rparr>)) (tk_b c) ps qs"
    using assms(1) same_out_rep [OF q(1)] by (simp add: segs_inv_def synced_def sender_def same_out_def Let_def)
  then show ?thesis
    using assms(1) q fut_inv_quiet [OF assms(2)] by (simp add: segs_inv_def same_out_def Let_def)
qed

lemma talk_inv_thread:
  assumes "talk_inv data c" and "send_thread (tk_send c) = Some d"
  shows "talk_inv data (c\<lparr>tk_send := d\<rparr>)"
proof -
  obtain ps qs where c: "send_inv data (tk_send c)" "segs_inv c ps qs" using assms(1) by (auto simp: talk_inv_def)
  from send_thread_cases [OF c(1) assms(2)] have "\<exists>ps qs. segs_inv (c\<lparr>tk_send := d\<rparr>) ps qs"
    using segs_inv_puts [OF c] segs_inv_quiet [OF c(2) _ segs_inv_rep(2) [OF c]] by blast
  then show ?thesis
    using assms(1) send_thread_inv [OF c(1) assms(2)] by (simp add: talk_inv_def hosts_inv_def reader_inv_def)
qed

text \<open>An exchange keeps it.\<close>

lemma acked_seg_step:
  assumes "acked s ps q qs t" and "stream_len (ps @ [q]) < 1000"
  shows "seg_step s ps (q # qs) t (ps @ [q]) qs"
proof -
  have sem: "sob_sem (o_buf t) = sob_sem (post_all (starts (slots_len ps) [q]) (o_buf s))" using assms(1) by (simp add: acked_def)
  have "covered fs t (ps @ [q]) qs" if "covered fs s ps (q # qs)" for fs
    using covered_suffix [OF _ sem, of fs qs] that by simp
  moreover have "fut_ok t (ps @ [q]) qs f" if "fut_ok s ps (q # qs) f" for f
    using fut_ok_posted [OF _ sem, of qs] that by simp
  ultimately show ?thesis using assms by (auto simp: seg_step_def acked_def cwc_on_ack_def)
qed

lemma talk_inv_round:
  assumes "talk_inv data c" and "lock_free (sc_pc (tk_send c))" and "segs_inv c ps (q # qs)"
    and "peers (fi_base (tk_a c)) (fi_base (tk_b c)) ha" and "peers (fi_base (tk_b c)) (fi_base (tk_a c)) hb" and "ret = int (36 + length q)"
  shows "\<exists>a wa b wb. exchange ha hb junk now ret (sender c, tk_wa c) (tk_b c, tk_wb c) = Some ((a, wa), (b, wb)) \<and>
    talk_inv data (c\<lparr>tk_send := (tk_send c)\<lparr>sc_st := fi_out a\<rparr>, tk_a := a, tk_wa := wa, tk_b := b, tk_wb := wb\<rparr>) \<and>
    out_rep (fi_out a) (ps @ [q]) qs"
proof -
  let ?s = "sc_st (tk_send c)" and ?w = "o_cwc (sc_st (tk_send c))"
  have inv: "send_inv data (tk_send c)" "hosts_inv c" "reader_inv data c" using assms(1) by (simp_all add: talk_inv_def)
  note r = segs_inv_rep [OF inv(1) assms(3)]
  have lt: "stream_len (ps @ [q]) < 1000" using assms(3) by (simp add: segs_inv_def Let_def)
  have syn: "synced (sender c) (tk_b c) ps (q # qs)" "length q \<le> unat (max_data_sz (fi_base (tk_b c)))"
    using assms(3) by (simp_all add: segs_inv_def Let_def)
  obtain i j where h: "host_ok (sender c) (tk_wa c) i" "host_ok (tk_b c) (tk_wb c) j" using inv(2) by (auto simp: hosts_inv_def sender_def)
  have p: "peers (fi_base (sender c)) (fi_base (tk_b c)) ha" "peers (fi_base (tk_b c)) (fi_base (sender c)) hb" using assms(4,5) by (simp_all add: sender_def)
  from exchange_ok [OF syn(1) lt h p syn(2) assms(6), of junk now] obtain wa b wb t where
    ex: "exchange ha hb junk now ret (sender c, tk_wa c) (tk_b c, tk_wb c) = Some (((sender c)\<lparr>fi_out := t\<rparr>, wa), (b, wb))"
      "synced ((sender c)\<lparr>fi_out := t\<rparr>) b (ps @ [q]) qs" "acked ?s ps q qs t" "host_ok ((sender c)\<lparr>fi_out := t\<rparr>) wa i" "host_ok b wb j"
      "fi_base b = fi_base (tk_b c)" "got (fi_in (tk_b c)) (fi_in b) q" "polite_step\<^sup>*\<^sup>* (fi_in (tk_b c)) (fi_in b)"
    by (auto simp: sender_def)
  obtain k where k: "get_window_sz k \<noteq> 0" "o_cwc t = cwc_on_ack k ?w" using ex(3) by (auto simp: acked_def)
  let ?left = "length (sc_data (tk_send c)) + length (sc_rest (tk_send c))"
  have "unat (congection_win_sz ?w) + unat (mtu ?w) * (length qs + 1 + ?left + 1) < 18446744073709551616"
    using assms(3) by (simp add: segs_inv_def Let_def)
  then have cong: "unat (congection_win_sz ?w) + unat (mtu ?w) + unat (mtu ?w) * (length qs + ?left + 1) < 18446744073709551616"
    by (simp add: algebra_simps)
  then have nw: "unat (congection_win_sz ?w) + unat (mtu ?w) < 2 ^ 64" by simp
  then have add: "unat (congection_win_sz ?w + mtu ?w) = unat (congection_win_sz ?w) + unat (mtu ?w)" by (intro unat_plus_no_wrap) simp
  have snd: "send_inv data ((tk_send c)\<lparr>sc_st := t\<rparr>)"
    using seg_step_inv [OF inv(1) assms(2) r(1) acked_seg_step [OF ex(3) lt] win_open_ack [OF r(3) k(1) nw k(2)]] .
  have rd: "recv_inv (fi_in b)" "wants (tk_want c) (fi_in b)" "unat (tk_want c) + length (delivered (fi_in b)) = length data"
    using inv(3) recv_inv_steps [OF ex(8)] ex(7) by (simp_all add: reader_inv_def got_def wants_def)
  let ?d = "c\<lparr>tk_send := (tk_send c)\<lparr>sc_st := t\<rparr>, tk_a := (sender c)\<lparr>fi_out := t\<rparr>, tk_wa := wa, tk_b := b, tk_wb := wb\<rparr>"
  have "segs_inv ?d (ps @ [q]) qs"
    using assms(3) ex(2,6,7) k(2) cong add fut_inv_seg_step [OF _ r(2) acked_seg_step [OF ex(3) lt]]
    by (simp add: segs_inv_def sender_def got_def cwc_on_ack_def Let_def)
  then have "talk_inv data ?d"
    using snd rd ex(4-6) inv(2) by (auto simp: talk_inv_def hosts_inv_def reader_inv_def sender_def)
  with ex(1,3) show ?thesis by (auto simp: acked_def)
qed

text \<open>The reader keeps it.\<close>

lemma talk_inv_reader:
  assumes "talk_inv data c" and "recv_proc [T_client] (tk_want c) (fi_in (tk_b c)) = Some (n, t)"
  shows "talk_inv data (c\<lparr>tk_b := put_in t (tk_b c), tk_want := n\<rparr>)" "read_less t n (fi_in (tk_b c)) (tk_want c)"
proof -
  let ?s = "fi_in (tk_b c)"
  obtain ps qs where c: "segs_inv c ps qs" using assms(1) by (auto simp: talk_inv_def)
  have inv: "recv_inv ?s" "wants (tk_want c) ?s" "in_wpc ?s = W_Idle" "unat (tk_want c) + length (delivered ?s) = length data"
    using assms(1) by (auto simp: talk_inv_def reader_inv_def hosts_inv_def host_ok_def)
  note rd = reader_ok [OF inv(1,3,2) assms(2)]
  then show "read_less t n ?s (tk_want c)" by simp
  have "polite_step\<^sup>*\<^sup>* ?s t" using rd(1) by (rule r_into_rtranclp)
  then have t: "recv_inv t" "in_inv t" using recv_inv_steps inv(1) recv_inv_def by blast+
  have fr: "read_frame ?s t" "wants n t" "unat n + length (delivered t) = length data" using rd(2) inv(4) by simp_all
  have "segs_inv (c\<lparr>tk_b := put_in t (tk_b c), tk_want := n\<rparr>) ps qs"
    using c fr(1) t(2) by (simp add: segs_inv_def synced_def sender_def put_in_def read_frame_def Let_def)
  then show "talk_inv data (c\<lparr>tk_b := put_in t (tk_b c), tk_want := n\<rparr>)"
    using assms(1) t(1) fr by (auto simp: talk_inv_def hosts_inv_def reader_inv_def put_in_def read_frame_def host_ok_def)
qed

section \<open>Every run ends\<close>

definition outstanding :: "out_st \<Rightarrow> nat" where
  "outstanding s = unat (cwp_send_off (o_cwp s)) - unat (cwp_off (o_cwp s))"

definition rank_send :: "send_cfg \<Rightarrow> nat" where
  "rank_send c = (case sc_pc c of S_Top \<Rightarrow> 1 | S_Futures fs \<Rightarrow> 2 + length fs | S_Sleep_seg n \<Rightarrow> 3 + length (sc_futs c)
     | S_Check_seg n \<Rightarrow> 4 + length (sc_futs c) | S_Loop \<Rightarrow> 5 + length (sc_futs c) | _ \<Rightarrow> 0)"

definition talk_less :: "(talk_cfg \<times> talk_cfg) set" where
  "talk_less = measures [\<lambda>c. length (sc_rest (tk_send c)), \<lambda>c. length (sc_data (tk_send c)), \<lambda>c. outstanding (sc_st (tk_send c)),
     \<lambda>c. buf_empty (sc_st (tk_send c)), \<lambda>c. rank_send (tk_send c), \<lambda>c. unat (tk_want c), \<lambda>c. not_empty (fi_in (tk_b c)),
     \<lambda>c. rank_read (fi_in (tk_b c))]"

lemma quiet_less: "quiet (tk_send c) d \<Longrightarrow> (c\<lparr>tk_send := d\<rparr>, c) \<in> talk_less"
  by (erule quiet.cases) (auto simp: talk_less_def outstanding_def rank_send_def)

lemma talk_inv_step:
  assumes "talk c d" and "talk_inv data c"
  shows "talk_inv data d \<and> (d, c) \<in> talk_less"
  using assms(1)
proof (cases rule: talk.cases)
  case (thread s)
  have inv: "send_inv data (tk_send c)" using assms(2) by (simp add: talk_inv_def)
  from send_thread_cases [OF inv thread(2)] have "(d, c) \<in> talk_less"
  proof
    assume "\<exists>n f. puts n f (tk_send c) s"
    then obtain n f where p: "puts n f (tk_send c) s" by blast
    then have "0 < n" "n \<le> length (sc_data (tk_send c))" by (simp_all add: puts_def)
    then have "length (sc_data s) < length (sc_data (tk_send c))" by (simp add: puts_sel(3) [OF p])
    then show ?thesis using puts_sel(4) [OF p] thread(1) by (simp add: talk_less_def)
  qed (use quiet_less thread(1) in simp)
  then show ?thesis using talk_inv_thread [OF assms(2) thread(2)] thread(1) by simp
next
  case (round ps q qs ret ha hb junk now a wa b wb)
  obtain ps' qs' where sg: "segs_inv c ps' qs'" using assms(2) by (auto simp: talk_inv_def)
  have rep: "out_rep (sc_st (tk_send c)) ps' qs'" using sg by (simp add: segs_inv_def synced_def sender_def Let_def)
  then have eq: "ps' = ps" "qs' = q # qs" using out_rep_unique round(3) by blast+
  from talk_inv_round [OF assms(2) round(2) sg [unfolded eq] round(5,6,4), of junk now] round(7)
  have d: "talk_inv data d" "out_rep (fi_out a) (ps @ [q]) qs" unfolding round(1) by auto
  have "0 < length q" using round(3) by (auto simp: out_rep_def buf_rep_def chain_append)
  moreover have "outstanding (sc_st (tk_send c)) = length q + stream_len qs" "outstanding (fi_out a) = stream_len qs"
    using out_rep_nat(1,2) [OF round(3)] out_rep_nat(1,2) [OF d(2)] by (simp_all add: outstanding_def)
  ultimately have "outstanding (fi_out a) < outstanding (sc_st (tk_send c))" by linarith
  then show ?thesis using d(1) unfolding round(1) by (simp add: talk_less_def)
next
  case (reader n t)
  from talk_inv_reader [OF assms(2) reader(2)] show ?thesis
    unfolding reader(1) by (auto simp: talk_less_def read_less_def put_in_def)
qed

text \<open>A connection stops only when \<open>send\<close> has returned and the reader has what it asked for.\<close>

definition talk_done :: "u8 list \<Rightarrow> talk_cfg \<Rightarrow> bool" where
  "talk_done data c \<longleftrightarrow> sc_pc (tk_send c) = S_Return \<and> tk_want c = 0 \<and> in_cpc (fi_in (tk_b c)) = C_Idle \<and> delivered (fi_in (tk_b c)) = data"

lemma send_stuck:
  assumes "send_inv data c" and "out_rep (sc_st c) ps qs" and "fut_inv c ps qs" and "send_thread c = None"
  shows "sc_pc c = S_Return \<and> qs = [] \<or> lock_free (sc_pc c) \<and> qs \<noteq> []"
proof -
  have pc: "pc_inv c ps qs" using assms(1) out_rep_unique [OF assms(2)] by (auto simp: send_inv_def)
  show ?thesis
  proof (cases "sc_pc c")
    case (S_Sleep_seg n)
    then show ?thesis using pc assms(4) by (auto simp: send_thread_def pc_inv_def lock_free_def Let_def split: if_splits)
  next
    case (S_Futures fs)
    then obtain f fs' where fs: "fs = f # fs'" "sob_sem (o_buf (sc_st c)) f = 0" using assms(4) by (cases fs) (auto simp: send_thread_def Let_def split: if_splits)
    then have "f \<in> starts (slots_len ps) qs" using assms(3) S_Futures by (auto simp: fut_inv_def futs_left_def fut_ok_def)
    then show ?thesis using S_Futures by (auto simp: lock_free_def)
  next
    case (S_Check_seg n)
    then show ?thesis using assms(4) by (auto simp: send_thread_def Let_def split: if_splits sum.splits)
  qed (use pc assms(4) in \<open>auto simp: send_thread_def pc_inv_def Let_def split: if_splits\<close>)
qed

lemma talk_stuck_done:
  assumes "talk_inv data c" and "\<forall>d. \<not> talk c d"
  shows "talk_done data c"
proof -
  let ?s = "fi_in (tk_b c)"
  obtain ps qs where c: "send_inv data (tk_send c)" "segs_inv c ps qs" using assms(1) by (auto simp: talk_inv_def)
  note r = segs_inv_rep [OF c]
  have "send_thread (tk_send c) = None" using assms(2) talk.thread [of c] by (cases "send_thread (tk_send c)") auto
  moreover have "fut_inv (tk_send c) ps qs" using c(2) by (simp add: segs_inv_def Let_def)
  ultimately have st: "sc_pc (tk_send c) = S_Return \<and> qs = [] \<or> lock_free (sc_pc (tk_send c)) \<and> qs \<noteq> []"
    using send_stuck [OF c(1) r(1)] by blast
  have nil: "qs = []"
  proof (rule ccontr)
    assume "qs \<noteq> []"
    then obtain q qs' where qs: "qs = q # qs'" and lf: "lock_free (sc_pc (tk_send c))" using st by (cases qs) auto
    obtain ha hb where p: "peers (fi_base (tk_a c)) (fi_base (tk_b c)) ha" "peers (fi_base (tk_b c)) (fi_base (tk_a c)) hb"
      using assms(1) by (auto simp: talk_inv_def hosts_inv_def)
    from talk_inv_round [OF assms(1) lf c(2) [unfolded qs] p refl, of undefined 0] obtain a wa b wb where
      "exchange ha hb undefined 0 (int (36 + length q)) (sender c, tk_wa c) (tk_b c, tk_wb c) = Some ((a, wa), (b, wb))" by blast
    then show False using talk.round [OF lf r(1) [unfolded qs] refl p] assms(2) by blast
  qed
  with st have ret: "sc_pc (tk_send c) = S_Return" by blast
  with r(2) nil have "sc_data (tk_send c) = []" "sc_rest (tk_send c) = []" by (simp_all add: pc_inv_def)
  then have acc: "accepted ?s = data" using c nil by (simp add: segs_inv_def send_inv_def Let_def)
  have rd: "recv_inv ?s" "wants (tk_want c) ?s" "in_wpc ?s = W_Idle" "unat (tk_want c) + length (delivered ?s) = length data"
    using assms(1) by (auto simp: talk_inv_def reader_inv_def hosts_inv_def host_ok_def)
  have all: "accepted ?s = delivered ?s @ pending ?s" using rd(1) by (simp add: recv_inv_def polite_inv_def in_abs_of_def)
  have "recv_proc [T_client] (tk_want c) ?s = None"
    using assms(2) talk.reader [of c] by (cases "recv_proc [T_client] (tk_want c) ?s") auto
  from reader_stuck [OF rd(1,3,2) this] rd(4) acc all have "tk_want c = 0 \<and> in_cpc ?s = C_Idle"
    by (auto simp: word_unat_eq_iff)
  with ret rd(4) acc all show ?thesis by (auto simp: talk_done_def)
qed

lemma wf_talk_less: "wf talk_less"
  by (simp add: talk_less_def)

section \<open>Opening a connection\<close>

text \<open>A socket over newly created shared memory, after the constructor has set the MTU.\<close>

definition fresh_sock :: "socket_sock_base \<Rightarrow> full_impl" where
  "fresh_sock b = full_new b ((on_init zero_mem)\<lparr>rwc := congection_window_control (max_data_sz b) (rwc (on_init zero_mem))\<rparr>)"

lemma fresh_sock_sel:
  "fi_base (fresh_sock b) = b" "ep_of (fresh_sock b) = fresh_endpoint" "fi_recv_worker (fresh_sock b) = worker_ctor"
  "fi_send_worker (fresh_sock b) = worker_ctor" "o_cwc (fi_out (fresh_sock b)) = \<lparr>receiver_win_sz = 1000, congection_win_sz = 100, mtu = max_data_sz b\<rparr>"
  "sob_buf (o_buf (fi_out (fresh_sock b))) = (\<lambda>_. 0)" "fi_in (fresh_sock b) = in_init (rwp (on_init zero_mem))"
  by (simp_all add: fresh_sock_def full_new_def ep_of_def fresh_endpoint_def Let_def in_init_def congection_window_control_def
      on_init_def init_below_numeral mem_tags_def zero_mem_def OUTPUT_CONGECTION_START_SZ_def INPUT_WINDOW_SZ_def OUTPUT_WINDOW_SZ_def)

lemma fresh_out_rep:
  "out_rep ((fi_out (fresh_sock b))\<lparr>o_cwp := scw_force_move_start q (cwp (on_init zero_mem))\<rparr>) [] []"
  using unat_u32_bound [of q]
  by (simp add: out_rep_def buf_rep_def fresh_sock_def full_new_def scw_force_move_start_def cwp_flush_def
      on_init_def init_below_numeral mem_tags_def zero_mem_def OUTPUT_WINDOW_SZ_def)

text \<open>The client after its handshake, and the server after its own.\<close>

lemma client_opened:
  assumes "full_handshake False x cin (fresh_sock b) = Some (r, a)"
  shows "\<exists>m \<in> set cin. fi_state a = ESTABLISHED \<and> fi_base a = b \<and> fi_send_worker a = worker_ctor \<and> fi_recv_worker a = worker_ctor \<and>
    in_wpc (fi_in a) = W_Idle \<and> fi_out a = (fi_out (fresh_sock b))\<lparr>o_cwp := scw_force_move_start (get_seq m + 1) (cwp (on_init zero_mem))\<rparr>"
proof -
  obtain e where e: "handshake False x cin fresh_endpoint = Some (r, e)" "a = put_ep e (fresh_sock b)"
    using assms by (auto simp: full_handshake_def fresh_sock_sel split: option.splits)
  from client_established [OF e(1)] fresh_endpoint_sel(1,5) obtain m where
    "m \<in> set cin" "ep_state e = ESTABLISHED" "ep_cwp e = scw_force_move_start (get_seq m + 1) (cwp (on_init zero_mem))" by auto
  with e(2) show ?thesis by (intro bexI [of _ m]) (simp_all add: put_ep_def fresh_sock_sel in_init_def)
qed

lemma server_opened:
  assumes "full_handshake True y sin (fresh_sock b) = Some (r, s)"
  shows "fi_state s = ESTABLISHED" "fi_base s = b" "fi_recv_worker s = worker_ctor" "fi_in s = in_init (established_rwp (y + 1))"
    "\<exists>q. fi_sent s = ep_sent (send_syn_ack y q fresh_endpoint)"
proof -
  obtain e where e: "handshake True y sin fresh_endpoint = Some (r, e)" "s = put_ep e (fresh_sock b)"
    using assms by (auto simp: full_handshake_def fresh_sock_sel split: option.splits)
  from server_established [OF e(1)] fresh_endpoint_sel(1,6) obtain q where
    "ep_state e = ESTABLISHED" "ep_rwp e = established_rwp (y + 1)" "ep_sent e = ep_sent (send_syn_ack y q fresh_endpoint)"
    by (auto simp: established_rwp_def)
  with e(2) show "fi_state s = ESTABLISHED" "fi_base s = b" "fi_recv_worker s = worker_ctor" "fi_in s = in_init (established_rwp (y + 1))"
      "\<exists>q. fi_sent s = ep_sent (send_syn_ack y q fresh_endpoint)"
    by (auto simp: put_ep_def fresh_sock_sel in_init_def)
qed

text \<open>
  The configuration when the client calls \<open>send\<close> and the server \<open>recv\<close>: \<open>x\<close> and \<open>y\<close> are the random
  numbers of the two sides, \<open>cin\<close> and \<open>sin\<close> the messages that arrive during the handshakes.
\<close>

definition open_talk ::
  "u32 \<Rightarrow> msg list \<Rightarrow> u32 \<Rightarrow> msg list \<Rightarrow> u8 list \<Rightarrow> socket_sock_base \<times> world \<Rightarrow> socket_sock_base \<times> world \<Rightarrow> talk_cfg option" where
  "open_talk x cin y sin data A B =
     (case full_handshake False x cin (fresh_sock (fst A)) of
        None \<Rightarrow> None
      | Some (ms, a) \<Rightarrow>
          (case full_send x ms data a of
             None \<Rightarrow> None
           | Some (th, a') \<Rightarrow>
               (case full_recv y sin [] (word_of_nat (length data)) (fresh_sock (fst B)) of
                  None \<Rightarrow> None
                | Some (n, out, b) \<Rightarrow>
                    Some \<lparr>tk_send = th, tk_a = a', tk_wa = snd A, tk_b = b, tk_wb = snd B, tk_want = n\<rparr>)))"

text \<open>The network between the two sockets: both hosts can receive, the addresses mirror each other, and a
  segment of the client fits into the server's buffer.\<close>

definition linked :: "socket_sock_base \<times> world \<Rightarrow> socket_sock_base \<times> world \<Rightarrow> bool" where
  "linked A B \<longleftrightarrow> (\<exists>i. host_ok (fresh_sock (fst A)) (snd A) i) \<and> (\<exists>j. host_ok (fresh_sock (fst B)) (snd B) j) \<and>
     (\<exists>h. peers (fst A) (fst B) h) \<and> (\<exists>h. peers (fst B) (fst A) h) \<and>
     0 < unat (max_data_sz (fst A)) \<and> unat (max_data_sz (fst A)) < 65536 \<and> unat (max_data_sz (fst A)) \<le> unat (max_data_sz (fst B))"

lemma put_in_same [simp]: "put_in (fi_in s) s = s"
  by (simp add: put_in_def)

lemma open_talk_Some:
  assumes "open_talk x cin y sin data A B = Some c"
  obtains ms a ms' b where "full_handshake False x cin (fresh_sock (fst A)) = Some (ms, a)" "full_handshake True y sin (fresh_sock (fst B)) = Some (ms', b)"
    "c = \<lparr>tk_send = send_call data (fi_out a), tk_a = a\<lparr>fi_send_worker := worker_start (fi_send_worker a), fi_recv_worker := worker_start (fi_recv_worker a)\<rparr>,
      tk_wa = snd A, tk_b = b\<lparr>fi_recv_worker := worker_start (fi_recv_worker b)\<rparr>, tk_wb = snd B, tk_want = word_of_nat (length data)\<rparr>"
proof -
  from assms obtain ms a th a' n out b' where o: "full_handshake False x cin (fresh_sock (fst A)) = Some (ms, a)" "full_send x ms data a = Some (th, a')"
      "full_recv y sin [] (word_of_nat (length data)) (fresh_sock (fst B)) = Some (n, out, b')"
      "c = \<lparr>tk_send = th, tk_a = a', tk_wa = snd A, tk_b = b', tk_wb = snd B, tk_want = n\<rparr>"
    by (auto simp: open_talk_def split: option.splits)
  have "fi_state a = ESTABLISHED" using client_opened [OF o(1)] by blast
  then have "full_handshake False x ms a = Some (ms, a)"
    by (simp add: full_handshake_def handshake_def get_state_def ep_of_def put_ep_def)
  with o(2) have "th = send_call data (fi_out a)"
      "a' = a\<lparr>fi_send_worker := worker_start (fi_send_worker a), fi_recv_worker := worker_start (fi_recv_worker a)\<rparr>"
    by (simp_all add: full_send_def Let_def)
  moreover obtain ms' b where "full_handshake True y sin (fresh_sock (fst B)) = Some (ms', b)" "n = word_of_nat (length data)"
      "b' = b\<lparr>fi_recv_worker := worker_start (fi_recv_worker b)\<rparr>"
    using o(3) by (auto simp: full_recv_def Let_def put_in_def split: option.splits)
  ultimately show ?thesis using that [OF o(1)] o(4) by simp
qed

lemma open_talk_inv:
  assumes "open_talk x cin y sin data A B = Some c" and "linked A B" and "\<forall>m \<in> set cin. \<exists>s \<in> set (fi_sent (tk_b c)). same_segment m s"
    and "length data < 1000" and "unat (y + 1) + 1000 \<le> 4294967296"
  shows "talk_inv data c"
proof -
  from open_talk_Some [OF assms(1)] obtain ms a ms' b where
    o: "full_handshake False x cin (fresh_sock (fst A)) = Some (ms, a)" "full_handshake True y sin (fresh_sock (fst B)) = Some (ms', b)"
    and c: "c = \<lparr>tk_send = send_call data (fi_out a), tk_a = a\<lparr>fi_send_worker := worker_start (fi_send_worker a), fi_recv_worker := worker_start (fi_recv_worker a)\<rparr>,
      tk_wa = snd A, tk_b = b\<lparr>fi_recv_worker := worker_start (fi_recv_worker b)\<rparr>, tk_wb = snd B, tk_want = word_of_nat (length data)\<rparr>" by blast
  note sv = server_opened [OF o(2)]
  from client_opened [OF o(1)] obtain m where m: "m \<in> set cin" and cl: "fi_state a = ESTABLISHED" "fi_base a = fst A"
      "fi_send_worker a = worker_ctor" "fi_recv_worker a = worker_ctor" "in_wpc (fi_in a) = W_Idle"
      "fi_out a = (fi_out (fresh_sock (fst A)))\<lparr>o_cwp := scw_force_move_start (get_seq m + 1) (cwp (on_init zero_mem))\<rparr>" by blast
  have "get_seq m = y"
    using m assms(3) sv(5) by (auto simp: c send_syn_ack_def ep_send_def fresh_endpoint_sel same_segment_def handshake_fields)
  then have out: "fi_out a = (fi_out (fresh_sock (fst A)))\<lparr>o_cwp := scw_force_move_start (y + 1) (cwp (on_init zero_mem))\<rparr>" using cl(6) by simp
  have rep: "out_rep (fi_out a) [] []" unfolding out by (rule fresh_out_rep)
  have cwc: "o_cwc (fi_out a) = \<lparr>receiver_win_sz = 1000, congection_win_sz = 100, mtu = max_data_sz (fst A)\<rparr>" by (simp add: out fresh_sock_sel)
  have start: "cwp_start (o_cwp (fi_out a)) = seq_to_size (y + 1)" by (simp add: out scw_force_move_start_def cwp_flush_def)
  have w: "win_open (fi_out a)" using assms(2) by (auto simp: win_open_def cwc bounded_win_sz_def linked_def)
  have n: "unat (word_of_nat (length data) :: size_t) = length data" using assms(4) by (intro unat_word_of_nat_u64) simp
  have s: "send_inv data (tk_send c)"
    unfolding c talk_cfg.select_convs
    by (rule send_start_inv) (use rep w in \<open>auto simp: send_start_def win_open_def intro!: exI [of _ "fi_out a"] exI [of _ "[]"]\<close>)
  have "synced (sender c) (tk_b c) [] []"
    using rep cl sv(1-4) assms(5) in_inv_init [of "y + 1"] start
    by (simp add: synced_def c sender_def send_call_def is_active_def worker_start_def worker_ctor_def out_rep_def in_init_def established_rwp_eq)
  moreover have "unat (max_data_sz (fst A)) * (length data + 1) \<le> 65536 * 1000"
    using assms(2,4) by (intro mult_le_mono) (simp_all add: linked_def)
  ultimately have "segs_inv c [] []"
    using assms(2,4) sv(2,4) by (simp add: segs_inv_def c send_call_def cwc fut_inv_def futs_left_def in_init_def linked_def)
  moreover have "hosts_inv c"
    using assms(2) cl sv(2-4)
    by (auto simp: hosts_inv_def c linked_def host_ok_def fresh_sock_sel is_active_def worker_start_def worker_ctor_def in_init_def)
  moreover have "reader_inv data c"
    using sv(4) n in_inv_init abs_inv_init polite_inv_init
    by (auto simp: reader_inv_def c recv_inv_def wants_def in_init_def)
  ultimately show ?thesis using s by (auto simp: talk_inv_def)
qed

interpretation tk: ending_system "talk_inv data" talk "talk_inv data" talk_less for data
  by unfold_locales (auto simp: talk_inv_step wf_talk_less)

text \<open>What a connection that was opened does: no run goes on for ever, the reader has at every time a
  prefix of the data, and a run stops only when both sides are done.\<close>

lemma talk_outcome:
  assumes "talk_inv data c"
  shows "f 0 = c \<Longrightarrow> \<exists>i. \<not> talk (f i) (f (Suc i))" "talk\<^sup>*\<^sup>* c d \<Longrightarrow> \<exists>e. talk\<^sup>*\<^sup>* d e \<and> talk_done data e"
    "talk\<^sup>*\<^sup>* c d \<Longrightarrow> \<forall>e. \<not> talk d e \<Longrightarrow> talk_done data d" "talk\<^sup>*\<^sup>* c d \<Longrightarrow> prefix (delivered (fi_in (tk_b d))) data"
proof -
  show "f 0 = c \<Longrightarrow> \<exists>i. \<not> talk (f i) (f (Suc i))" using tk.no_infinite_run [of data f] assms by simp
  assume run: "talk\<^sup>*\<^sup>* c d"
  then have inv: "talk_inv data d" by (rule tk.steps_inv [OF _ assms])
  from tk.run_ends [OF inv] obtain e where "talk\<^sup>*\<^sup>* d e" "\<forall>v. \<not> talk e v" by blast
  with tk.steps_inv [OF _ inv] talk_stuck_done show "\<exists>e. talk\<^sup>*\<^sup>* d e \<and> talk_done data e" by blast
  show "\<forall>e. \<not> talk d e \<Longrightarrow> talk_done data d" using talk_stuck_done [OF inv] .
  let ?s = "fi_in (tk_b d)"
  obtain ps qs where sg: "segs_inv d ps qs" using inv by (auto simp: talk_inv_def)
  have "accepted ?s = delivered ?s @ pending ?s" "accepted ?s @ concat qs = concat (sc_log (tk_send d))"
      "concat (sc_log (tk_send d)) @ sc_data (tk_send d) @ sc_rest (tk_send d) = data"
    using inv sg by (simp_all add: talk_inv_def reader_inv_def recv_inv_def polite_inv_def in_abs_of_def segs_inv_def send_inv_def Let_def)
  then have "delivered ?s @ (pending ?s @ concat qs @ sc_data (tk_send d) @ sc_rest (tk_send d)) = data" by (metis append.assoc)
  then show "prefix (delivered ?s) data" by (metis prefixI)
qed

text \<open>Two hosts of the loopback network, each with the queue of its socket.\<close>

definition demo_host :: "socket_sock_base \<Rightarrow> world" where
  "demo_host b =
     (let l = sock_label (sb_id b); w = empty_world (small_mq_os\<lparr>mo_names := [l \<mapsto> 0], mo_next := 1\<rparr>)
      in w\<lparr>w_proc := (w_proc w)(sk b := no_proc\<lparr>pr_pc := P_Ready, pr_mq := Some \<lparr>smq_create = True, smq_label = l, smq_mq = 0\<rparr>\<rparr>)\<rparr>)"

lemma demo_linked: "linked (demo_a, demo_host demo_a) (demo_b, demo_host demo_b)"
proof -
  have "host_ok (fresh_sock b) (demo_host b) 0" if "b = demo_a \<or> b = demo_b" for b
    using that
    by (auto simp: host_ok_def fresh_sock_sel in_init_def is_active_def worker_ctor_def sock_queue_ok_def demo_host_def demo_a_def demo_b_def
        Let_def get_mq_def empty_world_def small_mq_os_def mbox_ok_def)
  moreover have "peers demo_a demo_b (zero_iphdr\<lparr>saddr := 16777343, daddr := 16777343\<rparr>)"
      "peers demo_b demo_a (zero_iphdr\<lparr>saddr := 16777343, daddr := 16777343\<rparr>)"
    by (simp_all add: peers_def demo_a_def demo_b_def loop_id_def addr_comparable_def)
  ultimately show ?thesis unfolding linked_def by (auto simp: demo_a_def demo_b_def)
qed

lemma demo_open:
  "\<exists>c. open_talk 5 [demo_syn_ack] 9 [demo_syn, demo_ack] [1, 2, 3] (demo_a, demo_host demo_a) (demo_b, demo_host demo_b) = Some c \<and>
     fi_sent (tk_b c) = [demo_syn_ack]"
proof -
  obtain a b where ab: "handshake False 5 [demo_syn_ack] fresh_endpoint = Some ([], a)"
      "handshake True 9 [demo_syn, demo_ack] fresh_endpoint = Some ([], b)" "ep_sent b = [demo_syn_ack]"
    using demo_handshake by blast
  let ?a = "put_ep a (fresh_sock demo_a)"
  have hs: "full_handshake False 5 [demo_syn_ack] (fresh_sock demo_a) = Some ([], ?a)"
      "full_handshake True 9 [demo_syn, demo_ack] (fresh_sock demo_b) = Some ([], put_ep b (fresh_sock demo_b))"
    using ab by (simp_all add: full_handshake_def fresh_sock_sel)
  have "fi_state ?a = ESTABLISHED" using client_opened [OF hs(1)] by blast
  then have "full_handshake False 5 [] ?a = Some ([], ?a)"
    by (simp add: full_handshake_def handshake_def get_state_def ep_of_def put_ep_def)
  with hs ab(3) show ?thesis by (simp add: open_talk_def full_send_def full_recv_def Let_def put_ep_def put_in_def)
qed

end

