(* ===== verification/Lossy_Net.thy ===== *)
theory Lossy_Net
  imports Connection
begin

text \<open>
  A connection over a network that loses, repeats, delays and reorders datagrams: the sending thread
  of \<open>Send_Path\<close> with the send worker and the acknowledgements, and the receiving side of
  \<open>Recv_Window\<close>. What the reader gets is always a prefix of the data, over any number of windows, and
  when \<open>send\<close> returns, the peer has accepted all of it.
\<close>

section \<open>The receiving side\<close>

definition recv_pos :: "in_st \<Rightarrow> nat" where
  "recv_pos s = unat (rwp_start (in_rwp s)) + unat (rwp_off (in_rwp s))"

text \<open>An acknowledgement of everything before position \<open>n\<close>.\<close>

definition ack_of :: "nat \<Rightarrow> msg \<Rightarrow> bool" where
  "ack_of n k \<longleftrightarrow> get_window_sz k \<noteq> 0 \<and> (0 < n \<and> n \<le> 4294967296 \<longrightarrow> unat (get_seq k) + 1 = n)"

text \<open>From \<open>s\<close> to \<open>t\<close> the bytes \<open>bs\<close> were accepted, and the new acknowledgements name the new position.\<close>

definition recv_moves :: "in_st \<Rightarrow> u8 list \<Rightarrow> in_st \<Rightarrow> bool" where
  "recv_moves s bs t \<longleftrightarrow> accepted t = accepted s @ bs \<and> recv_pos t = recv_pos s + length bs \<and>
     (\<exists>ks. in_acks t = in_acks s @ ks \<and> list_all (ack_of (recv_pos t)) ks)"

lemma recv_moves_same:
  "accepted t = accepted s \<Longrightarrow> in_acks t = in_acks s \<Longrightarrow> recv_pos t = recv_pos s \<Longrightarrow> recv_moves s [] t"
  by (simp add: recv_moves_def)

lemma win_ack_of:
  assumes "rwp_sz (in_rwp s) = INPUT_WINDOW_SZ" and "unat (rwp_off (in_rwp s)) < 1000" and "unat (rwp_start (in_rwp s)) < 4294968296"
  shows "ack_of (recv_pos s) (output_send_ack (size_to_seq (before_begin (rwp_setup (in_rwp s)))) (get_sz (rwp_setup (in_rwp s))))"
proof -
  let ?a = "in_rwp s" and ?w = "rwp_setup (in_rwp s)"
  have "win_ok ?w" using assms by (simp add: win_ok_def)
  then have pos: "unat (win_begin ?w) = recv_pos s" by (simp add: win_ok_begin recv_pos_def)
  have "get_sz ?w = 1000 - word_of_nat (unat (rwp_off ?a))" using assms(1) by (simp add: get_sz_def INPUT_WINDOW_SZ_def)
  then have "get_window_sz (output_send_ack q (get_sz ?w)) \<noteq> 0" for q using good_ack_sent [OF assms(2)] by (simp add: good_ack_def)
  moreover have "get_seq (output_send_ack q n) = q" for q n by (simp add: output_send_ack_def msg_access_defs)
  ultimately show ?thesis
    using unat_seq_pred [of "win_begin ?w"] pos by (simp add: ack_of_def size_to_seq_before_begin)
qed

lemma recv_moves_ack:
  assumes "rwp_sz (in_rwp u) = INPUT_WINDOW_SZ" and "unat (rwp_off (in_rwp u)) < 1000" and "unat (rwp_start (in_rwp u)) < 4294968296"
    and "accepted u = accepted s @ bs" and "in_acks u = in_acks s" and "recv_pos u = recv_pos s + length bs"
  shows "recv_moves s bs (send_win_ack u)" "recv_moves s bs ((send_win_ack u)\<lparr>in_wpc := pc\<rparr>)"
proof -
  have "recv_pos (send_win_ack u) = recv_pos u" by (simp add: recv_pos_def)
  then show "recv_moves s bs (send_win_ack u)" "recv_moves s bs ((send_win_ack u)\<lparr>in_wpc := pc\<rparr>)"
    using assms(4-6) win_ack_of [OF assms(1-3)] by (auto simp: recv_moves_def send_win_ack_def Let_def recv_pos_def)
qed

lemma recv_moves_tail:
  assumes "rwp_sz (in_rwp u) = INPUT_WINDOW_SZ" and "unat (rwp_off (in_rwp u)) \<le> 1000" and "unat (rwp_start (in_rwp u)) < 4294968296"
    and "accepted u = accepted s @ bs" and "in_acks u = in_acks s" and "recv_pos u = recv_pos s + length bs"
  shows "recv_moves s bs (move_tail u)"
proof (cases "get_sz (rwp_setup (in_rwp u)) = 0")
  case True
  then show ?thesis using assms(4-6) by (simp add: move_tail_def recv_moves_def recv_pos_def)
next
  case False
  with assms(1,2) have "unat (rwp_off (in_rwp u)) < 1000" by (simp add: rwp_full_iff_unat)
  with False recv_moves_ack(2) [OF assms(1) _ assms(3-6)] show ?thesis by (simp add: move_tail_def)
qed

lemma on_msg_moves:
  assumes "in_inv s" and "msg_ok m" and "in_wpc s = W_Idle" and "on_msg m s = Inr t"
  shows "recv_moves s [] t \<or> unat (get_seq m) = recv_pos s \<and> recv_moves s (get_data m) t"
proof -
  let ?w = "rwp_setup (in_rwp s)" and ?n = "data_len m"
  have inv: "rwp_sz (in_rwp s) = INPUT_WINDOW_SZ" "unat (rwp_off (in_rwp s)) < 1000" "unat (rwp_start (in_rwp s)) < 4294968296"
    using assms(1,3) by (auto simp: in_inv_def word_unat_eq_iff)
  have n: "unat ?n < 4611686018427387904" using assms(2) by (simp add: msg_ok_def)
  show ?thesis
  proof (cases "contains ?w (receiver_window2 (seq_to_size (get_seq m)) ?n) \<and> seq_to_size (get_seq m) = win_begin ?w")
    case True
    then have seq: "unat (get_seq m) = recv_pos s"
      using win_ok_begin [OF in_inv_win_ok [OF assms(1)]] unat_seq_to_size [of "get_seq m"] by (simp add: recv_pos_def)
    have fit: "unat (rwp_off (in_rwp s)) + unat ?n \<le> 1000" using True in_order_contained [OF assms(1) n] by blast
    then have off: "unat (rwp_off (in_rwp s) + ?n) = unat (rwp_off (in_rwp s)) + unat ?n"
      using unat_plus_no_wrap [of "rwp_off (in_rwp s)" ?n] by simp
    let ?u = "stored_in m s"
    have t: "t = (if wrote_win_sz (in_rwp s) = 0 then ?u\<lparr>in_wpc := W_Signal_not_empty\<rparr> else move_tail ?u)"
      using on_msg_stores [OF assms(1,2) seq [unfolded recv_pos_def] fit] assms(4) by simp
    have pos: "recv_pos ?u = recv_pos s + length (get_data m)" using off length_get_data [OF assms(2)] by (simp add: recv_pos_def)
    have "recv_moves s (get_data m) (move_tail ?u)"
      using fit off inv pos by (intro recv_moves_tail) simp_all
    moreover have "recv_moves s (get_data m) (?u\<lparr>in_wpc := W_Signal_not_empty\<rparr>)"
      using pos by (simp add: recv_moves_def recv_pos_def)
    ultimately show ?thesis using seq t by simp
  next
    case False
    then have "t = send_win_ack s" using assms(4) unfolding on_msg_def Let_def by (simp only: if_False sum.inject)
    then show ?thesis using recv_moves_ack(1) [OF inv, of s "[]"] by simp
  qed
qed

lemma in_exec_moves:
  assumes "in_inv s" and "ev_ok ev" and "in_exec ev s = Some (Inr t)"
  shows "recv_moves s [] t \<or> (\<exists>m. ev = E_msg m \<and> unat (get_seq m) = recv_pos s \<and> recv_moves s (get_data m) t)"
proof (cases ev)
  case (E_msg m)
  then have "msg_ok m" "in_wpc s = W_Idle" "on_msg m s = Inr t" using assms(2,3) by (auto simp: ev_ok_def in_exec_def split: if_splits)
  from on_msg_moves [OF assms(1) this] E_msg show ?thesis by blast
next
  case E_worker
  then have w: "worker_step s = Some t" using assms(3) by (auto simp: in_exec_def)
  have inv: "rwp_sz (in_rwp s) = INPUT_WINDOW_SZ" "unat (rwp_off (in_rwp s)) \<le> 1000" "unat (rwp_start (in_rwp s)) < 4294968296"
    using assms(1) by (simp_all add: in_inv_def)
  have "recv_moves s [] t"
  proof (cases "in_wpc s")
    case W_Relock
    with w recv_moves_tail [OF inv, of s "[]"] show ?thesis by (simp add: worker_step_def)
  next
    case W_Relock_flushed
    let ?u = "s\<lparr>in_rwp := on_buffer_flushed (in_rwp s)\<rparr>"
    have full: "rwp_off (in_rwp s) = 1000" "unat (rwp_start (in_rwp s)) < 4294967296" using assms(1) W_Relock_flushed by (simp_all add: in_inv_def)
    then have "unat (rwp_start (in_rwp s) + 1000) = unat (rwp_start (in_rwp s)) + 1000"
      using unat_plus_no_wrap [of "rwp_start (in_rwp s)" 1000] by simp
    then have "recv_moves s [] ((send_win_ack ?u)\<lparr>in_wpc := W_Idle\<rparr>)"
      using inv(1) full by (intro recv_moves_ack(2)) (simp_all add: on_buffer_flushed_eq recv_pos_def INPUT_WINDOW_SZ_def)
    with w W_Relock_flushed show ?thesis by (simp add: worker_step_def)
  qed (use w in \<open>auto simp: worker_step_def recv_pos_def intro!: recv_moves_same split: if_splits\<close>)
  then show ?thesis ..
next
  case (E_request n)
  then show ?thesis using assms(3)
    by (auto simp: in_exec_def client_flush_request_def client_flush_now_def recv_pos_def Let_def intro!: recv_moves_same split: if_splits sum.splits)
next
  case E_client
  then show ?thesis using assms(3)
    by (cases "in_cpc s")
      (auto simp: in_exec_def client_step_def client_flush_now_def recv_pos_def Let_def intro!: recv_moves_same split: if_splits sum.splits)
qed

section \<open>The sending side\<close>

text \<open>
  The segments \<open>log\<close> that the thread has put into the buffer since the stream stood at \<open>b\<close>: \<open>ds\<close> in
  the windows before, \<open>ps\<close> acknowledged and \<open>qs\<close> outstanding in the current one.
\<close>

definition log_rep :: "nat \<Rightarrow> u8 list list \<Rightarrow> out_st \<Rightarrow> u8 list list \<Rightarrow> u8 list list \<Rightarrow> u8 list list \<Rightarrow> bool" where
  "log_rep b log s ds ps qs \<longleftrightarrow> out_rep s ps qs \<and> log = ds @ ps @ qs \<and> unat (cwp_start (o_cwp s)) = b + stream_len ds"

lemma log_rep_unique:
  assumes "log_rep b log s ds ps qs" and "log_rep b log s ds' ps' qs'"
  shows "ds' = ds \<and> ps' = ps \<and> qs' = qs"
proof -
  have "ps' = ps" "qs' = qs" using out_rep_unique [of s ps' qs' ps qs] assms by (simp_all add: log_rep_def)
  then show ?thesis using assms by (auto simp: log_rep_def)
qed

lemma log_rep_same: "log_rep b log s ds ps qs \<Longrightarrow> out_rep t ps qs \<Longrightarrow> o_cwp t = o_cwp s \<Longrightarrow> log_rep b log t ds ps qs"
  by (simp add: log_rep_def)

text \<open>The number of the oldest outstanding segment.\<close>

lemma log_rep_seq:
  assumes "log_rep b log s ds ps qs" and "stream_len ps < 1000" and "b + stream_len log < 4294967296"
  shows "unat (size_to_seq (cwp_start (o_cwp s) + word_of_nat (stream_len ps))) = b + stream_len (ds @ ps)"
proof -
  have st: "unat (cwp_start (o_cwp s)) = b + stream_len ds" "log = ds @ ps @ qs" using assms(1) by (simp_all add: log_rep_def)
  then have "b + stream_len ds + stream_len ps < 4294967296" using assms(3) by simp
  then show ?thesis
    using st(1) assms(2) unat_plus_no_wrap [of "cwp_start (o_cwp s)" "word_of_nat (stream_len ps)"]
    by (simp add: unat_word_of_nat_u64 unat_size_to_seq)
qed

lemma output_on_retry_cwp: "output_on_retry m s = Inr t \<Longrightarrow> o_cwp t = o_cwp s"
  by (auto simp: output_on_retry_def scw_retry_def Let_def split: sum.splits)

lemma stale_ack_step:
  assumes "out_rep s ps qs" and "unat (cwp_start (o_cwp s)) + 1000 \<le> 4294967296"
    and "unat (get_seq m) + 1 < unat (cwp_start (o_cwp s)) + stream_len ps"
  shows "scw_on_ack now m s = Some (Inr s)"
proof -
  let ?w = "cwp_setup (o_cwp s)"
  note nat = out_rep_nat [OF assms(1)]
  have b: "unat (win_begin ?w) = unat (cwp_start (o_cwp s)) + stream_len ps" by (simp add: win_ok_begin [OF nat(4)] nat(1))
  have e: "unat (win_end ?w) = unat (cwp_start (o_cwp s)) + 1000"
    using assms(1) by (simp add: win_ok_end [OF nat(4)] out_rep_def)
  have le: "stream_len ps \<le> 1000" using nat(3) by simp
  have q: "unat (seq_to_size (get_seq m) + 1) = unat (get_seq m) + 1"
    using unat_u32_bound [of "get_seq m"] unat_plus_no_wrap [of "seq_to_size (get_seq m)" 1] by simp
  have "\<not> msg_in_win ?w m" "\<not> msg_in_prev_win ?w m"
    using assms(2,3) b e q le unat_u32_bound [of "get_seq m"]
    by (simp_all add: msg_in_win_def msg_in_prev_win_def contains_single [OF nat(4)])
  then show ?thesis by (simp add: scw_on_ack_def Let_def)
qed

lemma dup_ack_cwp:
  assumes "out_rep s ps (q # qs)" and "unat (cwp_start (o_cwp s)) + 1000 \<le> 4294967296" and "stream_len ps < 1000"
    and "unat (get_seq m) + 1 = unat (cwp_start (o_cwp s)) + stream_len ps" and "output_on_ack ESTABLISHED now m s = Some (Inr t)"
  shows "o_cwp t = o_cwp s"
proof -
  let ?s = "s\<lparr>o_cwc := cwc_on_ack m (o_cwc s)\<rparr>"
  have "out_rep ?s ps (q # qs)" using assms(1) by (simp add: out_rep_def)
  from dup_ack_step [OF this, of m now] assms(2-5) show ?thesis
    by (auto simp: output_on_ack_def dest!: output_on_retry_cwp split: if_splits)
qed

text \<open>Positions in the stream of segments.\<close>

lemma stream_len_take_mono:
  assumes "list_all (\<lambda>p. p \<noteq> []) xs" and "i < j" and "j \<le> length xs"
  shows "stream_len (take i xs) < stream_len (take j xs)"
proof -
  have "take j xs = take i xs @ take (j - i) (drop i xs)" using assms(2) by (simp flip: take_add)
  moreover have "take (j - i) (drop i xs) \<noteq> []" "list_all (\<lambda>p. p \<noteq> []) (take (j - i) (drop i xs))"
    using assms by (auto simp: list_all_iff dest!: in_set_takeD in_set_dropD)
  then have "0 < stream_len (take (j - i) (drop i xs))" by (cases "take (j - i) (drop i xs)") auto
  ultimately show ?thesis by simp
qed

lemma stream_len_take_inj:
  assumes "list_all (\<lambda>p. p \<noteq> []) xs" and "i \<le> length xs" and "j \<le> length xs" and "stream_len (take i xs) = stream_len (take j xs)"
  shows "i = j"
  using stream_len_take_mono [OF assms(1), of i j] stream_len_take_mono [OF assms(1), of j i] assms(2-4) by (cases i j rule: linorder_cases) auto

lemma stream_len_take_le: "stream_len (take i xs) \<le> stream_len xs"
proof -
  have "stream_len xs = stream_len (take i xs) + stream_len (drop i xs)" by (simp flip: stream_len_simps(3))
  then show ?thesis by simp
qed

lemma ack_moves:
  assumes rep: "log_rep b log s ds ps qs" and ps: "stream_len ps < 1000" and ne: "list_all (\<lambda>p. p \<noteq> []) log"
    and lap: "b + stream_len log + 1000 \<le> 4294967296" and i: "i \<le> length log" "qs \<noteq> [] \<or> i \<noteq> length (ds @ ps)"
    and m: "unat (get_seq m) + 1 = b + stream_len (take i log)" and t: "output_on_ack ESTABLISHED now m s = Some (Inr t)"
  shows "\<exists>ds' ps' qs'. log_rep b log t ds' ps' qs' \<and> seg_step s ps qs t ps' qs' \<and> length (ds' @ ps') = max i (length (ds @ ps)) \<and>
    (o_cwc t = cwc_on_ack m (o_cwc s) \<or> o_cwc t = cwc_on_retry (cwc_on_ack m (o_cwc s)))"
proof -
  have out: "out_rep s ps qs" and log: "log = ds @ ps @ qs" and st: "unat (cwp_start (o_cwp s)) = b + stream_len ds"
    using rep by (simp_all add: log_rep_def)
  have st1: "unat (cwp_start (o_cwp s)) + 1000 \<le> 4294967296" using lap log st by simp
  consider "i < length (ds @ ps)" | "i = length (ds @ ps)" | "length (ds @ ps) < i" by linarith
  then show ?thesis
  proof cases
    case 1
    let ?s = "s\<lparr>o_cwc := cwc_on_ack m (o_cwc s)\<rparr>"
    have "stream_len (take i log) < stream_len (take (length (ds @ ps)) log)"
      by (rule stream_len_take_mono [OF ne 1]) (simp add: log)
    then have "unat (get_seq m) + 1 < unat (cwp_start (o_cwp ?s)) + stream_len ps" using m st by (simp add: log)
    moreover have "out_rep ?s ps qs" using out by (simp add: out_rep_def)
    ultimately have "t = ?s" using stale_ack_step [of ?s ps qs m now] st1 t by (simp add: output_on_ack_def)
    then have "log_rep b log t ds ps qs" "seg_step s ps qs t ps qs" "o_cwc t = cwc_on_ack m (o_cwc s)"
      using rep ps \<open>out_rep ?s ps qs\<close> by (simp_all add: log_rep_def seg_step_same cwc_on_ack_def)
    then show ?thesis using 1 by (intro exI [of _ ds] exI [of _ ps] exI [of _ qs]) (simp add: max_def)
  next
    case 2
    with i obtain q qs' where qs: "qs = q # qs'" by (cases qs) auto
    have n: "unat (get_seq m) + 1 = unat (cwp_start (o_cwp s)) + stream_len ps" using m st 2 by (simp add: log)
    from peer_dup_ack_ok [OF out [unfolded qs] _ ps n t] st1 qs
    have "seg_step s ps qs t ps qs" "o_cwc t = cwc_on_ack m (o_cwc s) \<or> o_cwc t = cwc_on_retry (cwc_on_ack m (o_cwc s))" by simp_all
    moreover from this(1) have "log_rep b log t ds ps qs"
      using log_rep_same [OF rep] dup_ack_cwp [OF out [unfolded qs] st1 ps n t] by (simp add: seg_step_def)
    ultimately show ?thesis using 2 by (intro exI [of _ ds] exI [of _ ps] exI [of _ qs]) simp
  next
    case 3
    let ?as = "take (i - length (ds @ ps)) qs" and ?bs = "drop (i - length (ds @ ps)) qs"
    have as: "?as \<noteq> []" "out_rep s ps (?as @ ?bs)" "take i log = ds @ ps @ ?as" using 3 i(1) out by (auto simp: log)
    have n: "unat (get_seq m) + 1 = unat (cwp_start (o_cwp s)) + stream_len (ps @ ?as)" using m st as(3) by simp
    have "unat (cwp_start (o_cwp s)) + 1000 \<le> 2 ^ 32" using st1 by simp
    note pre = as(2,1) this n
    from peer_ack_ok [OF pre t] obtain ps' qs' where seg: "seg_step s ps (?as @ ?bs) t ps' qs'" "o_cwc t = cwc_on_ack m (o_cwc s)" by blast
    from output_on_ack_ok [OF pre, of now] t have ex: "if stream_len (ps @ ?as) = 1000 then out_rep t [] [] \<and> cwp_start (o_cwp t) = cwp_start (o_cwp s) + 1000
       else out_rep t (ps @ ?as) ?bs \<and> cwp_start (o_cwp t) = cwp_start (o_cwp s)" by auto
    have len: "length (ds @ ps @ ?as) = i" using arg_cong [OF as(3), of length] i(1) by simp
    show ?thesis
    proof (cases "stream_len (ps @ ?as) = 1000")
      case True
      have "stream_len ps + (stream_len ?as + stream_len ?bs) \<le> 1000" using out_rep_nat(3) [OF as(2)] by (simp only: stream_len_simps)
      then have "stream_len ?bs = 0" using True by simp
      moreover have "list_all (\<lambda>p. p \<noteq> []) ?bs" using ne by (auto simp: log list_all_iff dest: in_set_dropD)
      ultimately have "?bs = []" by (cases ?bs) auto
      then have all: "ps @ ?as = ps @ qs" by (metis append_Nil2 append_take_drop_id)
      have "unat (cwp_start (o_cwp s) + 1000) = unat (cwp_start (o_cwp s)) + 1000"
        using st1 unat_plus_no_wrap [of "cwp_start (o_cwp s)" 1000] by simp
      then have "log_rep b log t (ds @ ps @ qs) [] []" using ex True st all by (simp add: log_rep_def log)
      moreover have "ps' = []" "qs' = []" using seg(1) ex True out_rep_unique [of t ps' qs' "[]" "[]"] by (simp_all add: seg_step_def)
      ultimately show ?thesis
        using seg len all 3 by (intro exI [of _ "ds @ ps @ qs"] exI [of _ "[]"]) (simp add: max_def)
    next
      case False
      then have "log_rep b log t ds (ps @ ?as) ?bs" using ex st by (simp add: log_rep_def log)
      moreover have "ps' = ps @ ?as" "qs' = ?bs" using seg(1) ex False out_rep_unique [of t ps' qs' "ps @ ?as" ?bs] by (simp_all add: seg_step_def)
      ultimately show ?thesis
        using seg len 3 by (intro exI [of _ ds] exI [of _ "ps @ ?as"] exI [of _ ?bs]) (simp add: max_def)
    qed
  qed
qed

lemma ack_total:
  assumes rep: "log_rep b log s ds ps qs" and ps: "stream_len ps < 1000" and ne: "list_all (\<lambda>p. p \<noteq> []) log"
    and lap: "b + stream_len log + 1000 \<le> 4294967296" and i: "i \<le> length log" "qs \<noteq> [] \<or> i \<noteq> length (ds @ ps)"
    and m: "unat (get_seq m) + 1 = b + stream_len (take i log)"
  shows "\<exists>t. output_on_ack ESTABLISHED now m s = Some (Inr t)"
proof -
  have out: "out_rep s ps qs" and log: "log = ds @ ps @ qs" and st: "unat (cwp_start (o_cwp s)) = b + stream_len ds"
    using rep by (simp_all add: log_rep_def)
  have st1: "unat (cwp_start (o_cwp s)) + 1000 \<le> 4294967296" using lap log st by simp
  let ?s = "s\<lparr>o_cwc := cwc_on_ack m (o_cwc s)\<rparr>"
  have out': "out_rep ?s ps qs" using out by (simp add: out_rep_def)
  consider "i < length (ds @ ps)" | "i = length (ds @ ps)" | "length (ds @ ps) < i" by linarith
  then show ?thesis
  proof cases
    case 1
    have "stream_len (take i log) < stream_len (take (length (ds @ ps)) log)"
      by (rule stream_len_take_mono [OF ne 1]) (simp add: log)
    then have "unat (get_seq m) + 1 < unat (cwp_start (o_cwp ?s)) + stream_len ps" using m st by (simp add: log)
    then show ?thesis using stale_ack_step [OF out', of m now] st1 by (simp add: output_on_ack_def)
  next
    case 2
    with i obtain q qs' where qs: "qs = q # qs'" by (cases qs) auto
    let ?f = "?s\<lparr>o_fr := fst (fr_on_ack m (o_fr s))\<rparr>" and ?m = "load_msg (sob_buf (o_buf s)) (slots_len ps + off_msg_data)"
    have f: "out_rep ?f ps ([] @ q # qs')" using out' by (simp add: out_rep_def qs)
    have "get_seq ?m = size_to_seq (cwp_start (o_cwp ?f) + word_of_nat (stream_len (ps @ [])))"
      using out_rep_slot [of s ps "[]" q qs'] out by (simp add: qs)
    from output_on_retry_ok [OF f this] have "\<exists>t. output_on_retry ?m ?f = Inr t" by blast
    moreover have "unat (get_seq m) + 1 = unat (cwp_start (o_cwp ?s)) + stream_len ps" using m st 2 by (simp add: log)
    ultimately show ?thesis using dup_ack_step [OF out', of m now] st1 ps by (simp add: output_on_ack_def)
  next
    case 3
    let ?as = "take (i - length (ds @ ps)) qs" and ?bs = "drop (i - length (ds @ ps)) qs"
    have as: "?as \<noteq> []" "out_rep s ps (?as @ ?bs)" "take i log = ds @ ps @ ?as" using 3 i(1) out by (auto simp: log)
    have "unat (get_seq m) + 1 = unat (cwp_start (o_cwp s)) + stream_len (ps @ ?as)" using m st as(3) by simp
    from output_on_ack_ok [OF as(2,1) _ this, of now] st1 show ?thesis by auto
  qed
qed

section \<open>The network\<close>

text \<open>
  A connection over a network that may lose, repeat, delay and reorder every datagram. \<open>nt_wire\<close> are all
  segments that the send worker has ever sent, and the acknowledgements are all that the receiving
  side has ever sent: each of them may arrive at any time, any number of times, or never. A
  message is not changed on its way apart from addresses, time stamps and checksum
  (\<open>same_segment\<close>).

  The reader does not ask for more while a full window is drained and not yet replaced, an
  acknowledgement of everything sent is not repeated while nothing is outstanding, and the
  congestion window does not pass the 64-bit range; \<open>Recv_Window\<close> and \<open>Send_Window\<close> show that the
  first two are needed.
\<close>

record net_cfg =
  nt_send :: send_cfg
  nt_wire :: "msg list"
  nt_recv :: in_st

definition set_out :: "out_st \<Rightarrow> net_cfg \<Rightarrow> net_cfg" where
  "set_out t c = c\<lparr>nt_send := (nt_send c)\<lparr>sc_st := t\<rparr>\<rparr>"

text \<open>An acknowledgement that may arrive.\<close>

definition ack_arrives :: "net_cfg \<Rightarrow> msg \<Rightarrow> bool" where
  "ack_arrives c m \<longleftrightarrow> (\<exists>k \<in> set (in_acks (nt_recv c)). same_segment m k) \<and>
     \<not> (sent_buf_empty (cwp_setup (o_cwp (sc_st (nt_send c)))) \<and> msg_in_prev_win (cwp_setup (o_cwp (sc_st (nt_send c)))) m)"

inductive net_step :: "net_cfg \<Rightarrow> net_cfg \<Rightarrow> bool" where
  thread: "send_thread (nt_send c) = Some d \<Longrightarrow> net_step c (c\<lparr>nt_send := d\<rparr>)"
| transmit: "lock_free (sc_pc (nt_send c)) \<Longrightarrow> s = sc_st (nt_send c) \<Longrightarrow> out_rep s ps (q # qs) \<Longrightarrow>
    \<not> is_msg_used (slots_len ps + off_msg_data) (sob_buf (o_buf s)) \<Longrightarrow> next_msg True s = Some (Inr (p, t)) \<Longrightarrow>
    net_step c ((set_out t c)\<lparr>nt_wire := nt_wire c @ [load_msg (sob_buf (o_buf t)) p]\<rparr>)"
| retry: "lock_free (sc_pc (nt_send c)) \<Longrightarrow> s = sc_st (nt_send c) \<Longrightarrow> out_rep s ps (qs @ r # rs) \<Longrightarrow>
    get_seq m = size_to_seq (cwp_start (o_cwp s) + word_of_nat (stream_len (ps @ qs))) \<Longrightarrow> output_on_retry m s = Inr t \<Longrightarrow>
    net_step c (set_out t c)"
| ack: "lock_free (sc_pc (nt_send c)) \<Longrightarrow> s = sc_st (nt_send c) \<Longrightarrow> ack_arrives c m \<Longrightarrow>
    unat (congection_win_sz (o_cwc s)) + unat (mtu (o_cwc s)) < 2 ^ 64 \<Longrightarrow>
    output_on_ack ESTABLISHED now m s = Some (Inr t) \<Longrightarrow> net_step c (set_out t c)"
| arrive: "k \<in> set (nt_wire c) \<Longrightarrow> same_segment m k \<Longrightarrow> msg_ok m \<Longrightarrow> in_exec (E_msg m) (nt_recv c) = Some (Inr r) \<Longrightarrow>
    net_step c (c\<lparr>nt_recv := r\<rparr>)"
| work: "in_exec E_worker (nt_recv c) = Some (Inr r) \<Longrightarrow> net_step c (c\<lparr>nt_recv := r\<rparr>)"
| ask: "\<not> drained (nt_recv c) \<Longrightarrow> in_exec (E_request n) (nt_recv c) = Some (Inr r) \<Longrightarrow> net_step c (c\<lparr>nt_recv := r\<rparr>)"
| read: "in_exec E_client (nt_recv c) = Some (Inr r) \<Longrightarrow> net_step c (c\<lparr>nt_recv := r\<rparr>)"

text \<open>Both sides right after the handshake with the first number \<open>q\<close>, and a call of \<open>send\<close>.\<close>

definition net_start :: "u8 list \<Rightarrow> tcp_seq \<Rightarrow> net_cfg \<Rightarrow> bool" where
  "net_start data q c \<longleftrightarrow> (\<exists>s. nt_send c = send_call data s \<and> out_rep s [] [] \<and> win_open s \<and> cwp_start (o_cwp s) = seq_to_size q) \<and>
     nt_wire c = [] \<and> nt_recv c = in_init (established_rwp q) \<and> 0 < q \<and> unat q + length data + 1000 \<le> 2 ^ 32"

section \<open>Invariant\<close>

text \<open>Message \<open>m\<close> is one of the segments, under the number of its place in the stream.\<close>

definition genuine :: "nat \<Rightarrow> u8 list list \<Rightarrow> msg \<Rightarrow> bool" where
  "genuine b log m \<longleftrightarrow> (\<exists>i < length log. get_data m = log ! i \<and> unat (get_seq m) = b + stream_len (take i log))"

text \<open>The receiving side has the first \<open>j\<close> segments, and has acknowledged no more.\<close>

definition recv_has :: "nat \<Rightarrow> u8 list list \<Rightarrow> nat \<Rightarrow> in_st \<Rightarrow> bool" where
  "recv_has b log j r \<longleftrightarrow> j \<le> length log \<and> accepted r = concat (take j log) \<and> recv_pos r = b + stream_len (take j log) \<and>
     list_all (\<lambda>k. get_window_sz k \<noteq> 0 \<and> (\<exists>i \<le> j. unat (get_seq k) + 1 = b + stream_len (take i log))) (in_acks r)"

definition net_inv :: "u8 list \<Rightarrow> nat \<Rightarrow> net_cfg \<Rightarrow> bool" where
  "net_inv data b c \<longleftrightarrow> send_inv data (nt_send c) \<and> recv_inv (nt_recv c) \<and> 0 < b \<and> b + length data + 1000 \<le> 4294967296 \<and>
     list_all (genuine b (sc_log (nt_send c))) (nt_wire c) \<and>
     (\<exists>ds ps qs j. log_rep b (sc_log (nt_send c)) (sc_st (nt_send c)) ds ps qs \<and>
        recv_has b (sc_log (nt_send c)) j (nt_recv c) \<and> length (ds @ ps) \<le> j)"

lemma send_inv_log:
  assumes "send_inv data c"
  shows "list_all (\<lambda>p. p \<noteq> []) (sc_log c)" "stream_len (sc_log c) \<le> length data" "prefix (concat (sc_log c)) data"
proof -
  have e: "concat (sc_log c) @ sc_data c @ sc_rest c = data" using assms by (simp add: send_inv_def)
  then show "stream_len (sc_log c) \<le> length data" by (auto simp: stream_len_def)
  show "prefix (concat (sc_log c)) data" using e by (auto simp: prefix_def)
  show "list_all (\<lambda>p. p \<noteq> []) (sc_log c)" using assms by (auto simp: send_inv_def list_all_iff)
qed

lemma genuine_mono: "genuine b log m \<Longrightarrow> genuine b (log @ xs) m"
proof -
  assume "genuine b log m"
  then obtain i where "i < length log" "get_data m = log ! i" "unat (get_seq m) = b + stream_len (take i log)" by (auto simp: genuine_def)
  then show ?thesis unfolding genuine_def by (intro exI [of _ i]) (simp add: nth_append)
qed

lemma recv_has_mono:
  assumes "recv_has b log j r"
  shows "recv_has b (log @ xs) j r"
proof -
  have t: "take i (log @ xs) = take i log" if "i \<le> j" for i using that assms by (simp add: recv_has_def)
  then have "(\<exists>i \<le> j. n = b + stream_len (take i (log @ xs))) \<longleftrightarrow> (\<exists>i \<le> j. n = b + stream_len (take i log))" for n by metis
  then show ?thesis using assms t [of j] by (simp add: recv_has_def)
qed

lemma recv_has_step:
  assumes "recv_has b log j r" and "recv_moves r bs t" and "0 < b" and "b + stream_len log \<le> 4294967296"
    and "bs = [] \<and> j' = j \<or> j < length log \<and> bs = log ! j \<and> j' = Suc j"
  shows "recv_has b log j' t"
proof -
  have tk: "take (Suc j) log = take j log @ [log ! j]" if "j < length log" using that by (rule take_Suc_conv_app_nth)
  have pos: "recv_pos t = b + stream_len (take j' log)" "accepted t = concat (take j' log)" "j' \<le> length log" "j \<le> j'"
    using assms(1,2,5) tk by (auto simp: recv_has_def recv_moves_def)
  have "0 < recv_pos t" "recv_pos t \<le> 4294967296" using pos(1) assms(3,4) stream_len_take_le [of j' log] by simp_all
  then have new: "ack_of (recv_pos t) k \<Longrightarrow> get_window_sz k \<noteq> 0 \<and> unat (get_seq k) + 1 = b + stream_len (take j' log)" for k
    unfolding pos(1) [symmetric] by (simp add: ack_of_def)
  obtain ks where ks: "in_acks t = in_acks r @ ks" "list_all (ack_of (recv_pos t)) ks" using assms(2) by (auto simp: recv_moves_def)
  let ?P = "\<lambda>k. get_window_sz k \<noteq> 0 \<and> (\<exists>i \<le> j'. unat (get_seq k) + 1 = b + stream_len (take i log))"
  have "list_all ?P (in_acks r)" using assms(1) pos(4) unfolding recv_has_def list_all_iff by (metis le_trans)
  moreover have "list_all ?P ks" using ks(2) new unfolding list_all_iff by blast
  ultimately show ?thesis using pos(1-3) ks(1) by (simp add: recv_has_def)
qed

text \<open>The receiving side keeps it.\<close>

lemma net_inv_recv:
  assumes inv: "net_inv data b c" and ev: "ev_ok ev" "in_exec ev (nt_recv c) = Some (Inr r)"
    and polite: "\<not> (drained (nt_recv c) \<and> (\<exists>n. ev = E_request n))"
    and wire: "\<And>m. ev = E_msg m \<Longrightarrow> genuine b (sc_log (nt_send c)) m"
  shows "net_inv data b (c\<lparr>nt_recv := r\<rparr>)"
proof -
  let ?log = "sc_log (nt_send c)" and ?s = "nt_recv c"
  have c: "send_inv data (nt_send c)" "recv_inv ?s" "0 < b" "b + length data + 1000 \<le> 4294967296" using inv by (simp_all add: net_inv_def)
  obtain ds ps qs j where j: "log_rep b ?log (sc_st (nt_send c)) ds ps qs" "recv_has b ?log j ?s" "length (ds @ ps) \<le> j"
    using inv by (auto simp: net_inv_def)
  note log = send_inv_log [OF c(1)]
  have lap: "b + stream_len ?log \<le> 4294967296" using log(2) c(4) by simp
  have "polite_step\<^sup>*\<^sup>* ?s r" using in_exec_polite [OF ev polite] by (rule r_into_rtranclp)
  then have r: "recv_inv r" using recv_inv_steps c(2) by blast
  have "in_inv ?s" using c(2) by (simp add: recv_inv_def)
  from in_exec_moves [OF this ev] have "\<exists>j'. recv_has b ?log j' r \<and> j \<le> j'"
  proof
    assume "recv_moves ?s [] r"
    from recv_has_step [OF j(2) this c(3) lap] show ?thesis by blast
  next
    assume "\<exists>m. ev = E_msg m \<and> unat (get_seq m) = recv_pos ?s \<and> recv_moves ?s (get_data m) r"
    then obtain m where m: "ev = E_msg m" "unat (get_seq m) = recv_pos ?s" "recv_moves ?s (get_data m) r" by blast
    from wire [OF m(1)] obtain i where i: "i < length ?log" "get_data m = ?log ! i" "unat (get_seq m) = b + stream_len (take i ?log)"
      by (auto simp: genuine_def)
    have "i = j" using stream_len_take_inj [OF log(1), of i j] i m(2) j(2) by (simp add: recv_has_def)
    with recv_has_step [OF j(2) m(3) c(3) lap, of "Suc j"] i show ?thesis by auto
  qed
  then have "\<exists>ds ps qs j. log_rep b ?log (sc_st (nt_send c)) ds ps qs \<and> recv_has b ?log j r \<and> length (ds @ ps) \<le> j"
    using j(1,3) le_trans by blast
  then show ?thesis using inv r by (simp add: net_inv_def)
qed

lemma genuine_same: "same_segment m k \<Longrightarrow> genuine b log k \<Longrightarrow> genuine b log m"
  by (simp add: genuine_def same_segment_def)

text \<open>The sending side keeps it.\<close>

lemma net_inv_out:
  assumes inv: "net_inv data b c" and rep: "log_rep b (sc_log (nt_send c)) (sc_st (nt_send c)) ds ps qs"
    and t: "log_rep b (sc_log (nt_send c)) t ds' ps' qs'" "seg_step (sc_st (nt_send c)) ps qs t ps' qs'" "win_open t"
    and free: "lock_free (sc_pc (nt_send c))"
    and j: "\<And>j. recv_has b (sc_log (nt_send c)) j (nt_recv c) \<Longrightarrow> length (ds @ ps) \<le> j \<Longrightarrow> length (ds' @ ps') \<le> j"
  shows "net_inv data b (set_out t c)"
proof -
  have out: "out_rep (sc_st (nt_send c)) ps qs" using rep by (simp add: log_rep_def)
  have "send_inv data ((nt_send c)\<lparr>sc_st := t\<rparr>)"
    using seg_step_inv [OF _ free out t(2,3)] inv by (simp add: net_inv_def)
  moreover obtain ds0 ps0 qs0 j where r: "log_rep b (sc_log (nt_send c)) (sc_st (nt_send c)) ds0 ps0 qs0"
      "recv_has b (sc_log (nt_send c)) j (nt_recv c)" "length (ds0 @ ps0) \<le> j" using inv by (auto simp: net_inv_def)
  have "ds0 = ds" "ps0 = ps" using log_rep_unique [OF rep r(1)] by simp_all
  with r(2,3) t(1) j [OF r(2)] have "\<exists>ds ps qs j. log_rep b (sc_log (nt_send c)) t ds ps qs \<and>
      recv_has b (sc_log (nt_send c)) j (nt_recv c) \<and> length (ds @ ps) \<le> j" by blast
  ultimately show ?thesis using inv by (simp add: net_inv_def set_out_def)
qed

lemma send_inv_at:
  assumes "send_inv data c" and "out_rep (sc_st c) ps qs"
  shows "pc_inv c ps qs" "stream_len ps < 1000" "win_open (sc_st c)"
proof -
  obtain ps' qs' where c: "out_rep (sc_st c) ps' qs'" "stream_len ps' < 1000" "pc_inv c ps' qs'" "win_open (sc_st c)"
    using assms(1) by (auto simp: send_inv_def)
  have "ps' = ps" "qs' = qs" using out_rep_unique [OF c(1) assms(2)] by simp_all
  with c show "pc_inv c ps qs" "stream_len ps < 1000" "win_open (sc_st c)" by simp_all
qed

lemma net_inv_puts:
  assumes inv: "net_inv data b c" and p: "puts n f (nt_send c) d" and d: "send_inv data d"
  shows "net_inv data b (c\<lparr>nt_send := d\<rparr>)"
proof -
  let ?c = "nt_send c" and ?p = "take n (sc_data (nt_send c))"
  note sel = puts_sel [OF p]
  obtain ds ps qs j where r: "log_rep b (sc_log ?c) (sc_st ?c) ds ps qs" "recv_has b (sc_log ?c) j (nt_recv c)" "length (ds @ ps) \<le> j"
    using inv by (auto simp: net_inv_def)
  have out: "out_rep (sc_st ?c) ps qs" using r(1) by (simp add: log_rep_def)
  have "pc_inv ?c ps qs" using send_inv_at(1) [OF _ out, of data] inv by (simp add: net_inv_def)
  then have fit: "?p \<noteq> []" "stream_len (ps @ qs) + length ?p \<le> 1000" using p by (auto simp: puts_def pc_inv_def)
  from scw_send_ok [OF out this] sel(6) have "out_rep (sc_st d) ps (qs @ [?p])" "cwp_start (o_cwp (sc_st d)) = cwp_start (o_cwp (sc_st ?c))" by auto
  then have "log_rep b (sc_log d) (sc_st d) ds ps (qs @ [?p])" using r(1) sel(5) by (simp add: log_rep_def)
  moreover have "recv_has b (sc_log d) j (nt_recv c)" using recv_has_mono [OF r(2)] sel(5) by simp
  moreover have "list_all (genuine b (sc_log d)) (nt_wire c)"
    using inv genuine_mono sel(5) by (auto simp: net_inv_def list_all_iff)
  ultimately have "list_all (genuine b (sc_log d)) (nt_wire c) \<and>
      (\<exists>ds ps qs j. log_rep b (sc_log d) (sc_st d) ds ps qs \<and> recv_has b (sc_log d) j (nt_recv c) \<and> length (ds @ ps) \<le> j)"
    using r(3) by blast
  then show ?thesis using inv d by (simp add: net_inv_def)
qed

lemma net_inv_quiet:
  assumes inv: "net_inv data b c" and q: "quiet (nt_send c) d" and d: "send_inv data d"
  shows "net_inv data b (c\<lparr>nt_send := d\<rparr>)"
proof -
  let ?c = "nt_send c"
  obtain ds ps qs j where r: "log_rep b (sc_log ?c) (sc_st ?c) ds ps qs" "recv_has b (sc_log ?c) j (nt_recv c)" "length (ds @ ps) \<le> j"
    using inv by (auto simp: net_inv_def)
  have out: "out_rep (sc_st ?c) ps qs" using r(1) by (simp add: log_rep_def)
  have "pc_inv ?c ps qs" using send_inv_at(1) [OF _ out, of data] inv by (simp add: net_inv_def)
  then have "sc_data ?c = [] \<or> sc_pc ?c \<noteq> S_Top" by (auto simp: pc_inv_def)
  from quiet_same [OF q this] have s: "same_out (sc_st ?c) (sc_st d)" "sc_log d = sc_log ?c" by simp_all
  then have "log_rep b (sc_log d) (sc_st d) ds ps qs" using r(1) same_out_rep [OF s(1)] by (simp add: log_rep_def same_out_def)
  with r(2,3) s(2) have "\<exists>ds ps qs j. log_rep b (sc_log d) (sc_st d) ds ps qs \<and> recv_has b (sc_log d) j (nt_recv c) \<and> length (ds @ ps) \<le> j"
    by metis
  then show ?thesis using inv d s(2) by (simp add: net_inv_def)
qed

lemma net_inv_rep:
  assumes "net_inv data b c" and "out_rep (sc_st (nt_send c)) ps qs"
  shows "\<exists>ds. log_rep b (sc_log (nt_send c)) (sc_st (nt_send c)) ds ps qs" "stream_len ps < 1000" "win_open (sc_st (nt_send c))"
proof -
  have c: "send_inv data (nt_send c)" using assms(1) by (simp add: net_inv_def)
  show "stream_len ps < 1000" "win_open (sc_st (nt_send c))" using send_inv_at(2,3) [OF c assms(2)] by simp_all
  obtain ds ps' qs' where r: "log_rep b (sc_log (nt_send c)) (sc_st (nt_send c)) ds ps' qs'" using assms(1) by (auto simp: net_inv_def)
  then have "out_rep (sc_st (nt_send c)) ps' qs'" by (simp add: log_rep_def)
  from out_rep_unique [OF this assms(2)] r show "\<exists>ds. log_rep b (sc_log (nt_send c)) (sc_st (nt_send c)) ds ps qs" by blast
qed

lemma net_inv_transmit:
  assumes inv: "net_inv data b c" and free: "lock_free (sc_pc (nt_send c))" and out: "out_rep (sc_st (nt_send c)) ps (q # qs)"
    and new: "\<not> is_msg_used (slots_len ps + off_msg_data) (sob_buf (o_buf (sc_st (nt_send c))))"
    and t: "next_msg True (sc_st (nt_send c)) = Some (Inr (p, t))"
  shows "net_inv data b ((set_out t c)\<lparr>nt_wire := nt_wire c @ [load_msg (sob_buf (o_buf t)) p]\<rparr>)"
proof -
  let ?s = "sc_st (nt_send c)" and ?log = "sc_log (nt_send c)"
  from next_msg_ok [OF out new, of True] t have u: "p = slots_len ps + off_msg_data" "out_rep t ps (q # qs)" "o_cwp t = o_cwp ?s"
      "o_cwc t = o_cwc ?s" "sob_sem (o_buf t) = sob_sem (o_buf ?s)" "buf_empty t = buf_empty ?s" by auto
  obtain ds where ds: "log_rep b ?log ?s ds ps (q # qs)" using net_inv_rep(1) [OF inv out] by blast
  note rest = net_inv_rep(2,3) [OF inv out]
  have "seg_step ?s ps (q # qs) t ps (q # qs)" using u rest(1) by (intro seg_step_same) simp_all
  from net_inv_out [OF inv ds log_rep_same [OF ds u(2,3)] this win_open_cwc [OF rest(2) u(4)] free]
  have out': "net_inv data b (set_out t c)" by blast
  note m = stored_msg [OF u(2)]
  have "b + stream_len ?log < 4294967296" using inv send_inv_log(2) [of data "nt_send c"] by (simp add: net_inv_def)
  from log_rep_seq [OF log_rep_same [OF ds u(2,3)] rest(1) this] m(3,4) have "genuine b ?log (load_msg (sob_buf (o_buf t)) p)"
    unfolding genuine_def u(1) using ds by (intro exI [of _ "length (ds @ ps)"]) (simp add: log_rep_def nth_append)
  then show ?thesis using out' by (simp add: net_inv_def set_out_def)
qed

lemma net_inv_retry:
  assumes inv: "net_inv data b c" and free: "lock_free (sc_pc (nt_send c))" and out: "out_rep (sc_st (nt_send c)) ps (qs @ r # rs)"
    and m: "get_seq m = size_to_seq (cwp_start (o_cwp (sc_st (nt_send c))) + word_of_nat (stream_len (ps @ qs)))"
    and t: "output_on_retry m (sc_st (nt_send c)) = Inr t"
  shows "net_inv data b (set_out t c)"
proof -
  let ?s = "sc_st (nt_send c)" and ?qs = "qs @ r # rs"
  from output_on_retry_ok [OF out m] t have u: "out_rep t ps ?qs" "o_cwc t = cwc_on_retry (o_cwc ?s)"
      "sob_sem (o_buf t) = sob_sem (o_buf ?s)" "buf_empty t = buf_empty ?s" by auto
  obtain ds where ds: "log_rep b (sc_log (nt_send c)) ?s ds ps ?qs" using net_inv_rep(1) [OF inv out] by blast
  note rest = net_inv_rep(2,3) [OF inv out]
  have "seg_step ?s ps ?qs t ps ?qs" using u rest(1) by (intro seg_step_same) (simp_all add: cwc_on_retry_def)
  from net_inv_out [OF inv ds log_rep_same [OF ds u(1) output_on_retry_cwp [OF t]] this win_open_retry [OF rest(2) u(2)] free]
  show ?thesis by blast
qed

lemma ack_arrives_at:
  assumes inv: "net_inv data b c" and arr: "ack_arrives c m" and r: "log_rep b (sc_log (nt_send c)) (sc_st (nt_send c)) ds ps qs"
    and j: "recv_has b (sc_log (nt_send c)) j (nt_recv c)"
  shows "\<exists>i \<le> j. i \<le> length (sc_log (nt_send c)) \<and> unat (get_seq m) + 1 = b + stream_len (take i (sc_log (nt_send c))) \<and>
    get_window_sz m \<noteq> 0 \<and> (qs \<noteq> [] \<or> i \<noteq> length (ds @ ps))" "b + stream_len (sc_log (nt_send c)) + 1000 \<le> 4294967296"
proof -
  let ?s = "sc_st (nt_send c)" and ?log = "sc_log (nt_send c)"
  have c: "send_inv data (nt_send c)" "b + length data + 1000 \<le> 4294967296" using inv by (simp_all add: net_inv_def)
  show lap: "b + stream_len ?log + 1000 \<le> 4294967296" using send_inv_log(2) [OF c(1)] c(2) by simp
  have out: "out_rep ?s ps qs" and st: "unat (cwp_start (o_cwp ?s)) = b + stream_len ds" and eq: "?log = ds @ ps @ qs" using r by (simp_all add: log_rep_def)
  obtain i where i: "i \<le> j" "unat (get_seq m) + 1 = b + stream_len (take i ?log)" "get_window_sz m \<noteq> 0"
    using j arr by (auto simp: ack_arrives_def recv_has_def list_all_iff same_segment_def)
  have "qs \<noteq> [] \<or> i \<noteq> length (ds @ ps)"
  proof (rule ccontr)
    assume "\<not> (qs \<noteq> [] \<or> i \<noteq> length (ds @ ps))"
    then have q: "qs = []" "i = length (ds @ ps)" by simp_all
    then have "unat (get_seq m) + 1 = unat (cwp_start (o_cwp ?s)) + stream_len ps" using i(2) st by (simp add: eq)
    then have "msg_in_prev_win (cwp_setup (o_cwp ?s)) m"
      using dup_ack_windows(2) [OF out _ net_inv_rep(2) [OF inv out], of m] lap st by (simp add: eq)
    moreover have "sent_buf_empty (cwp_setup (o_cwp ?s))" using out q(1) by (simp add: sent_buf_empty_def out_rep_def)
    ultimately show False using arr by (simp add: ack_arrives_def)
  qed
  then show "\<exists>i \<le> j. i \<le> length ?log \<and> unat (get_seq m) + 1 = b + stream_len (take i ?log) \<and> get_window_sz m \<noteq> 0 \<and> (qs \<noteq> [] \<or> i \<noteq> length (ds @ ps))"
    using i j by (intro exI [of _ i]) (simp add: recv_has_def)
qed

lemma net_inv_ack:
  assumes inv: "net_inv data b c" and free: "lock_free (sc_pc (nt_send c))" and arr: "ack_arrives c m"
    and cong: "unat (congection_win_sz (o_cwc (sc_st (nt_send c)))) + unat (mtu (o_cwc (sc_st (nt_send c)))) < 2 ^ 64"
    and t: "output_on_ack ESTABLISHED now m (sc_st (nt_send c)) = Some (Inr t)"
  shows "net_inv data b (set_out t c)"
proof -
  let ?s = "sc_st (nt_send c)" and ?log = "sc_log (nt_send c)"
  have ne: "list_all (\<lambda>p. p \<noteq> []) ?log" using inv send_inv_log(1) by (auto simp: net_inv_def)
  obtain ds ps qs j where r: "log_rep b ?log ?s ds ps qs" "recv_has b ?log j (nt_recv c)" "length (ds @ ps) \<le> j" using inv by (auto simp: net_inv_def)
  have out: "out_rep ?s ps qs" using r(1) by (simp add: log_rep_def)
  note rest = net_inv_rep(2,3) [OF inv out] and at = ack_arrives_at [OF inv arr r(1,2)]
  obtain i where i: "i \<le> j" "i \<le> length ?log" "unat (get_seq m) + 1 = b + stream_len (take i ?log)" "get_window_sz m \<noteq> 0"
      "qs \<noteq> [] \<or> i \<noteq> length (ds @ ps)" using at(1) by blast
  from ack_moves [OF r(1) rest(1) ne at(2) i(2,5,3) t] obtain ds' ps' qs' where
    u: "log_rep b ?log t ds' ps' qs'" "seg_step ?s ps qs t ps' qs'" "length (ds' @ ps') = max i (length (ds @ ps))"
      "o_cwc t = cwc_on_ack m (o_cwc ?s) \<or> o_cwc t = cwc_on_retry (cwc_on_ack m (o_cwc ?s))" by blast
  let ?a = "?s\<lparr>o_cwc := cwc_on_ack m (o_cwc ?s)\<rparr>"
  have wo: "win_open ?a" using win_open_ack [OF rest(2) i(4) cong] by simp
  have "win_open t" using u(4) win_open_cwc [OF wo, of t] win_open_retry [OF wo, of t] by auto
  moreover have "length (ds' @ ps') \<le> j'" if "recv_has b ?log j' (nt_recv c)" "length (ds @ ps) \<le> j'" for j'
  proof -
    have "stream_len (take j' ?log) = stream_len (take j ?log)" using that(1) r(2) by (simp add: recv_has_def)
    then have "j' = j" using stream_len_take_inj [OF ne] that(1) r(2) by (simp add: recv_has_def)
    then show ?thesis using u(3) i(1) r(3) by simp
  qed
  ultimately show ?thesis using net_inv_out [OF inv r(1) u(1,2) _ free] by blast
qed

lemma ack_no_fault:
  assumes inv: "net_inv data b c" and arr: "ack_arrives c m"
  shows "\<exists>t. output_on_ack ESTABLISHED now m (sc_st (nt_send c)) = Some (Inr t)"
proof -
  have ne: "list_all (\<lambda>p. p \<noteq> []) (sc_log (nt_send c))" using inv send_inv_log(1) by (auto simp: net_inv_def)
  obtain ds ps qs j where r: "log_rep b (sc_log (nt_send c)) (sc_st (nt_send c)) ds ps qs" "recv_has b (sc_log (nt_send c)) j (nt_recv c)"
    using inv by (auto simp: net_inv_def)
  then have "out_rep (sc_st (nt_send c)) ps qs" by (simp add: log_rep_def)
  note at = ack_arrives_at [OF inv arr r] and ps = net_inv_rep(2) [OF inv this]
  from at(1) show ?thesis using ack_total [OF r(1) ps ne at(2)] by blast
qed

lemma net_inv_step:
  assumes "net_inv data b c" and "net_step c d"
  shows "net_inv data b d"
  using assms(2)
proof (cases rule: net_step.cases)
  case (thread s)
  have c: "send_inv data (nt_send c)" using assms(1) by (simp add: net_inv_def)
  from send_thread_cases [OF c thread(2)] send_thread_inv [OF c thread(2)] show ?thesis
    unfolding thread(1) using net_inv_puts [OF assms(1)] net_inv_quiet [OF assms(1)] by blast
next
  case (transmit s ps q qs p t)
  from net_inv_transmit [OF assms(1) transmit(2) transmit(4-6) [unfolded transmit(3)]] show ?thesis unfolding transmit(1) .
next
  case (retry s ps qs r rs m t)
  from net_inv_retry [OF assms(1) retry(2) retry(4-6) [unfolded retry(3)]] show ?thesis unfolding retry(1) .
next
  case (ack s m now t)
  from net_inv_ack [OF assms(1) ack(2,4) ack(5,6) [unfolded ack(3)]] show ?thesis unfolding ack(1) .
next
  case (arrive k m r)
  have "genuine b (sc_log (nt_send c)) k" using assms(1) arrive(2) by (auto simp: net_inv_def list_all_iff)
  with arrive(3) have "genuine b (sc_log (nt_send c)) m" by (rule genuine_same)
  with arrive(1,4,5) show ?thesis by (auto intro!: net_inv_recv [OF assms(1), of "E_msg m"] simp: ev_ok_def)
next
  case (work r)
  then show ?thesis by (auto intro!: net_inv_recv [OF assms(1), of E_worker] simp: ev_ok_def)
next
  case (ask n r)
  then show ?thesis by (auto intro!: net_inv_recv [OF assms(1), of "E_request n"] simp: ev_ok_def)
next
  case (read r)
  then show ?thesis by (auto intro!: net_inv_recv [OF assms(1), of E_client] simp: ev_ok_def)
qed

lemma net_start_inv:
  assumes "net_start data q c"
  shows "net_inv data (unat q) c"
proof -
  obtain s where s: "nt_send c = send_call data s" "out_rep s [] []" "win_open s" "cwp_start (o_cwp s) = seq_to_size q"
    using assms by (auto simp: net_start_def)
  have c: "nt_wire c = []" "nt_recv c = in_init (established_rwp q)" "0 < unat q" "unat q + length data + 1000 \<le> 4294967296"
    using assms by (simp_all add: net_start_def word_less_nat_alt)
  have "send_inv data (nt_send c)"
    unfolding s(1) using s(2,3) by (intro send_start_inv) (auto simp: send_start_def win_open_def intro!: exI [of _ "[]"])
  moreover have "recv_inv (nt_recv c)" unfolding recv_inv_def c(2) by (rule rp.start_inv) (auto simp: in_start_def)
  moreover have "log_rep (unat q) (sc_log (nt_send c)) (sc_st (nt_send c)) [] [] []" using s by (simp add: log_rep_def send_call_def)
  moreover have "recv_has (unat q) (sc_log (nt_send c)) 0 (nt_recv c)"
    unfolding c(2) by (simp add: recv_has_def recv_pos_def in_init_def established_rwp_eq)
  ultimately show ?thesis using c unfolding net_inv_def by (auto intro!: exI [of _ "[]"])
qed

text \<open>What the reader has, and what \<open>send\<close> promises when it returns.\<close>

lemma net_inv_prefix:
  assumes "net_inv data b c"
  shows "prefix (delivered (nt_recv c) @ pending (nt_recv c)) data" "sc_pc (nt_send c) \<noteq> S_Exn x"
    "sc_pc (nt_send c) = S_Return \<Longrightarrow> delivered (nt_recv c) @ pending (nt_recv c) = data"
proof -
  let ?log = "sc_log (nt_send c)"
  have c: "send_inv data (nt_send c)" "recv_inv (nt_recv c)" using assms by (simp_all add: net_inv_def)
  obtain ds ps qs j where r: "log_rep b ?log (sc_st (nt_send c)) ds ps qs" "recv_has b ?log j (nt_recv c)" "length (ds @ ps) \<le> j"
    using assms by (auto simp: net_inv_def)
  have acc: "delivered (nt_recv c) @ pending (nt_recv c) = concat (take j ?log)" "j \<le> length ?log"
    using c(2) r(2) by (simp_all add: recv_inv_def polite_inv_def in_abs_of_def recv_has_def)
  have e: "concat ?log @ sc_data (nt_send c) @ sc_rest (nt_send c) = data" using c(1) by (simp add: send_inv_def)
  have "concat ?log = concat (take j ?log) @ concat (drop j ?log)" by (simp flip: concat_append)
  then show "prefix (delivered (nt_recv c) @ pending (nt_recv c)) data" using e acc(1) by (auto simp: prefix_def)
  have pc: "pc_inv (nt_send c) ps qs" using send_inv_at(1) [OF c(1)] r(1) by (simp add: log_rep_def)
  then show "sc_pc (nt_send c) \<noteq> S_Exn x" by (auto simp: pc_inv_def)
  assume "sc_pc (nt_send c) = S_Return"
  then have "qs = []" "sc_data (nt_send c) = []" "sc_rest (nt_send c) = []" using pc by (simp_all add: pc_inv_def)
  then show "delivered (nt_recv c) @ pending (nt_recv c) = data" using e r(1,3) acc by (simp add: log_rep_def)
qed

interpretation nw: inv_system "net_start data q" net_step "net_inv data (unat q)" for data q
  by unfold_locales (auto intro: net_start_inv net_inv_step)

section \<open>A concrete run\<close>

lemma thread_run_net: "thread_run n (nt_send c) = Some d \<Longrightarrow> net_step\<^sup>*\<^sup>* c (c\<lparr>nt_send := d\<rparr>)"
proof (induction n arbitrary: c)
  case (Suc n)
  then obtain e where e: "send_thread (nt_send c) = Some e" "thread_run n e = Some d" by (auto split: option.splits)
  have "net_step c (c\<lparr>nt_send := e\<rparr>)" using e(1) by (rule net_step.thread)
  moreover have "net_step\<^sup>*\<^sup>* (c\<lparr>nt_send := e\<rparr>) (c\<lparr>nt_send := d\<rparr>)" using Suc.IH [of "c\<lparr>nt_send := e\<rparr>"] e(2) by simp
  ultimately show ?case by (rule converse_rtranclp_into_rtranclp)
next
  case 0
  then have "c\<lparr>nt_send := d\<rparr> = c" by auto
  then show ?case by simp
qed

definition lossy_demo :: net_cfg where
  "lossy_demo = \<lparr>nt_send = send_call [1, 2, 3] slow_out, nt_wire = [], nt_recv = in_init (established_rwp 100)\<rparr>"

lemma lossy_demo_start: "net_start [1, 2, 3] 100 lossy_demo"
  using slow_out_rep unfolding net_start_def
  by (auto simp: lossy_demo_def slow_out_def win_open_def bounded_win_sz_def established_out_start intro!: exI [of _ slow_out])

lemma lossy_demo_run: "\<exists>d. net_step\<^sup>*\<^sup>* lossy_demo d \<and> accepted (nt_recv d) = [1, 2]"
proof -
  obtain d where d: "thread_run 5 (send_call [1, 2, 3] slow_out) = Some d" "sc_pc d = S_Sleep_seg 1" "out_rep (sc_st d) [] [[1, 2]]"
      "cwp_start (o_cwp (sc_st d)) = 100"
    using slow_sleeps by blast
  let ?c1 = "lossy_demo\<lparr>nt_send := d\<rparr>" and ?q = "set_seq 100 (msg_new None 0)"
  have one: "net_step\<^sup>*\<^sup>* lossy_demo ?c1" using d(1) by (intro thread_run_net) (simp add: lossy_demo_def)
  have free: "lock_free (sc_pc d)" using d(2) by (simp add: lock_free_def)
  have q: "get_seq ?q = size_to_seq (cwp_start (o_cwp (sc_st d)) + word_of_nat (stream_len ([] @ [])))"
    using d(4) by (simp add: msg_access_defs size_to_seq_def)
  let ?s = "(sc_st d)\<lparr>o_cwc := cwc_on_retry (o_cwc (sc_st d))\<rparr>"
  have rep: "out_rep ?s [] ([] @ [1, 2] # [])" using d(3) by (simp add: out_rep_def)
  obtain t where t: "output_on_retry ?q (sc_st d) = Inr t" "out_rep t [] [[1, 2]]" "\<not> is_msg_used (slots_len [] + off_msg_data) (sob_buf (o_buf t))"
      "o_cwp t = o_cwp (sc_st d)"
    using scw_retry_ok [OF rep, of ?q] q by (auto simp: output_on_retry_def)
  have "out_rep (sc_st d) [] ([] @ [1, 2] # [])" using d(3) by simp
  from net_step.retry [of ?c1 "sc_st d" "[]" "[]" "[1, 2]" "[]" ?q t] free q t(1) this
  have two: "net_step ?c1 (set_out t ?c1)" by simp
  let ?c2 = "set_out t ?c1"
  obtain p u where u: "next_msg True t = Some (Inr (p, u))" "p = slots_len [] + off_msg_data" "out_rep u [] [[1, 2]]" "o_cwp u = o_cwp t"
    using next_msg_ok [OF t(2,3), of True] by auto
  let ?m = "load_msg (sob_buf (o_buf u)) p" and ?r = "nt_recv lossy_demo"
  let ?c3 = "(set_out u ?c2)\<lparr>nt_wire := nt_wire ?c2 @ [?m]\<rparr>"
  have three: "net_step ?c2 ?c3"
    by (rule net_step.transmit [OF _ _ t(2,3) u(1)]) (use free in \<open>simp_all add: set_out_def\<close>)
  have m: "msg_ok ?m" "unat (data_len ?m) = 2" "get_data ?m = [1, 2]" "get_seq ?m = 100"
    using stored_msg [OF u(3)] u(2,4) t(4) d(4) by (simp_all add: size_to_seq_def)
  have r: "in_inv ?r" "rwp_start (in_rwp ?r) = 100" "rwp_off (in_rwp ?r) = 0" "rwp_flushed_off (in_rwp ?r) = 0" "in_wpc ?r = W_Idle" "accepted ?r = []"
    by (simp_all add: lossy_demo_def in_init_def established_rwp_eq seq_to_size_def in_inv_def INPUT_WINDOW_SZ_def)
  have "on_msg ?m ?r = Inr ((stored_in ?m ?r)\<lparr>in_wpc := W_Signal_not_empty\<rparr>)"
    using on_msg_stores [OF r(1) m(1)] r m by (simp add: wrote_win_sz_def)
  then have four: "net_step ?c3 (?c3\<lparr>nt_recv := (stored_in ?m ?r)\<lparr>in_wpc := W_Signal_not_empty\<rparr>\<rparr>)"
    using m(1) r(5) by (intro net_step.arrive [of ?m _ ?m]) (simp_all add: same_segment_def in_exec_def set_out_def)
  from one two three four have "net_step\<^sup>*\<^sup>* lossy_demo (?c3\<lparr>nt_recv := (stored_in ?m ?r)\<lparr>in_wpc := W_Signal_not_empty\<rparr>\<rparr>)" by simp
  then show ?thesis using r(6) m(3) by (intro exI [of _ "?c3\<lparr>nt_recv := (stored_in ?m ?r)\<lparr>in_wpc := W_Signal_not_empty\<rparr>\<rparr>"]) simp
qed

section \<open>Property\<close>



end
