(* ===== verification/Net_Progress.thy ===== *)
theory Net_Progress
  imports Lossy_Net
begin

text \<open>
  Recovery over the network of \<open>Lossy_Net\<close>: from every state that a connection can get into, it can go on
  to its end. The receiving side alone can always drain its window and become idle; a segment that
  is outstanding can be sent again and acknowledged after a timeout; so the sending thread is
  never blocked for good.
\<close>

section \<open>The receiving side alone\<close>

text \<open>The steps of the receiving side that need no message, and where they lead.\<close>

inductive settle :: "in_st \<Rightarrow> in_st \<Rightarrow> bool" where
  s_work: "in_exec E_worker s = Some (Inr t) \<Longrightarrow> settle s t"
| s_ask: "\<not> drained s \<Longrightarrow> in_exec (E_request n) s = Some (Inr t) \<Longrightarrow> settle s t"
| s_read: "in_exec E_client s = Some (Inr t) \<Longrightarrow> settle s t"

definition settled :: "in_st \<Rightarrow> bool" where
  "settled s \<longleftrightarrow> in_wpc s = W_Idle \<and> pending s = []"

definition rank_work :: "wpc \<Rightarrow> nat" where
  "rank_work pc = (case pc of W_Signal_not_empty \<Rightarrow> 4 | W_Relock \<Rightarrow> 3 | W_Wait_flushed \<Rightarrow> 2 | W_Relock_flushed \<Rightarrow> 1 | W_Idle \<Rightarrow> 0)"

definition rank_client :: "cpc \<Rightarrow> nat" where
  "rank_client pc = (case pc of C_Relock k \<Rightarrow> 2 | C_Signal_flushed \<Rightarrow> 1 | _ \<Rightarrow> 0)"

definition settle_less :: "(in_st \<times> in_st) set" where
  "settle_less = measures [\<lambda>s. length (pending s), \<lambda>s. rank_work (in_wpc s), not_empty, \<lambda>s. rank_client (in_cpc s)]"

lemma settle_event:
  assumes "settle s t"
  obtains ev where "ev_ok ev" "in_exec ev s = Some (Inr t)" "\<not> (drained s \<and> (\<exists>n. ev = E_request n))" "\<And>m. ev \<noteq> E_msg m"
  using assms
proof (cases rule: settle.cases)
  case s_work
  then show ?thesis using that [of E_worker] by (simp add: ev_ok_def)
next
  case (s_ask n)
  then show ?thesis using that [of "E_request n"] by (simp add: ev_ok_def)
next
  case s_read
  then show ?thesis using that [of E_client] by (simp add: ev_ok_def)
qed

lemma settle_inv:
  assumes "recv_inv s" and "settle s t"
  shows "recv_inv t" "recv_moves s [] t"
proof -
  obtain ev where ev: "ev_ok ev" "in_exec ev s = Some (Inr t)" "\<not> (drained s \<and> (\<exists>n. ev = E_request n))" "\<And>m. ev \<noteq> E_msg m"
    using settle_event [OF assms(2)] by blast
  have "polite_step\<^sup>*\<^sup>* s t" using in_exec_polite [OF ev(1-3)] by (rule r_into_rtranclp)
  then show "recv_inv t" using recv_inv_steps assms(1) by blast
  show "recv_moves s [] t" using in_exec_moves [OF _ ev(1,2)] assms(1) ev(4) by (auto simp: recv_inv_def)
qed

lemma worker_nearer:
  assumes "recv_inv s" and "worker_step s = Some t"
  shows "(t, s) \<in> settle_less"
proof -
  have inv: "in_inv s" "polite_inv (in_abs_of s)" using assms(1) by (simp_all add: recv_inv_def)
  show ?thesis
  proof (cases "in_wpc s")
    case W_Relock_flushed
    then have "length (pending t) = 0" using assms(2) by (auto simp: worker_step_def length_pending on_buffer_flushed_eq)
    then show ?thesis using W_Relock_flushed assms(2) by (cases "pending s") (auto simp: settle_less_def worker_step_def rank_work_def)
  qed (use assms(2) in \<open>auto simp: settle_less_def worker_step_def rank_work_def move_tail_def pending_def send_win_ack_def Let_def split: if_splits\<close>)
qed

lemma flush_nearer:
  assumes "recv_inv s" and "client_flush_now n s = Inr t" and "pending s \<noteq> [] \<and> n \<noteq> 0 \<or> in_cpc s = C_Relock k"
  shows "(t, s) \<in> settle_less"
proof -
  have "in_abs_of t = abs_flush (unat n) (in_abs_of s)" using client_flush_now_ok [of s n] assms(1,2) by (auto simp: recv_inv_def)
  from arg_cong [OF this, of ai_q] arg_cong [OF this, of ai_cpc] arg_cong [OF this, of ai_wpc] arg_cong [OF this, of ai_ne]
  have "pending t = drop (unat n) (pending s)" "in_cpc t = C_Signal_flushed \<or> in_cpc t = C_Idle" "in_wpc t = in_wpc s" "not_empty t = not_empty s"
    by (simp_all add: in_abs_of_def abs_flush_def)
  then show ?thesis using assms(3) by (auto simp: settle_less_def rank_client_def word_unat_eq_iff)
qed

lemma settle_nearer:
  assumes "recv_inv s" and "\<not> settled s"
  shows "\<exists>t. settle s t \<and> (t, s) \<in> settle_less"
proof (cases "worker_step s")
  case (Some t)
  then show ?thesis using worker_nearer [OF assms(1)] s_work [of s t] by (auto simp: in_exec_def)
next
  case None
  have inv: "in_inv s" "abs_inv (in_abs_of s)" "polite_inv (in_abs_of s)" using assms(1) by (simp_all add: recv_inv_def)
  have idle: "in_wpc s = W_Idle \<or> in_wpc s = W_Wait_flushed \<and> complete s = 0"
    using None by (cases "in_wpc s") (auto simp: worker_step_def split: if_splits)
  have fl: "\<exists>t. client_flush_now n s = Inr t" for n using client_flush_now_ok [OF inv(1), of n] by blast
  show ?thesis
  proof (cases "in_cpc s")
    case C_Idle
    then have ne: "pending s \<noteq> []"
      using assms(2) idle inv(3) by (auto simp: settled_def polite_defs in_abs_of_def of_bool_def split: if_splits)
    obtain t where t: "client_flush_now 1000 s = Inr t" using fl by blast
    have "\<not> drained s" using ne wrote_win_sz_0_iff [OF inv(1)] by (simp add: drained_def)
    then have "settle s t" using t C_Idle ne wrote_win_sz_0_iff [OF inv(1)] by (intro s_ask [of s 1000]) (simp_all add: in_exec_def client_flush_request_def)
    moreover have "(t, s) \<in> settle_less" using flush_nearer [OF assms(1) t] ne by simp
    ultimately show ?thesis by blast
  next
    case (C_Wait_not_empty k)
    have "pending s \<noteq> []"
      using C_Wait_not_empty assms(2) idle inv(3) by (auto simp: settled_def polite_defs in_abs_of_def)
    then have "0 < not_empty s" using inv(2) C_Wait_not_empty idle by (auto simp: abs_inv_def in_abs_of_def)
    then have "in_exec E_client s = Some (Inr (s\<lparr>not_empty := not_empty s - 1, in_cpc := C_Relock k\<rparr>))"
      "(s\<lparr>not_empty := not_empty s - 1, in_cpc := C_Relock k\<rparr>, s) \<in> settle_less"
      using C_Wait_not_empty by (simp_all add: in_exec_def client_step_def settle_less_def pending_def)
    then show ?thesis using s_read by blast
  next
    case (C_Relock k)
    obtain t where t: "client_flush_now k s = Inr t" using fl by blast
    then have "in_exec E_client s = Some (Inr t)" using C_Relock by (simp add: in_exec_def client_step_def)
    moreover have "(t, s) \<in> settle_less" using flush_nearer [OF assms(1) t, of k] C_Relock by simp
    ultimately show ?thesis using s_read by blast
  next
    case C_Signal_flushed
    then have "in_exec E_client s = Some (Inr (s\<lparr>complete := complete s + 1, in_cpc := C_Idle\<rparr>))"
      "(s\<lparr>complete := complete s + 1, in_cpc := C_Idle\<rparr>, s) \<in> settle_less"
      by (simp_all add: in_exec_def client_step_def settle_less_def pending_def rank_client_def)
    then show ?thesis using s_read by blast
  qed
qed

interpretation st: recoverable recv_inv settle recv_inv settled settle_less
proof unfold_locales
  show "wf settle_less" by (simp add: settle_less_def)
  show "\<exists>t. settle\<^sup>*\<^sup>* s t \<and> (t, s) \<in> settle_less" if "recv_inv s" "\<not> settled s" for s
    using settle_nearer [OF that] by blast
qed (auto intro: settle_inv)


section \<open>Invariant\<close>

text \<open>Both windows move in whole windows from \<open>b\<close>.\<close>

lemma in_exec_start:
  assumes "in_inv s" and "in_exec ev s = Some (Inr t)" and "\<exists>k. unat (rwp_start (in_rwp s)) = b + 1000 * k"
  shows "\<exists>k. unat (rwp_start (in_rwp t)) = b + 1000 * k"
proof (cases "ev = E_worker \<and> in_wpc s = W_Relock_flushed")
  case True
  then have "unat (rwp_start (in_rwp s)) < 4294967296" "rwp_sz (in_rwp s) = 1000" using assms(1) by (simp_all add: in_inv_def INPUT_WINDOW_SZ_def)
  then have "unat (rwp_start (in_rwp t)) = unat (rwp_start (in_rwp s)) + 1000"
    using True assms(2) unat_plus_no_wrap [of "rwp_start (in_rwp s)" 1000]
    by (auto simp: in_exec_def worker_step_def on_buffer_flushed_eq)
  moreover obtain k where "unat (rwp_start (in_rwp s)) = b + 1000 * k" using assms(3) by blast
  ultimately show ?thesis by (intro exI [of _ "Suc k"]) simp
next
  case False
  then have "rwp_start (in_rwp t) = rwp_start (in_rwp s)"
    using assms(2)
    by (cases ev; cases "in_wpc s"; cases "in_cpc s")
      (auto simp: in_exec_def worker_step_def client_step_def client_flush_request_def client_flush_now_def on_msg_def move_def rwp_flush_inc Let_def
        split: if_splits sum.splits)
  with assms(3) show ?thesis by simp
qed

text \<open>The invariant of \<open>Lossy_Net\<close> with the segments named, and what progress needs besides: every future
  that the thread waits for will be posted, and both windows are aligned.\<close>

definition live_at :: "u8 list \<Rightarrow> nat \<Rightarrow> net_cfg \<Rightarrow> u8 list list \<Rightarrow> u8 list list \<Rightarrow> u8 list list \<Rightarrow> bool" where
  "live_at data b c ds ps qs \<longleftrightarrow> net_inv data b c \<and> log_rep b (sc_log (nt_send c)) (sc_st (nt_send c)) ds ps qs \<and>
     fut_inv (nt_send c) ps qs \<and> (\<exists>k. stream_len ds = 1000 * k) \<and> (\<exists>k. unat (rwp_start (in_rwp (nt_recv c))) = b + 1000 * k) \<and>
     unat (mtu (o_cwc (sc_st (nt_send c)))) < 9223372036854775808"

lemma live_at_out:
  assumes "live_at data b c ds ps qs"
  shows "out_rep (sc_st (nt_send c)) ps qs" "pc_inv (nt_send c) ps qs" "stream_len ps < 1000" "send_inv data (nt_send c)"
proof -
  show o: "out_rep (sc_st (nt_send c)) ps qs" and s: "send_inv data (nt_send c)"
    using assms by (simp_all add: live_at_def log_rep_def net_inv_def)
  show "pc_inv (nt_send c) ps qs" "stream_len ps < 1000" using send_inv_at [OF s o] by simp_all
qed

lemma live_seg_step:
  assumes live: "live_at data b c ds ps qs" and inv: "net_inv data b (set_out t c)"
    and t: "log_rep b (sc_log (nt_send c)) t ds' ps' qs'" "seg_step (sc_st (nt_send c)) ps qs t ps' qs'"
  shows "live_at data b (set_out t c) ds' ps' qs'"
proof -
  have l: "sc_log (nt_send c) = ds @ ps @ qs" "sc_log (nt_send c) = ds' @ ps' @ qs'" using live t(1) by (simp_all add: live_at_def log_rep_def)
  have "ds' = ds \<or> stream_len ds' = stream_len ds + 1000"
  proof (cases "\<exists>as. qs = as @ qs' \<and> ps' = ps @ as")
    case False
    then have "qs' = []" "ps' = []" "stream_len (ps @ qs) = 1000" using t(2) by (auto simp: seg_step_def)
    with l show ?thesis by simp
  qed (use l in auto)
  moreover obtain k where "stream_len ds = 1000 * k" using live by (auto simp: live_at_def)
  ultimately have "stream_len ds' = 1000 * k \<or> stream_len ds' = 1000 * Suc k" by auto
  then have "\<exists>k. stream_len ds' = 1000 * k" by blast
  moreover have "fut_inv ((nt_send c)\<lparr>sc_st := t\<rparr>) ps' qs'"
    using fut_inv_seg_step [OF _ live_at_out(2) [OF live] t(2)] live by (simp add: live_at_def)
  moreover have "mtu (o_cwc t) = mtu (o_cwc (sc_st (nt_send c)))" using t(2) by (simp add: seg_step_def)
  ultimately show ?thesis using live inv t(1) by (auto simp: live_at_def set_out_def)
qed

lemma live_thread:
  assumes live: "live_at data b c ds ps qs" and t: "send_thread (nt_send c) = Some d"
  shows "\<exists>qs'. live_at data b (c\<lparr>nt_send := d\<rparr>) ds ps qs'"
proof -
  note o = live_at_out [OF live]
  have inv: "net_inv data b (c\<lparr>nt_send := d\<rparr>)" using net_inv_step [OF _ net_step.thread [of c d]] live t by (simp add: live_at_def)
  from send_thread_cases [OF o(4) t] show ?thesis
  proof
    assume "\<exists>n f. puts n f (nt_send c) d"
    then obtain n f where p: "puts n f (nt_send c) d" by blast
    let ?p = "take n (sc_data (nt_send c))"
    note sel = puts_sel [OF p]
    have fit: "?p \<noteq> []" "stream_len (ps @ qs) + length ?p \<le> 1000" using p o(2) by (auto simp: puts_def pc_inv_def)
    from scw_send_ok [OF o(1) fit] sel(6) have d: "f = slots_len (ps @ qs)" "out_rep (sc_st d) ps (qs @ [?p])"
        "cwp_start (o_cwp (sc_st d)) = cwp_start (o_cwp (sc_st (nt_send c)))" "o_cwc (sc_st d) = o_cwc (sc_st (nt_send c))"
        "sob_sem (o_buf (sc_st d)) = (sob_sem (o_buf (sc_st (nt_send c))))(slots_len (ps @ qs) := 0)" by auto
    have "live_at data b (c\<lparr>nt_send := d\<rparr>) ds ps (qs @ [?p])"
      using live inv d fut_inv_puts [OF _ p d(1,5)] sel(5) by (simp add: live_at_def log_rep_def)
    then show ?thesis ..
  next
    assume q: "quiet (nt_send c) d"
    have "sc_data (nt_send c) = [] \<or> sc_pc (nt_send c) \<noteq> S_Top" using o(2) by (auto simp: pc_inv_def)
    from quiet_same [OF q this] have s: "same_out (sc_st (nt_send c)) (sc_st d)" "sc_log d = sc_log (nt_send c)" by simp_all
    then have "live_at data b (c\<lparr>nt_send := d\<rparr>) ds ps qs"
      using live inv fut_inv_quiet [OF q] same_out_rep [OF s(1)] by (simp add: live_at_def log_rep_def same_out_def)
    then show ?thesis ..
  qed
qed

lemma live_recv:
  assumes "live_at data b c ds ps qs" and "in_exec ev (nt_recv c) = Some (Inr r)" and "net_inv data b (c\<lparr>nt_recv := r\<rparr>)"
  shows "live_at data b (c\<lparr>nt_recv := r\<rparr>) ds ps qs"
proof -
  have "in_inv (nt_recv c)" using assms(1) by (simp add: live_at_def net_inv_def recv_inv_def)
  from in_exec_start [OF this assms(2)] assms(1,3) show ?thesis by (simp add: live_at_def)
qed


lemma live_transmit:
  assumes live: "live_at data b c ds ps (q # qs)" and free: "lock_free (sc_pc (nt_send c))"
    and new: "\<not> is_msg_used (slots_len ps + off_msg_data) (sob_buf (o_buf (sc_st (nt_send c))))"
    and t: "next_msg True (sc_st (nt_send c)) = Some (Inr (p, t))"
  shows "live_at data b ((set_out t c)\<lparr>nt_wire := nt_wire c @ [load_msg (sob_buf (o_buf t)) p]\<rparr>) ds ps (q # qs)"
proof -
  note o = live_at_out [OF live]
  have inv: "net_inv data b c" "log_rep b (sc_log (nt_send c)) (sc_st (nt_send c)) ds ps (q # qs)" using live by (simp_all add: live_at_def)
  from next_msg_ok [OF o(1) new, of True] t have u: "out_rep t ps (q # qs)" "o_cwp t = o_cwp (sc_st (nt_send c))"
      "o_cwc t = o_cwc (sc_st (nt_send c))" "sob_sem (o_buf t) = sob_sem (o_buf (sc_st (nt_send c)))" "buf_empty t = buf_empty (sc_st (nt_send c))" by auto
  have w: "net_inv data b ((set_out t c)\<lparr>nt_wire := nt_wire c @ [load_msg (sob_buf (o_buf t)) p]\<rparr>)"
    by (rule net_inv_transmit [OF inv(1) free o(1) new t])
  then have "net_inv data b (set_out t c)" by (simp add: net_inv_def set_out_def)
  from live_seg_step [OF live this log_rep_same [OF inv(2) u(1,2)]] u o(3) w show ?thesis
    by (simp add: seg_step_same live_at_def set_out_def)
qed

lemma live_retry:
  assumes live: "live_at data b c ds ps (qs @ r # rs)" and free: "lock_free (sc_pc (nt_send c))"
    and m: "get_seq m = size_to_seq (cwp_start (o_cwp (sc_st (nt_send c))) + word_of_nat (stream_len (ps @ qs)))"
    and t: "output_on_retry m (sc_st (nt_send c)) = Inr t"
  shows "live_at data b (set_out t c) ds ps (qs @ r # rs)"
proof -
  note o = live_at_out [OF live]
  have inv: "net_inv data b c" "log_rep b (sc_log (nt_send c)) (sc_st (nt_send c)) ds ps (qs @ r # rs)" using live by (simp_all add: live_at_def)
  from output_on_retry_ok [OF o(1) m] t have u: "out_rep t ps (qs @ r # rs)" "o_cwc t = cwc_on_retry (o_cwc (sc_st (nt_send c)))"
      "sob_sem (o_buf t) = sob_sem (o_buf (sc_st (nt_send c)))" "buf_empty t = buf_empty (sc_st (nt_send c))" by auto
  from live_seg_step [OF live net_inv_retry [OF inv(1) free o(1) m t] log_rep_same [OF inv(2) u(1) output_on_retry_cwp [OF t]]] u o(3)
  show ?thesis by (simp add: seg_step_same cwc_on_retry_def)
qed

lemma live_ack:
  assumes live: "live_at data b c ds ps qs" and free: "lock_free (sc_pc (nt_send c))" and arr: "ack_arrives c m"
    and cong: "unat (congection_win_sz (o_cwc (sc_st (nt_send c)))) + unat (mtu (o_cwc (sc_st (nt_send c)))) < 2 ^ 64"
    and t: "output_on_ack ESTABLISHED now m (sc_st (nt_send c)) = Some (Inr t)"
  shows "\<exists>ds' ps' qs' i. live_at data b (set_out t c) ds' ps' qs' \<and> i \<le> length (sc_log (nt_send c)) \<and>
    unat (get_seq m) + 1 = b + stream_len (take i (sc_log (nt_send c))) \<and> i \<le> length (ds' @ ps')"
proof -
  let ?log = "sc_log (nt_send c)"
  have inv: "net_inv data b c" "log_rep b ?log (sc_st (nt_send c)) ds ps qs" using live by (simp_all add: live_at_def)
  have ne: "list_all (\<lambda>p. p \<noteq> []) ?log" using send_inv_log(1) [OF live_at_out(4) [OF live]] .
  obtain j where "recv_has b ?log j (nt_recv c)" using inv(1) by (auto simp: net_inv_def)
  note at = ack_arrives_at [OF inv(1) arr inv(2) this]
  obtain i where i: "i \<le> length ?log" "unat (get_seq m) + 1 = b + stream_len (take i ?log)" "qs \<noteq> [] \<or> i \<noteq> length (ds @ ps)" using at(1) by blast
  from ack_moves [OF inv(2) live_at_out(3) [OF live] ne at(2) i(1,3,2) t] obtain ds' ps' qs' where
    u: "log_rep b ?log t ds' ps' qs'" "seg_step (sc_st (nt_send c)) ps qs t ps' qs'" "length (ds' @ ps') = max i (length (ds @ ps))" by blast
  from live_seg_step [OF live net_inv_ack [OF inv(1) free arr cong t] u(1,2)] i(1,2) u(3) show ?thesis by (metis max.cobounded1)
qed

lemma live_step:
  assumes live: "live_at data b c ds ps qs" and "net_step c d"
  shows "\<exists>ds' ps' qs'. live_at data b d ds' ps' qs'"
  using assms(2)
proof (cases rule: net_step.cases)
  case (thread s)
  then show ?thesis using live_thread [OF live] by blast
next
  case (transmit s ps0 q qs0 p t)
  then have "ps0 = ps" "qs = q # qs0" using out_rep_unique live_at_out(1) [OF live] by blast+
  with live_transmit [of data b c ds ps q qs0 p t] live transmit show ?thesis by blast
next
  case (retry s ps0 qs0 r rs m t)
  then have "ps0 = ps" "qs = qs0 @ r # rs" using out_rep_unique live_at_out(1) [OF live] by blast+
  with live_retry [of data b c ds ps qs0 r rs m t] live retry show ?thesis by blast
next
  case (ack s m now t)
  from live_ack [OF live ack(2,4) ack(5,6) [unfolded ack(3)]] show ?thesis unfolding ack(1) by blast
qed (use live_recv [OF live] net_inv_step [OF _ assms(2)] live in \<open>auto simp: live_at_def\<close>)

definition net_live :: "u8 list \<Rightarrow> nat \<Rightarrow> net_cfg \<Rightarrow> bool" where
  "net_live data b c \<longleftrightarrow> (\<exists>ds ps qs. live_at data b c ds ps qs)"

lemma net_start_live:
  assumes "net_start data q c" and "unat (mtu (o_cwc (sc_st (nt_send c)))) < 2 ^ 63"
  shows "net_live data (unat q) c"
proof -
  obtain s where s: "nt_send c = send_call data s" "out_rep s [] []" "cwp_start (o_cwp s) = seq_to_size q" "nt_recv c = in_init (established_rwp q)"
    using assms(1) by (auto simp: net_start_def)
  then have "live_at data (unat q) c [] [] []"
    using assms(2) net_start_inv [OF assms(1)]
    by (simp add: live_at_def log_rep_def send_call_def fut_inv_def futs_left_def in_init_def established_rwp_eq)
  then show ?thesis by (auto simp: net_live_def)
qed


section \<open>A lost segment is recovered\<close>

text \<open>The receiving side settles, and the peer keeps what it has.\<close>

lemma settle_keeps:
  assumes "settle\<^sup>*\<^sup>* s t" and "recv_inv s"
  shows "accepted t = accepted s \<and> recv_pos t = recv_pos s \<and> recv_inv t"
  using assms
proof (induction rule: rtranclp_induct)
  case (step t u)
  then show ?case using settle_inv [of t u] by (simp add: recv_moves_def)
qed simp

lemma settle_net: "settle (nt_recv c) r \<Longrightarrow> net_step c (c\<lparr>nt_recv := r\<rparr>)"
  by (erule settle.cases) (auto intro: net_step.work net_step.ask net_step.read)

lemma live_settle:
  assumes "settle\<^sup>*\<^sup>* (nt_recv c) r" and "live_at data b c ds ps qs"
  shows "net_step\<^sup>*\<^sup>* c (c\<lparr>nt_recv := r\<rparr>) \<and> live_at data b (c\<lparr>nt_recv := r\<rparr>) ds ps qs"
  using assms
proof (induction rule: rtranclp_induct)
  case base
  have "c\<lparr>nt_recv := nt_recv c\<rparr> = c" by simp
  with base show ?case by simp
next
  case (step r r')
  let ?c = "c\<lparr>nt_recv := r\<rparr>" and ?d = "c\<lparr>nt_recv := r'\<rparr>"
  have c: "net_step\<^sup>*\<^sup>* c ?c" "live_at data b ?c ds ps qs" using step by simp_all
  obtain ev where ev: "in_exec ev r = Some (Inr r')" using settle_event [OF step(2)] by blast
  have n: "net_step ?c ?d" using settle_net [of ?c r'] step(2) by simp
  have "net_inv data b ?c" using c(2) by (simp only: live_at_def)
  then have "net_inv data b ?d" using n by (rule net_inv_step)
  with live_recv [OF c(2), of ev r'] ev c(1) n show ?case by simp
qed

lemma reach_settled:
  assumes "live_at data b c ds ps qs"
  shows "\<exists>r. net_step\<^sup>*\<^sup>* c (c\<lparr>nt_recv := r\<rparr>) \<and> live_at data b (c\<lparr>nt_recv := r\<rparr>) ds ps qs \<and> settled r \<and>
    recv_pos r = recv_pos (nt_recv c) \<and> accepted r = accepted (nt_recv c)"
proof -
  have "recv_inv (nt_recv c)" using assms by (simp add: live_at_def net_inv_def)
  moreover from st.reaches_goal [OF this] obtain r where "settle\<^sup>*\<^sup>* (nt_recv c) r" "settled r" by blast
  ultimately show ?thesis using live_settle [OF _ assms] settle_keeps by blast
qed

text \<open>The next segment fits into the window of the peer, since both windows start at the same place.\<close>

lemma live_fits:
  assumes live: "live_at data b c ds ps (q # qs)" and idle: "in_wpc (nt_recv c) = W_Idle" and pos: "recv_pos (nt_recv c) = b + stream_len (ds @ ps)"
  shows "unat (rwp_off (in_rwp (nt_recv c))) + length q \<le> 1000"
proof -
  have inv: "in_inv (nt_recv c)" using live by (simp add: live_at_def net_inv_def recv_inv_def)
  then have off: "unat (rwp_off (in_rwp (nt_recv c))) < 1000" using idle by (auto simp: in_inv_def word_unat_eq_iff)
  obtain i j where ij: "stream_len ds = 1000 * i" "unat (rwp_start (in_rwp (nt_recv c))) = b + 1000 * j" using live by (auto simp: live_at_def)
  have "stream_len ps < 1000" "stream_len (ps @ q # qs) \<le> 1000" using live_at_out(3) [OF live] out_rep_nat(3) [OF live_at_out(1) [OF live]] by simp_all
  have "1000 * j + unat (rwp_off (in_rwp (nt_recv c))) = 1000 * i + stream_len ps" using pos ij by (simp add: recv_pos_def)
  from arg_cong [OF this, of "\<lambda>n. n mod 1000"] off \<open>stream_len ps < 1000\<close> have "unat (rwp_off (in_rwp (nt_recv c))) = stream_len ps" by simp
  then show ?thesis using \<open>stream_len (ps @ q # qs) \<le> 1000\<close> by simp
qed

text \<open>The timeout of the oldest segment halves the congestion window, and the worker sends the segment again.\<close>

lemma resend:
  assumes live: "live_at data b c ds ps (q # qs)" and free: "lock_free (sc_pc (nt_send c))"
  shows "\<exists>t m. net_step\<^sup>*\<^sup>* c ((set_out t c)\<lparr>nt_wire := nt_wire c @ [m]\<rparr>) \<and>
    live_at data b ((set_out t c)\<lparr>nt_wire := nt_wire c @ [m]\<rparr>) ds ps (q # qs) \<and>
    msg_ok m \<and> get_data m = q \<and> unat (data_len m) = length q \<and> unat (get_seq m) = b + stream_len (ds @ ps) \<and>
    unat (congection_win_sz (o_cwc t)) + unat (mtu (o_cwc t)) < 2 ^ 64"
proof -
  let ?s = "sc_st (nt_send c)" and ?log = "sc_log (nt_send c)"
  let ?q = "set_seq (size_to_seq (cwp_start (o_cwp ?s) + word_of_nat (stream_len ps))) (msg_new None 0)"
  note o = live_at_out [OF live]
  have m: "get_seq ?q = size_to_seq (cwp_start (o_cwp ?s) + word_of_nat (stream_len (ps @ [])))" by (simp add: msg_access_defs)
  let ?h = "?s\<lparr>o_cwc := cwc_on_retry (o_cwc ?s)\<rparr>"
  have "out_rep ?h ps ([] @ q # qs)" using o(1) by (simp add: out_rep_def)
  from scw_retry_ok [OF this, of ?q] m obtain t1 where t1: "output_on_retry ?q ?s = Inr t1"
      "\<not> is_msg_used (slots_len ps + off_msg_data) (sob_buf (o_buf t1))" "o_cwc t1 = cwc_on_retry (o_cwc ?s)"
    by (auto simp: output_on_retry_def)
  have o1: "out_rep ?s ps ([] @ q # qs)" using o(1) by simp
  have s1: "net_step c (set_out t1 c)" by (rule net_step.retry [OF free refl o1 m t1(1)])
  have l1: "live_at data b (set_out t1 c) ds ps (q # qs)" using live_retry [OF _ free m t1(1), of data b ds q qs] live by simp
  then have r1: "out_rep t1 ps (q # qs)" using live_at_out(1) [OF l1] by (simp add: set_out_def)
  from next_msg_ok [OF r1 t1(2), of True] obtain p t where t: "next_msg True t1 = Some (Inr (p, t))" "p = slots_len ps + off_msg_data"
      "out_rep t ps (q # qs)" "o_cwp t = o_cwp t1" "o_cwc t = o_cwc t1" by blast
  let ?m = "load_msg (sob_buf (o_buf t)) p"
  have so: "set_out t (set_out t1 c) = set_out t c" "nt_wire (set_out t1 c) = nt_wire c" by (simp_all add: set_out_def)
  have free1: "lock_free (sc_pc (nt_send (set_out t1 c)))" using free by (simp add: set_out_def)
  have e: "sc_st (nt_send (set_out t1 c)) = t1" by (simp add: set_out_def)
  have s2: "net_step (set_out t1 c) ((set_out t c)\<lparr>nt_wire := nt_wire c @ [?m]\<rparr>)"
    using net_step.transmit [OF free1 e [symmetric] r1 t1(2) t(1)] so by simp
  have l2: "live_at data b ((set_out t c)\<lparr>nt_wire := nt_wire c @ [?m]\<rparr>) ds ps (q # qs)"
    using live_transmit [OF l1 free1, unfolded e, OF t1(2) t(1)] so by simp
  have lap: "b + stream_len ?log < 4294967296" using live send_inv_log(2) [OF o(4)] by (simp add: live_at_def net_inv_def)
  have "log_rep b ?log t ds ps (q # qs)" using l2 by (simp add: live_at_def set_out_def)
  from log_rep_seq [OF this o(3) lap] have seq: "unat (get_seq ?m) = b + stream_len (ds @ ps)" using stored_msg(4) [OF t(3)] t(2) by simp
  have "unat (mtu (o_cwc ?s)) < 9223372036854775808" using live by (simp add: live_at_def)
  moreover have "unat (congection_win_sz (o_cwc ?s)) div 2 < 9223372036854775808"
    using unat_u64_bound [of "congection_win_sz (o_cwc ?s)"] by linarith
  ultimately have "unat (congection_win_sz (o_cwc t)) + unat (mtu (o_cwc t)) < 2 ^ 64"
    by (simp add: t(5) t1(3) cwc_on_retry_def max_def unat_div)
  with s1 s2 l2 seq stored_msg(1-3) [OF t(3)] t(2) show ?thesis
    by (intro exI [of _ t] exI [of _ ?m]) simp
qed


text \<open>The segment arrives, and the peer has it.\<close>

lemma arrives_at_peer:
  assumes live: "live_at data b c ds ps (q # qs)" and idle: "in_wpc (nt_recv c) = W_Idle" and wire: "m \<in> set (nt_wire c)"
    and m: "msg_ok m" "get_data m = q" "unat (data_len m) = length q" "unat (get_seq m) = b + stream_len (ds @ ps)"
  shows "\<exists>r. net_step c (c\<lparr>nt_recv := r\<rparr>) \<and> live_at data b (c\<lparr>nt_recv := r\<rparr>) ds ps (q # qs) \<and> b + stream_len (ds @ ps @ [q]) \<le> recv_pos r"
proof -
  let ?s = "nt_recv c" and ?log = "sc_log (nt_send c)"
  have inv: "net_inv data b c" "in_inv ?s" "log_rep b ?log (sc_st (nt_send c)) ds ps (q # qs)" using live by (simp_all add: live_at_def net_inv_def recv_inv_def)
  have log: "?log = ds @ ps @ q # qs" using inv(3) by (simp add: log_rep_def)
  obtain r where r: "on_msg m ?s = Inr r" using on_msg_ok [OF inv(2) m(1) idle] by blast
  then have x: "in_exec (E_msg m) ?s = Some (Inr r)" using idle by (simp add: in_exec_def)
  have n: "net_step c (c\<lparr>nt_recv := r\<rparr>)" by (rule net_step.arrive [OF wire _ m(1) x]) (simp add: same_segment_def)
  then have l: "live_at data b (c\<lparr>nt_recv := r\<rparr>) ds ps (q # qs)" using live_recv [OF live x] net_inv_step [OF inv(1)] by blast
  have "\<exists>ds' ps' qs' j. log_rep b ?log (sc_st (nt_send c)) ds' ps' qs' \<and> recv_has b ?log j ?s \<and> length (ds' @ ps') \<le> j" using inv(1) by (simp add: net_inv_def)
  then obtain j where j: "recv_has b ?log j ?s" "length (ds @ ps) \<le> j" using log_rep_unique [OF inv(3)] by metis
  have mv: "recv_moves ?s [] r \<or> recv_moves ?s q r" using on_msg_moves [OF inv(2) m(1) idle r] m(2) by auto
  have "b + stream_len (ds @ ps @ [q]) \<le> recv_pos r"
  proof (cases "j = length (ds @ ps)")
    case True
    then have pos: "recv_pos ?s = b + stream_len (ds @ ps)" using j(1) by (simp add: recv_has_def log)
    have fit: "unat (rwp_off (in_rwp ?s)) + unat (data_len m) \<le> 1000" using live_fits [OF live idle pos] m(3) by simp
    have sq: "unat (get_seq m) = unat (rwp_start (in_rwp ?s)) + unat (rwp_off (in_rwp ?s))" using m(4) pos by (simp add: recv_pos_def)
    have "accepted r = accepted ?s @ q"
      using on_msg_stores [OF inv(2) m(1) sq fit] r m(2) by (auto split: if_splits)
    moreover have "q \<noteq> []" using send_inv_log(1) [OF live_at_out(4) [OF live]] by (simp add: log)
    ultimately have "recv_moves ?s q r" using mv by (auto simp: recv_moves_def)
    then show ?thesis using pos by (simp add: recv_moves_def)
  next
    case False
    then have "take (length (ds @ ps @ [q])) (take j ?log) = ds @ ps @ [q]" using j(2) by (simp add: log)
    then have "stream_len (ds @ ps @ [q]) \<le> stream_len (take j ?log)" using stream_len_take_le by metis
    moreover have "recv_pos ?s \<le> recv_pos r" using mv by (auto simp: recv_moves_def)
    ultimately show ?thesis using j(1) by (simp add: recv_has_def)
  qed
  with n l show ?thesis by blast
qed

text \<open>A segment that the peer has already is answered by an acknowledgement of everything it has.\<close>

lemma peer_answers:
  assumes live: "live_at data b c ds ps qs" and idle: "in_wpc (nt_recv c) = W_Idle" and wire: "m \<in> set (nt_wire c)" "msg_ok m"
    and old: "unat (get_seq m) < recv_pos (nt_recv c)"
  shows "\<exists>r k. net_step c (c\<lparr>nt_recv := r\<rparr>) \<and> live_at data b (c\<lparr>nt_recv := r\<rparr>) ds ps qs \<and> k \<in> set (in_acks r) \<and>
    unat (get_seq k) + 1 = recv_pos (nt_recv c)"
proof -
  let ?s = "nt_recv c" and ?log = "sc_log (nt_send c)"
  have inv: "net_inv data b c" "in_inv ?s" using live by (simp_all add: live_at_def net_inv_def recv_inv_def)
  have b: "rwp_sz (in_rwp ?s) = INPUT_WINDOW_SZ" "unat (rwp_off (in_rwp ?s)) < 1000" "unat (rwp_start (in_rwp ?s)) < 4294968296"
    using inv(2) idle by (auto simp: in_inv_def word_unat_eq_iff)
  have "seq_to_size (get_seq m) \<noteq> win_begin (rwp_setup (in_rwp ?s))"
  proof
    assume "seq_to_size (get_seq m) = win_begin (rwp_setup (in_rwp ?s))"
    from arg_cong [OF this, of unat] old show False using win_ok_begin [OF in_inv_win_ok [OF inv(2)]] by (simp add: recv_pos_def)
  qed
  then have x: "in_exec (E_msg m) ?s = Some (Inr (send_win_ack ?s))" using idle by (simp add: in_exec_def on_msg_def Let_def)
  have n: "net_step c (c\<lparr>nt_recv := send_win_ack ?s\<rparr>)" by (rule net_step.arrive [OF wire(1) _ wire(2) x]) (simp add: same_segment_def)
  then have l: "live_at data b (c\<lparr>nt_recv := send_win_ack ?s\<rparr>) ds ps qs" using live_recv [OF live x] net_inv_step [OF inv(1)] by blast
  let ?k = "output_send_ack (size_to_seq (before_begin (rwp_setup (in_rwp ?s)))) (get_sz (rwp_setup (in_rwp ?s)))"
  obtain j where "recv_has b ?log j ?s" using inv(1) by (auto simp: net_inv_def)
  then have "recv_pos ?s = b + stream_len (take j ?log)" by (simp add: recv_has_def)
  then have "0 < recv_pos ?s" "recv_pos ?s \<le> 4294967296"
    using inv(1) send_inv_log(2) [OF live_at_out(4) [OF live]] stream_len_take_le [of j ?log] by (simp_all add: net_inv_def)
  then have "unat (get_seq ?k) + 1 = recv_pos ?s" using win_ack_of [OF b] by (simp only: ack_of_def simp_thms)
  moreover have "?k \<in> set (in_acks (send_win_ack ?s))" by (simp add: send_win_ack_def Let_def)
  ultimately show ?thesis using n l by blast
qed


text \<open>Timeout, resend, arrival, a repeated arrival, and its acknowledgement.\<close>

lemma recovers_segment:
  assumes live: "live_at data b c ds ps (q # qs)" and free: "lock_free (sc_pc (nt_send c))"
  shows "\<exists>e ds' ps' qs'. net_step\<^sup>*\<^sup>* c e \<and> live_at data b e ds' ps' qs' \<and> length (ds @ ps) < length (ds' @ ps') \<and>
    (\<exists>t. nt_send e = (nt_send c)\<lparr>sc_st := t\<rparr>)"
proof -
  let ?log = "sc_log (nt_send c)"
  from resend [OF live free] obtain t m where c1: "net_step\<^sup>*\<^sup>* c ((set_out t c)\<lparr>nt_wire := nt_wire c @ [m]\<rparr>)"
      "live_at data b ((set_out t c)\<lparr>nt_wire := nt_wire c @ [m]\<rparr>) ds ps (q # qs)"
    and m: "msg_ok m" "get_data m = q" "unat (data_len m) = length q" "unat (get_seq m) = b + stream_len (ds @ ps)"
    and cong: "unat (congection_win_sz (o_cwc t)) + unat (mtu (o_cwc t)) < 2 ^ 64" by blast
  let ?c = "(set_out t c)\<lparr>nt_wire := nt_wire c @ [m]\<rparr>"
  from reach_settled [OF c1(2)] obtain r1 where r1: "net_step\<^sup>*\<^sup>* ?c (?c\<lparr>nt_recv := r1\<rparr>)" "live_at data b (?c\<lparr>nt_recv := r1\<rparr>) ds ps (q # qs)" "in_wpc r1 = W_Idle"
    by (auto simp: settled_def)
  from arrives_at_peer [OF r1(2) _ _ m] r1(3) obtain r2 where r2: "net_step (?c\<lparr>nt_recv := r1\<rparr>) (?c\<lparr>nt_recv := r2\<rparr>)"
      "live_at data b (?c\<lparr>nt_recv := r2\<rparr>) ds ps (q # qs)" "b + stream_len (ds @ ps @ [q]) \<le> recv_pos r2" by auto
  from reach_settled [OF r2(2)] obtain r3 where r3: "net_step\<^sup>*\<^sup>* (?c\<lparr>nt_recv := r2\<rparr>) (?c\<lparr>nt_recv := r3\<rparr>)"
      "live_at data b (?c\<lparr>nt_recv := r3\<rparr>) ds ps (q # qs)" "in_wpc r3 = W_Idle" "recv_pos r3 = recv_pos r2" by (auto simp: settled_def)
  have log: "?log = ds @ ps @ q # qs" using live by (simp add: live_at_def log_rep_def)
  have ne: "list_all (\<lambda>p. p \<noteq> []) ?log" using send_inv_log(1) [OF live_at_out(4) [OF live]] .
  then have "0 < length q" by (simp add: log)
  moreover have "b + stream_len (ds @ ps) + length q \<le> recv_pos r2" using r2(3) by simp
  ultimately have "unat (get_seq m) < recv_pos r3" using m(4) r3(4) by linarith
  from peer_answers [OF r3(2) _ _ m(1)] this r3(3) obtain r4 k where r4: "net_step (?c\<lparr>nt_recv := r3\<rparr>) (?c\<lparr>nt_recv := r4\<rparr>)"
      "live_at data b (?c\<lparr>nt_recv := r4\<rparr>) ds ps (q # qs)" "k \<in> set (in_acks r4)" "unat (get_seq k) + 1 = recv_pos r3" by auto
  let ?d = "?c\<lparr>nt_recv := r4\<rparr>"
  have s: "sc_st (nt_send ?d) = t" "sc_log (nt_send ?d) = ?log" "nt_recv ?d = r4" and free': "lock_free (sc_pc (nt_send ?d))" using free by (simp_all add: set_out_def)
  have "\<not> sent_buf_empty (cwp_setup (o_cwp t))" using live_at_out(1) [OF r4(2)] sent_buf_empty_iff [of t ps "q # qs"] by (simp add: set_out_def)
  then have arr: "ack_arrives ?d k" using r4(3) unfolding ack_arrives_def s by (auto simp: same_segment_def)
  have inv: "net_inv data b ?d" using r4(2) by (simp only: live_at_def)
  obtain u where u: "output_on_ack ESTABLISHED 0 k (sc_st (nt_send ?d)) = Some (Inr u)" using ack_no_fault [OF inv arr] by blast
  have cong': "unat (congection_win_sz (o_cwc (sc_st (nt_send ?d)))) + unat (mtu (o_cwc (sc_st (nt_send ?d)))) < 2 ^ 64" using cong unfolding s .
  have last: "net_step ?d (set_out u ?d)" by (rule net_step.ack [OF free' refl arr cong' u])
  from live_ack [OF r4(2) free' arr cong' u] obtain ds' ps' qs' i where e: "live_at data b (set_out u ?d) ds' ps' qs'"
      "i \<le> length ?log" "unat (get_seq k) + 1 = b + stream_len (take i ?log)" "i \<le> length (ds' @ ps')" unfolding s by blast
  have "stream_len (ds @ ps @ [q]) \<le> stream_len (take i ?log)" using e(3) r4(4) r3(4) r2(3) by simp
  moreover have "stream_len (take i ?log) < stream_len (take (length (ds @ ps @ [q])) ?log)" if "i < length (ds @ ps @ [q])"
    by (rule stream_len_take_mono [OF ne that]) (simp add: log)
  ultimately have "length (ds @ ps) < i" by (cases "i < length (ds @ ps @ [q])") (simp_all add: log)
  with e(4) have "length (ds @ ps) < length (ds' @ ps')" by linarith
  moreover have "net_step\<^sup>*\<^sup>* c (set_out u ?d)" using c1(1) r1(1) r2(1) r3(1) r4(1) last by (meson rtranclp_trans r_into_rtranclp)
  moreover have "nt_send (set_out u ?d) = (nt_send c)\<lparr>sc_st := u\<rparr>" by (simp add: set_out_def)
  ultimately show ?thesis using e(1) by blast
qed

section \<open>Every call can still end\<close>

definition net_less :: "(net_cfg \<times> net_cfg) set" where
  "net_less = measures [\<lambda>c. length (sc_rest (nt_send c)), \<lambda>c. length (sc_data (nt_send c)), \<lambda>c. outstanding (sc_st (nt_send c)),
     \<lambda>c. buf_empty (sc_st (nt_send c)), \<lambda>c. rank_send (nt_send c)]"

lemma thread_less:
  assumes "send_inv data (nt_send c)" and "send_thread (nt_send c) = Some d"
  shows "(c\<lparr>nt_send := d\<rparr>, c) \<in> net_less"
  using send_thread_cases [OF assms]
proof
  assume "\<exists>n f. puts n f (nt_send c) d"
  then obtain n f where p: "puts n f (nt_send c) d" by blast
  then have "0 < n" "n \<le> length (sc_data (nt_send c))" by (simp_all add: puts_def)
  then have "length (sc_data d) < length (sc_data (nt_send c))" using puts_sel(3) [OF p] by simp
  then show ?thesis using puts_sel(4) [OF p] by (simp add: net_less_def)
next
  assume "quiet (nt_send c) d"
  then show ?thesis by (rule quiet.cases) (auto simp: net_less_def outstanding_def rank_send_def)
qed

lemma net_nearer:
  assumes "net_live data b c" and "sc_pc (nt_send c) \<noteq> S_Return"
  shows "\<exists>d. net_step\<^sup>*\<^sup>* c d \<and> (d, c) \<in> net_less"
proof (cases "send_thread (nt_send c)")
  case (Some d)
  then show ?thesis using net_step.thread thread_less assms(1) live_at_out(4) unfolding net_live_def by blast
next
  case None
  obtain ds ps qs where live: "live_at data b c ds ps qs" using assms(1) by (auto simp: net_live_def)
  have "lock_free (sc_pc (nt_send c)) \<and> qs \<noteq> []"
    using send_stuck [OF live_at_out(4,1) [OF live] _ None] live assms(2) by (auto simp: live_at_def)
  then obtain q qs' where qs: "qs = q # qs'" and free: "lock_free (sc_pc (nt_send c))" by (cases qs) auto
  from recovers_segment [OF live [unfolded qs] free] obtain e ds' ps' qs1 t where e: "net_step\<^sup>*\<^sup>* c e" "live_at data b e ds' ps' qs1"
      "length (ds @ ps) < length (ds' @ ps')" "nt_send e = (nt_send c)\<lparr>sc_st := t\<rparr>" by blast
  have log: "ds @ ps @ qs = ds' @ ps' @ qs1" "list_all (\<lambda>p. p \<noteq> []) (ds @ ps @ qs)"
    using live e(2,4) send_inv_log(1) [OF live_at_out(4) [OF live]] by (simp_all add: live_at_def log_rep_def)
  have "stream_len (take (length (ds @ ps)) (ds @ ps @ qs)) < stream_len (take (length (ds' @ ps')) (ds @ ps @ qs))"
    by (rule stream_len_take_mono [OF log(2) e(3)]) (simp add: log(1))
  moreover have tk: "take (length (ds @ ps)) (ds @ ps @ qs) = ds @ ps" "take (length (ds' @ ps')) (ds @ ps @ qs) = ds' @ ps'" by (simp, simp add: log(1))
  ultimately have "stream_len (ds @ ps) < stream_len (ds' @ ps')" by (simp only: tk)
  moreover have "stream_len (ds @ ps) + stream_len qs = stream_len (ds' @ ps') + stream_len qs1" using arg_cong [OF log(1), of stream_len] by simp
  ultimately have "stream_len qs1 < stream_len qs" by linarith
  moreover have "outstanding (sc_st (nt_send c)) = stream_len qs" "outstanding (sc_st (nt_send e)) = stream_len qs1"
    using out_rep_nat(1,2) [OF live_at_out(1) [OF live]] out_rep_nat(1,2) [OF live_at_out(1) [OF e(2)]] by (simp_all add: outstanding_def)
  ultimately have "(e, c) \<in> net_less" using e(4) by (simp add: net_less_def)
  with e(1) show ?thesis by blast
qed

interpretation nr: recoverable "net_live data b" net_step "net_live data b" "\<lambda>c. sc_pc (nt_send c) = S_Return" net_less for data b
proof unfold_locales
  show "net_live data b d" if "net_live data b c" "net_step c d" for c d using that live_step unfolding net_live_def by blast
  show "wf net_less" by (simp add: net_less_def)
  show "\<exists>d. net_step\<^sup>*\<^sup>* c d \<and> (d, c) \<in> net_less" if "net_live data b c" "sc_pc (nt_send c) \<noteq> S_Return" for c by (rule net_nearer [OF that])
qed

section \<open>Property\<close>




end
