(* ===== verification/Chat_Net.thy ===== *)
theory Chat_Net
  imports Chat Net_Progress
begin

text \<open>
  The chat over the network: one side sends its messages one after the other with \<open>transf::send\<close>, each
  by a call of \<open>send\<close> on the connection of \<open>Lossy_Net\<close>, and the other side takes them from what \<open>recv\<close> hands
  out. The messages arrive complete, once and in their order, whatever the network loses,
  repeats, delays and reorders, and the conversation can always be finished.
\<close>

section \<open>Steps\<close>

text \<open>The next call of \<open>send\<close> on the same connection; the history of the segments goes on.\<close>

definition next_call :: "u8 list \<Rightarrow> send_cfg \<Rightarrow> send_cfg" where
  "next_call data s = (send_call data (sc_st s))\<lparr>sc_log := sc_log s\<rparr>"

record chat_net =
  cw_net :: net_cfg
  cw_said :: "u8 list list"
  cw_todo :: "u8 list list"

inductive chat_net_step :: "chat_net \<Rightarrow> chat_net \<Rightarrow> bool" where
  goes_on: "net_step (cw_net c) d \<Longrightarrow> chat_net_step c (c\<lparr>cw_net := d\<rparr>)"
| says: "sc_pc (nt_send (cw_net c)) = S_Return \<Longrightarrow> cw_todo c = m # ms \<Longrightarrow>
    chat_net_step c (c\<lparr>cw_net := (cw_net c)\<lparr>nt_send := next_call (transf_send m []) (nt_send (cw_net c))\<rparr>,
      cw_said := cw_said c @ [m], cw_todo := ms\<rparr>)"

text \<open>An open connection on which nothing was sent, and the messages to send.\<close>

definition chat_net_start :: "u8 list list \<Rightarrow> tcp_seq \<Rightarrow> chat_net \<Rightarrow> bool" where
  "chat_net_start ms q c \<longleftrightarrow> (\<exists>n. net_start [] q n \<and> unat (mtu (o_cwc (sc_st (nt_send n)))) < 2 ^ 63 \<and>
       cw_net c = n\<lparr>nt_send := (nt_send n)\<lparr>sc_pc := S_Return\<rparr>\<rparr>) \<and>
     cw_said c = [] \<and> cw_todo c = ms \<and> unat q + length (concat (map transf_raw ms)) + 1000 \<le> 2 ^ 32"

section \<open>Invariant\<close>

definition chat_net_inv :: "u8 list list \<Rightarrow> nat \<Rightarrow> chat_net \<Rightarrow> bool" where
  "chat_net_inv ms b c \<longleftrightarrow> net_live (concat (map transf_raw (cw_said c))) b (cw_net c) \<and> cw_said c @ cw_todo c = ms \<and>
     b + length (concat (map transf_raw ms)) + 1000 \<le> 4294967296"

lemma next_call_live:
  assumes "net_live data b c" and ret: "sc_pc (nt_send c) = S_Return" and lap: "b + length (data @ bs) + 1000 \<le> 4294967296"
  shows "net_live (data @ bs) b (c\<lparr>nt_send := next_call bs (nt_send c)\<rparr>)"
proof -
  obtain ds ps qs where live: "live_at data b c ds ps qs" using assms(1) by (auto simp: net_live_def)
  note o = live_at_out [OF live]
  have pc: "qs = []" "sc_data (nt_send c) = []" "sc_rest (nt_send c) = []" using o(2) ret by (simp_all add: pc_inv_def)
  have "send_inv (data @ bs) (next_call bs (nt_send c))"
    unfolding send_inv_def
  proof (intro conjI exI)
    show "out_rep (sc_st (next_call bs (nt_send c))) ps []" using o(1) pc(1) by (simp add: next_call_def send_call_def)
    show "pc_inv (next_call bs (nt_send c)) ps []" by (simp add: next_call_def send_call_def pc_inv_def)
  qed (use o(3,4) pc(2,3) in \<open>simp_all add: next_call_def send_call_def send_inv_def\<close>)
  then have "live_at (data @ bs) b (c\<lparr>nt_send := next_call bs (nt_send c)\<rparr>) ds ps qs"
    using live lap by (simp add: live_at_def net_inv_def next_call_def send_call_def fut_inv_def futs_left_def)
  then show ?thesis by (auto simp: net_live_def)
qed

lemma chat_net_step_inv:
  assumes "chat_net_inv ms b c" and "chat_net_step c d"
  shows "chat_net_inv ms b d"
  using assms(2)
proof (cases rule: chat_net_step.cases)
  case (goes_on e)
  then show ?thesis using assms(1) nr.step_inv [OF _ goes_on(2)] by (simp add: chat_net_inv_def)
next
  case (says m rest)
  let ?data = "concat (map transf_raw (cw_said c))"
  have c: "net_live ?data b (cw_net c)" "cw_said c @ m # rest = ms" "b + length (concat (map transf_raw ms)) + 1000 \<le> 4294967296"
    using assms(1) says(3) by (simp_all add: chat_net_inv_def)
  then have "b + length (?data @ transf_send m []) + 1000 \<le> 4294967296" by (auto simp: transf_send_def stream_send_def)
  from next_call_live [OF c(1) says(2) this] c(2,3) show ?thesis
    unfolding says(1) by (auto simp: chat_net_inv_def transf_send_def stream_send_def)
qed

lemma chat_net_start_inv: "chat_net_start ms q c \<Longrightarrow> chat_net_inv ms (unat q) c"
proof -
  assume st: "chat_net_start ms q c"
  then obtain n where n: "net_start [] q n" "unat (mtu (o_cwc (sc_st (nt_send n)))) < 2 ^ 63" "cw_net c = n\<lparr>nt_send := (nt_send n)\<lparr>sc_pc := S_Return\<rparr>\<rparr>"
    by (auto simp: chat_net_start_def)
  have "send_thread (nt_send n) = Some ((nt_send n)\<lparr>sc_pc := S_Return\<rparr>)"
    using n(1) by (auto simp: net_start_def send_call_def send_thread_def)
  from nr.step_inv [OF net_start_live [OF n(1,2)] net_step.thread [OF this]] st n(3) show ?thesis
    by (simp add: chat_net_inv_def chat_net_start_def)
qed

interpretation cn: byte_channel "chat_net_start ms q" chat_net_step "chat_net_inv ms (unat q)"
  "\<lambda>c. concat (map transf_raw (cw_said c))" "\<lambda>c. delivered (nt_recv (cw_net c))" for ms q
proof unfold_locales
  show "chat_net_inv ms (unat q) c" if "chat_net_start ms q c" for c using that by (rule chat_net_start_inv)
  show "chat_net_inv ms (unat q) d" if "chat_net_inv ms (unat q) c" "chat_net_step c d" for c d using that by (rule chat_net_step_inv)
  show "prefix (delivered (nt_recv (cw_net c))) (concat (map transf_raw (cw_said c)))" if inv: "chat_net_inv ms (unat q) c" for c
  proof -
    obtain ds ps qs where "live_at (concat (map transf_raw (cw_said c))) (unat q) (cw_net c) ds ps qs"
      using inv by (auto simp: chat_net_inv_def net_live_def)
    then have "net_inv (concat (map transf_raw (cw_said c))) (unat q) (cw_net c)" by (simp add: live_at_def)
    from net_inv_prefix(1) [OF this] show ?thesis by (metis append_prefixD)
  qed
qed

section \<open>The conversation can be finished\<close>

lemma chat_net_lift: "net_step\<^sup>*\<^sup>* n d \<Longrightarrow> cw_net c = n \<Longrightarrow> chat_net_step\<^sup>*\<^sup>* c (c\<lparr>cw_net := d\<rparr>)"
proof (induction rule: rtranclp_induct)
  case base
  then have "c\<lparr>cw_net := n\<rparr> = c" by simp
  then show ?case by simp
next
  case (step d e)
  have "chat_net_step (c\<lparr>cw_net := d\<rparr>) (c\<lparr>cw_net := e\<rparr>)" using goes_on [of "c\<lparr>cw_net := d\<rparr>" e] step(2) by simp
  with step show ?case by (meson rtranclp.rtrancl_into_rtrancl)
qed

text \<open>After the current call, the next message is sent.\<close>

lemma chat_net_returns:
  assumes "chat_net_inv ms b c"
  shows "\<exists>d. chat_net_step\<^sup>*\<^sup>* c (c\<lparr>cw_net := d\<rparr>) \<and> sc_pc (nt_send d) = S_Return \<and> pending (nt_recv d) = []"
proof -
  have "net_live (concat (map transf_raw (cw_said c))) b (cw_net c)" using assms by (simp add: chat_net_inv_def)
  from nr.reaches_goal [OF this] obtain e ds ps qs where e: "net_step\<^sup>*\<^sup>* (cw_net c) e" "sc_pc (nt_send e) = S_Return"
      "live_at (concat (map transf_raw (cw_said c))) b e ds ps qs" by (auto simp: net_live_def)
  from reach_settled [OF e(3)] obtain r where "net_step\<^sup>*\<^sup>* e (e\<lparr>nt_recv := r\<rparr>)" "pending r = []" by (auto simp: settled_def)
  moreover from e(1) this(1) have "net_step\<^sup>*\<^sup>* (cw_net c) (e\<lparr>nt_recv := r\<rparr>)" by (rule rtranclp_trans)
  ultimately show ?thesis using e(2) by (intro exI [of _ "e\<lparr>nt_recv := r\<rparr>"]) (simp add: chat_net_lift)
qed

definition chat_net_done :: "chat_net \<Rightarrow> bool" where
  "chat_net_done c \<longleftrightarrow> cw_todo c = [] \<and> sc_pc (nt_send (cw_net c)) = S_Return \<and> pending (nt_recv (cw_net c)) = []"

lemma chat_net_nearer:
  assumes "chat_net_inv ms b c" and "\<not> chat_net_done c"
  shows "\<exists>d. chat_net_step\<^sup>*\<^sup>* c d \<and> (d, c) \<in> measures [\<lambda>c. length (cw_todo c), \<lambda>c. of_bool (\<not> chat_net_done c)]"
proof -
  obtain n where n: "chat_net_step\<^sup>*\<^sup>* c (c\<lparr>cw_net := n\<rparr>)" "sc_pc (nt_send n) = S_Return" "pending (nt_recv n) = []"
    using chat_net_returns [OF assms(1)] by blast
  show ?thesis
  proof (cases "cw_todo c")
    case Nil
    with n assms(2) show ?thesis by (intro exI [of _ "c\<lparr>cw_net := n\<rparr>"]) (simp add: chat_net_done_def)
  next
    case (Cons m rest)
    obtain d where d: "chat_net_step (c\<lparr>cw_net := n\<rparr>) d" "cw_todo d = rest"
      using says [of "c\<lparr>cw_net := n\<rparr>" m rest] n(2) Cons by auto
    with n(1) Cons show ?thesis by (intro exI [of _ d]) simp
  qed
qed

interpretation cd: recoverable "chat_net_start ms q" chat_net_step "chat_net_inv ms (unat q)" chat_net_done
  "measures [\<lambda>c. length (cw_todo c), \<lambda>c. of_bool (\<not> chat_net_done c)]" for ms q
proof unfold_locales
  show "wf (measures [\<lambda>c. length (cw_todo c), \<lambda>c. of_bool (\<not> chat_net_done c)])" by simp
qed (rule chat_net_nearer)

lemma frames_short:
  assumes "length (concat (map transf_raw ms)) \<le> 4294967296"
  shows "list_all short ms"
  using assms by (induction ms) (auto simp: transf_raw_def short_def)

section \<open>Property\<close>


definition chat_demo :: chat_net where
  "chat_demo = \<lparr>cw_net = \<lparr>nt_send = (send_call [] slow_out)\<lparr>sc_pc := S_Return\<rparr>, nt_wire = [], nt_recv = in_init (established_rwp 100)\<rparr>,
     cw_said = [], cw_todo = [[104, 105], [102, 105, 110]]\<rparr>"

lemma chat_demo_start: "chat_net_start [[104, 105], [102, 105, 110]] 100 chat_demo"
  unfolding chat_net_start_def using slow_out_rep
  by (auto simp: chat_demo_def net_start_def slow_out_def win_open_def bounded_win_sz_def established_out_start send_call_def transf_raw_def
      intro!: exI [of _ "\<lparr>nt_send = send_call [] slow_out, nt_wire = [], nt_recv = in_init (established_rwp 100)\<rparr>"] exI [of _ slow_out])


end
