(* ===== verification/Socket_Types.thy ===== *)
theory Socket_Types
  imports Connection
begin

text \<open>
  Well-formedness of a socket: whatever well-formed messages arrive, in whatever order the receive worker,
  the reader and the calls of \<open>handshake\<close> and \<open>disconnect\<close> take their steps, the window of the receiving
  side stays well formed, and every message that the socket hands to \<open>send\<close> is a complete header without
  payload, so that \<open>send\<close> reads nothing outside of it.
\<close>

section \<open>Header-only messages\<close>

definition hdr_ok :: "msg \<Rightarrow> bool" where
  "hdr_ok m \<longleftrightarrow> msg_ok m \<and> data_len m = 0"

lemma hdr_ok_new [simp]: "hdr_ok (msg_new None 0)"
  by (simp add: hdr_ok_def msg_ok_def msg_new_def zero_packet_def)

lemma hdr_ok_set [simp]:
  "hdr_ok (set_seq q m) = hdr_ok m" "hdr_ok (set_ack_seq q m) = hdr_ok m" "hdr_ok (set_window_sz v m) = hdr_ok m"
  "hdr_ok (set_ack m) = hdr_ok m" "hdr_ok (set_syn m) = hdr_ok m" "hdr_ok (set_fin m) = hdr_ok m" "hdr_ok (set_rst m) = hdr_ok m"
  by (simp_all add: hdr_ok_def msg_ok_def msg_access_defs)

section \<open>Endpoints\<close>

text \<open>The window between two messages.\<close>

definition rwp_ok :: "rwp_area \<Rightarrow> bool" where
  "rwp_ok a \<longleftrightarrow> rwp_sz a = INPUT_WINDOW_SZ \<and> unat (rwp_flushed_off a) \<le> unat (rwp_off a) \<and> unat (rwp_off a) < 1000 \<and>
     unat (rwp_start a) < 4294968296"

lemma in_inv_idle: "in_wpc s = W_Idle \<Longrightarrow> in_inv s \<longleftrightarrow> rwp_ok (in_rwp s)"
  by (auto simp: in_inv_def rwp_ok_def word_unat_eq_iff)

definition ep_ok :: "endpoint \<Rightarrow> bool" where
  "ep_ok e \<longleftrightarrow> list_all hdr_ok (ep_sent e) \<and> rwp_ok (ep_rwp e)"

lemma ep_ok_send [simp]: "hdr_ok m \<Longrightarrow> ep_ok (ep_send m e) = ep_ok e"
  by (simp add: ep_ok_def ep_send_def)

lemma ep_ok_upd [simp]: "ep_ok (e\<lparr>ep_eh := x\<rparr>) = ep_ok e" "ep_ok (e\<lparr>ep_ch := y\<rparr>) = ep_ok e" "ep_ok (set_state st e) = ep_ok e"
  by (simp_all add: ep_ok_def set_state_def)

lemma ep_ok_msgs [simp]:
  "ep_ok (hs_send_ack q k e) = ep_ok e" "ep_ok (send_syn_ack q k e) = ep_ok e" "ep_ok (send_syn q e) = ep_ok e"
  "ep_ok (ch_send_ack q e) = ep_ok e" "ep_ok (send_fin_ack q k e) = ep_ok e" "ep_ok (send_rst q e) = ep_ok e"
  "ep_ok (send_rst_ack q k e) = ep_ok e" "ep_ok (send_fin q e) = ep_ok e"
proof -
  have "ep_ok ((ep_send m ^^ n) e) = ep_ok e" if "hdr_ok m" for m n
    by (induction n) (use that in simp_all)
  then show "ep_ok (send_fin q e) = ep_ok e" by (simp add: send_fin_def)
qed (simp_all add: hs_send_ack_def send_syn_ack_def send_syn_def ch_send_ack_def send_fin_ack_def send_rst_def send_rst_ack_def)

lemma ep_ok_established [simp]: "ep_ok (send_established q e) = ep_ok e" "ep_ok e \<Longrightarrow> ep_ok (recv_established q e)"
  using unat_u32_bound [of q]
  by (simp_all add: ep_ok_def send_established_def recv_established_def set_state_def rwp_ok_def rwp_force_move_start_def rwp_flush_def Let_def)

lemma ep_ok_closed [simp]: "ep_ok (recv_closed e) = ep_ok e" "ep_ok (send_closed e) = ep_ok e"
  by (simp_all add: recv_closed_def send_closed_def)

text \<open>The waiting loops.\<close>

lemma ep_ok_loop:
  "ch_next_msg P next ms e = Some (r, e') \<Longrightarrow> (\<And>m x. next m e = Inr x \<Longrightarrow> ep_ok x) \<Longrightarrow> ep_ok e'"
  using ch_next_msg_Some by blast

lemma ep_ok_handshake:
  assumes "handshake recv rnd ms e = Some (r, e')" and "ep_ok e"
  shows "ep_ok e'"
proof (cases "get_state e = CLOSED")
  case True
  show ?thesis
  proof (cases recv)
    case True
    then obtain m ms' where "recv_on_syn rnd m ms' e = Some (r, e')"
      using assms(1) \<open>get_state e = CLOSED\<close> next_syn_Some [of rnd ms e "(r, e')"] by (auto simp: handshake_def)
    then show ?thesis
      using assms(2) by (auto simp: recv_on_syn_def next_ack_eq eh_recv_on_ack_def dest!: ep_ok_loop split: if_splits)
  next
    case False
    then show ?thesis
      using assms \<open>get_state e = CLOSED\<close>
      by (auto simp: handshake_def send_establish_def next_syn_ack_eq send_on_syn_ack_def dest!: ep_ok_loop split: if_splits)
  qed
qed (use assms in \<open>simp add: handshake_def\<close>)


lemma ep_ok_disconnect:
  assumes "disconnect recv input rnd rnd' ms e = Some (r, e')" and "ep_ok e"
  shows "ep_ok e'"
proof (cases input)
  case None
  with assms show ?thesis
    by (auto simp: disconnect_def recv_close_def send_close_def next_fin_ack_def next_rst_ack_def send_on_fin_ack_def recv_on_rst_ack_def Let_def
        dest!: ep_ok_loop split: if_splits)
next
  case (Some m)
  have fin: "ep_ok x" if "recv_on_fin rnd m ms e = Some (q, x)" for q x
    using that assms(2) by (auto simp: recv_on_fin_def recv_next_ack_def ch_recv_on_ack_def Let_def dest!: ep_ok_loop split: if_splits)
  have rst: "ep_ok y" if "send_on_rst rnd' m qs x = Some (q, y)" "ep_ok x" for q qs x y
    using that by (auto simp: send_on_rst_def send_next_ack_def send_on_ack_def Let_def dest!: ep_ok_loop split: if_splits)
  show ?thesis
    using assms Some by (auto simp: disconnect_def intro: fin rst [OF _ fin] rst split: option.splits if_splits)
qed

section \<open>Steps of a socket\<close>

definition acks_grow :: "in_st \<Rightarrow> in_st \<Rightarrow> bool" where
  "acks_grow s t \<longleftrightarrow> (\<exists>ks. in_acks t = in_acks s @ ks \<and> list_all hdr_ok ks)"

lemma acks_grow_same: "in_acks t = in_acks s \<Longrightarrow> acks_grow s t"
  by (simp add: acks_grow_def)

lemma acks_grow_ack: "in_acks u = in_acks s \<Longrightarrow> acks_grow s (send_win_ack u)" "in_acks u = in_acks s \<Longrightarrow> acks_grow s ((send_win_ack u)\<lparr>in_wpc := pc\<rparr>)"
  by (simp_all add: acks_grow_def send_win_ack_def output_send_ack_def Let_def)

lemma acks_grow_tail: "in_acks u = in_acks s \<Longrightarrow> acks_grow s (move_tail u)"
  by (simp add: move_tail_def acks_grow_same acks_grow_ack)

lemma acks_grow_move: "move bs n s = Inr t \<Longrightarrow> acks_grow s t"
  by (cases "put_data (rwp_off (in_rwp s)) bs n (in_buf s)") (auto simp: move_def Let_def intro: acks_grow_same acks_grow_tail split: if_splits)

lemma acks_grow_flush: "client_flush_now n s = Inr t \<Longrightarrow> acks_grow s t"
  by (auto simp: client_flush_now_def Let_def intro!: acks_grow_same split: sum.splits)

lemma in_exec_acks: "in_exec ev s = Some (Inr t) \<Longrightarrow> acks_grow s t"
proof (cases ev)
  case (E_msg m)
  moreover assume "in_exec ev s = Some (Inr t)"
  ultimately have "on_msg m s = Inr t" by (simp add: in_exec_def split: if_splits)
  then consider "move (pbuf (packet m)) (data_len m) s = Inr t" | "t = send_win_ack s"
    unfolding on_msg_def Let_def by (metis Inr_inject)
  then show ?thesis by cases (auto intro: acks_grow_move acks_grow_ack)
next
  case E_worker
  moreover assume "in_exec ev s = Some (Inr t)"
  ultimately show ?thesis
    by (cases "in_wpc s") (auto simp: in_exec_def worker_step_def intro: acks_grow_same acks_grow_tail acks_grow_ack split: if_splits)
next
  case (E_request n)
  moreover assume "in_exec ev s = Some (Inr t)"
  ultimately show ?thesis
    by (auto simp: in_exec_def client_flush_request_def intro: acks_grow_flush acks_grow_same split: if_splits)
next
  case E_client
  moreover assume "in_exec ev s = Some (Inr t)"
  ultimately show ?thesis
    by (cases "in_cpc s") (auto simp: in_exec_def client_step_def intro: acks_grow_flush acks_grow_same split: if_splits)
qed

text \<open>
  The steps: the idle receive worker takes a message, or goes on inside one; the reader asks or goes on;
  a thread opens the connection; the sending side changes its own areas, in any way. What arrives while a
  handshake waits is arbitrary.
\<close>

inductive sock_step :: "full_impl \<Rightarrow> full_impl \<Rightarrow> bool" where
  message: "in_wpc (fi_in s) = W_Idle \<Longrightarrow> msg_ok m \<Longrightarrow> recv_worker_on_msg now x x' ms m s w = Some (Inr (ms', t, w')) \<Longrightarrow> sock_step s t"
| work: "in_exec E_worker (fi_in s) = Some (Inr u) \<Longrightarrow> sock_step s (put_in u s)"
| ask: "in_exec (E_request n) (fi_in s) = Some (Inr u) \<Longrightarrow> sock_step s (put_in u s)"
| read: "in_exec E_client (fi_in s) = Some (Inr u) \<Longrightarrow> sock_step s (put_in u s)"
| opens: "full_handshake recv x ms s = Some (ms', t) \<Longrightarrow> sock_step s t"
| sends: "sock_step s (s\<lparr>fi_out := u\<rparr>)"

definition sock_wf :: "full_impl \<Rightarrow> bool" where
  "sock_wf s \<longleftrightarrow> in_inv (fi_in s) \<and> (fi_state s = ESTABLISHED \<or> in_wpc (fi_in s) = W_Idle) \<and> list_all hdr_ok (fi_sent s)"

lemma put_in_wf:
  assumes "sock_wf s" and "in_inv t" and "acks_grow (fi_in s) t" and "fi_state s = ESTABLISHED \<or> in_wpc t = W_Idle"
  shows "sock_wf (put_in t s)"
  using assms by (auto simp: sock_wf_def put_in_def acks_grow_def)

lemma ep_of_ok: "sock_wf s \<Longrightarrow> in_wpc (fi_in s) = W_Idle \<Longrightarrow> ep_ok (ep_of s)"
  by (simp add: sock_wf_def ep_ok_def ep_of_def in_inv_idle)

lemma put_ep_wf: "ep_ok e \<Longrightarrow> in_wpc (fi_in s) = W_Idle \<Longrightarrow> sock_wf (put_ep e s)"
  by (simp add: sock_wf_def put_ep_def ep_ok_def in_inv_idle)

lemma put_ep_of [simp]: "put_ep (ep_of s) s = s"
  by (simp add: put_ep_def ep_of_def)

lemma handshake_wf:
  assumes "sock_wf s" and "full_handshake recv x ms s = Some (ms', t)"
  shows "sock_wf t"
proof (cases "fi_state s = CLOSED")
  case True
  with assms(1) have idle: "in_wpc (fi_in s) = W_Idle" by (auto simp: sock_wf_def)
  from assms(2) obtain e where "handshake recv x ms (ep_of s) = Some (ms', e)" "t = put_ep e s"
    by (auto simp: full_handshake_def split: option.splits)
  with idle ep_ok_handshake ep_of_ok [OF assms(1) idle] show ?thesis by (auto intro: put_ep_wf)
next
  case False
  then have "get_state (ep_of s) \<noteq> CLOSED" by (simp add: get_state_def ep_of_def)
  with assms show ?thesis by (simp add: full_handshake_def handshake_def)
qed

lemma message_wf:
  assumes wf: "sock_wf s" and idle: "in_wpc (fi_in s) = W_Idle" and "msg_ok m"
    and step: "recv_worker_on_msg now x x' ms m s w = Some (Inr (ms', t, w'))"
  shows "sock_wf t"
proof -
  consider "is_usual m" | "\<not> is_usual m" "is_fin m \<or> is_rst m" | "\<not> is_usual m" "\<not> (is_fin m \<or> is_rst m)" by blast
  then show ?thesis
  proof cases
    case 1
    show ?thesis
    proof (cases "fi_state s = ESTABLISHED")
      case True
      obtain u where u: "on_msg m (fi_in s) = Inr u" "in_inv u" using on_msg_ok [OF _ assms(3) idle] wf by (auto simp: sock_wf_def)
      moreover have "acks_grow (fi_in s) u" using in_exec_acks [of "E_msg m" "fi_in s" u] u(1) idle by (simp add: in_exec_def)
      ultimately show ?thesis using step 1 True wf by (auto simp: recv_worker_on_msg_def input_on_regular_msg_def intro: put_in_wf)
    next
      case False
      with step 1 wf show ?thesis by (simp add: recv_worker_on_msg_def input_on_regular_msg_def)
    qed
  next
    case 2
    then obtain e where "disconnect False (Some m) x x' ms (ep_of s) = Some (ms', e)" "t = put_ep e s"
      using step by (auto simp: recv_worker_on_msg_def split: option.splits)
    with ep_ok_disconnect ep_of_ok [OF wf idle] idle show ?thesis by (auto intro: put_ep_wf)
  next
    case 3
    then have "\<exists>u. t = s\<lparr>fi_out := u\<rparr> \<or> t = s"
      using step by (auto simp: recv_worker_on_msg_def split: if_splits option.splits sum.splits)
    with wf show ?thesis by (auto simp: sock_wf_def)
  qed
qed

lemma in_exec_wf:
  assumes wf: "sock_wf s" and "in_exec ev (fi_in s) = Some (Inr u)" and "ev = E_worker \<or> ev = E_client \<or> (\<exists>n. ev = E_request n)"
  shows "sock_wf (put_in u s)"
proof -
  have "in_step (fi_in s) u" using assms(2,3) by (auto intro: in_step.intros)
  then have "in_inv u" using in_step_ok [of "fi_in s" u] wf by (auto simp: sock_wf_def)
  moreover have "in_wpc u = W_Idle" if "fi_state s \<noteq> ESTABLISHED"
    using that wf assms(2,3) by (auto simp: sock_wf_def in_exec_def worker_step_def client_step_def client_flush_request_def client_flush_now_def Let_def
        split: cpc.splits if_splits sum.splits)
  ultimately show ?thesis using put_in_wf [OF wf] in_exec_acks [OF assms(2)] by auto
qed

lemma rwp_ok_start [simp]: "rwp_ok (rwp (on_init zero_mem))"
  by (simp add: rwp_ok_def on_init_def init_below_numeral mem_tags_def zero_mem_def)

lemma out_wf: "sock_wf s \<Longrightarrow> sock_wf (s\<lparr>fi_out := u\<rparr>)"
  by (simp add: sock_wf_def)

interpretation wfs: inv_system "\<lambda>s. \<exists>b. s = fresh_sock b" sock_step sock_wf
proof
  fix s assume "\<exists>b. s = fresh_sock b"
  then show "sock_wf s"
    by (auto simp: sock_wf_def fresh_sock_sel fresh_sock_def full_new_def in_init_def in_inv_idle)
next
  fix s t assume "sock_wf s" "sock_step s t"
  from this(2,1) show "sock_wf t"
    by cases (auto intro: message_wf handshake_wf in_exec_wf out_wf)
qed

text \<open>\<open>send\<close> hands a header of 36 bytes for the peer to the system.\<close>

definition sends_header :: "size_t \<Rightarrow> socket_sock_base \<Rightarrow> msg \<Rightarrow> bool" where
  "sends_header now b m =
     (case base_send now 36 b m of
        (_, Inl _) \<Rightarrow> False
      | (_, Inr (dest, bs)) \<Rightarrow> sin_addr dest = sin_addr (out_addr (sb_id b)) \<and> sin_port dest = sin_port (out_addr (sb_id b)) \<and> length bs = 36)"

lemma hdr_ok_sends:
  assumes "hdr_ok m"
  shows "sends_header now b m"
proof -
  let ?ts = "get_timestamp now b"
  let ?m = "set_chsum 0 (set_sender_timestamp ?ts (set_recv_timestamp ?ts
              (set_dest_addr (out_addr (sb_id b)) (set_src_addr (in_addr (sb_id b)) m))))"
  have ok: "msg_ok ?m" "data_len ?m = 0" using assms by (simp_all add: hdr_ok_def msg_ok_def msg_access_defs)
  let ?k = "set_chsum (chsum (tcp_data ?m)) ?m"
  have k: "msg_ok ?k" "data_len ?k = 0" using ok by (simp_all add: msg_ok_def msg_access_defs)
  have "tcp_data_sz ?k = word_of_int 36" using k(2) by (simp add: tcp_data_sz_def sizeof_defs)
  then have "base_send now 36 b m = (?k, Inr (get_dest_addr ?k, tcp_data ?k))"
    by (simp add: base_send_def Let_def msg_chsum_ok [OF ok(1)] transfer_send_to_def)
  moreover have "sin_addr (get_dest_addr ?k) = sin_addr (out_addr (sb_id b))" "sin_port (get_dest_addr ?k) = sin_port (out_addr (sb_id b))"
    by (simp_all add: msg_access_defs)
  moreover have "length (tcp_data ?k) = 36" using length_tcp_data [OF k(1)] k(2) by simp
  ultimately show ?thesis by (simp add: sends_header_def)
qed

section \<open>Property\<close>



end
