(* ===== verification/Mem_Ctl.thy ===== *)
theory Mem_Ctl
  imports Sock_Shm
begin

text \<open>
  Access to the areas of the shared memory: the semaphore wrappers \<open>external_lock_wrapper\<close> and
  \<open>notificator_wrapper\<close> of \<open>src/tcp_engine.h\<close>, \<open>mem_manager\<close> with \<open>mem_ctl\<close> of
  \<open>src/tcp_proto_mem.h\<close>, and the wrappers that \<open>sock_mem_guard\<close> of \<open>src/newimpl.cpp\<close> keeps. A
  \<open>sem_t\<close> pointer is the index of the semaphore in the \<open>locks\<close> array of the shared object, or \<open>None\<close>;
  the argument \<open>ok\<close> says whether the system call succeeds.
\<close>

section \<open>external_lock_wrapper\<close>

record external_lock_wrapper =
  elw_sem :: "nat option"
  elw_ignored :: bool

definition elw_init :: "external_lock_wrapper \<Rightarrow> sock_shmem \<Rightarrow> sock_shmem" where
  "elw_init e s =
     (case elw_sem e of
        None \<Rightarrow> s
      | Some k \<Rightarrow> (if elw_ignored e then s else s\<lparr>so_locks := (so_locks s)(k := 1)\<rparr>))"

text \<open>\<open>None\<close> while the semaphore is taken.\<close>

definition elw_lock :: "bool \<Rightarrow> external_lock_wrapper \<Rightarrow> sock_shmem \<Rightarrow> sock_shmem res option" where
  "elw_lock ok e s =
     (case elw_sem e of
        None \<Rightarrow> Some (Inr s)
      | Some k \<Rightarrow>
          (if elw_ignored e then Some (Inr s)
           else if \<not> ok then Some (Inl (Fuck ''sock lock err ''))
           else if so_locks s k = 0 then None
           else Some (Inr (s\<lparr>so_locks := (so_locks s)(k := so_locks s k - 1)\<rparr>))))"

definition elw_unlock :: "bool \<Rightarrow> external_lock_wrapper \<Rightarrow> sock_shmem \<Rightarrow> sock_shmem res" where
  "elw_unlock ok e s =
     (case elw_sem e of
        None \<Rightarrow> Inr s
      | Some k \<Rightarrow>
          (if elw_ignored e then Inr s
           else if \<not> ok then Inl (Fuck ''sock unlock err '')
           else Inr (s\<lparr>so_locks := (so_locks s)(k := so_locks s k + 1)\<rparr>)))"

definition elw_have :: "external_lock_wrapper \<Rightarrow> bool" where
  "elw_have e = (if elw_ignored e then True else elw_sem e \<noteq> None)"

section \<open>notificator_wrapper\<close>

text \<open>The system calls dereference the pointer.\<close>

type_synonym notificator_wrapper = "nat option"

definition nw_init :: "bool \<Rightarrow> notificator_wrapper \<Rightarrow> sock_shmem \<Rightarrow> sock_shmem res" where
  "nw_init ok n s =
     (case n of
        None \<Rightarrow> Inl Fault
      | Some k \<Rightarrow> (if ok then Inr (s\<lparr>so_locks := (so_locks s)(k := 0)\<rparr>) else Inl (Fuck ''sem init err'')))"

definition nw_wait :: "bool \<Rightarrow> notificator_wrapper \<Rightarrow> sock_shmem \<Rightarrow> sock_shmem res option" where
  "nw_wait ok n s =
     (case n of
        None \<Rightarrow> Some (Inl Fault)
      | Some k \<Rightarrow>
          (if \<not> ok then Some (Inl (Fuck ''sock lock err ''))
           else if so_locks s k = 0 then None
           else Some (Inr (s\<lparr>so_locks := (so_locks s)(k := so_locks s k - 1)\<rparr>))))"

text \<open>\<open>wait_for\<close>: the outcome of \<open>sem_timedwait\<close> is an argument; a timeout is no error. The deadline is the
  time of the call plus the given milliseconds.\<close>

datatype timed = Timed_got | Timed_out | Timed_err

definition nw_deadline :: "size_t \<Rightarrow> int \<Rightarrow> timespec" where
  "nw_deadline sys_time ms = convert_to_timespec (ms + sint sys_time)"

definition nw_wait_for :: "timed \<Rightarrow> notificator_wrapper \<Rightarrow> sock_shmem \<Rightarrow> sock_shmem res option" where
  "nw_wait_for r n s =
     (case r of
        Timed_got \<Rightarrow> nw_wait True n s
      | Timed_out \<Rightarrow> Some (Inr s)
      | Timed_err \<Rightarrow> Some (Inl (Fuck ''sock lock err '')))"

definition nw_notify :: "bool \<Rightarrow> notificator_wrapper \<Rightarrow> sock_shmem \<Rightarrow> sock_shmem res" where
  "nw_notify ok n s =
     (case n of
        None \<Rightarrow> Inl Fault
      | Some k \<Rightarrow> (if ok then Inr (s\<lparr>so_locks := (so_locks s)(k := so_locks s k + 1)\<rparr>) else Inl (Fuck ''sock unlock err '')))"

section \<open>The wrappers of sock_mem_guard\<close>

record sock_mem_guard =
  send_lock :: external_lock_wrapper
  recv_lock :: external_lock_wrapper
  recv_worker_lock :: external_lock_wrapper
  send_worker_lock :: external_lock_wrapper
  no_lock :: external_lock_wrapper
  recv_worker_complete_notif :: notificator_wrapper
  recv_worker_buf_not_empty_notif :: notificator_wrapper
  send_buf_empty_notif :: notificator_wrapper
  send_buf_not_empty_notif :: notificator_wrapper

definition elw :: "nat option \<Rightarrow> external_lock_wrapper" where
  "elw k = \<lparr>elw_sem = k, elw_ignored = False\<rparr>"

definition guard_ctor :: sock_mem_guard where
  "guard_ctor = \<lparr>send_lock = elw None, recv_lock = elw None, recv_worker_lock = elw None, send_worker_lock = elw None,
     no_lock = \<lparr>elw_sem = None, elw_ignored = True\<rparr>, recv_worker_complete_notif = None, recv_worker_buf_not_empty_notif = None,
     send_buf_empty_notif = None, send_buf_not_empty_notif = None\<rparr>"

text \<open>\<open>__load\<close>, which is also what \<open>load\<close> does in a process that attaches.\<close>

definition guard_load :: "sock_mem_guard \<Rightarrow> sock_mem_guard" where
  "guard_load g = g\<lparr>send_lock := elw (Some 0), recv_lock := elw (Some 1), recv_worker_lock := elw (Some 2), send_worker_lock := elw (Some 3),
     recv_worker_complete_notif := Some 4, recv_worker_buf_not_empty_notif := Some 5, send_buf_empty_notif := Some 6,
     send_buf_not_empty_notif := Some 7\<rparr>"

definition bind_res :: "'a res \<Rightarrow> ('a \<Rightarrow> 'b res) \<Rightarrow> 'b res" where
  "bind_res r f = (case r of Inl e \<Rightarrow> Inl e | Inr x \<Rightarrow> f x)"

definition guard_init_all :: "sock_mem_guard \<Rightarrow> sock_shmem \<Rightarrow> sock_shmem res" where
  "guard_init_all g s =
     (let s1 = elw_init (send_worker_lock g) (elw_init (recv_worker_lock g) (elw_init (recv_lock g) (elw_init (send_lock g) s)))
      in bind_res (nw_init True (recv_worker_complete_notif g) s1) (\<lambda>s2.
         bind_res (nw_init True (recv_worker_buf_not_empty_notif g) s2) (\<lambda>s3.
         bind_res (nw_init True (send_buf_empty_notif g) s3) (nw_init True (send_buf_not_empty_notif g)))))"

section \<open>mem_manager\<close>

definition shm_of :: "nat \<Rightarrow> world \<Rightarrow> nat" where
  "shm_of p w = the (pr_shd (w_proc w p))"

text \<open>
  \<open>mem_get\<close> in process \<open>p\<close>; its result is the offset of the area in the client memory. When
  \<open>accquire_shmem\<close> throws, the lock that was taken before stays taken.
\<close>

definition mem_get :: "bool \<Rightarrow> MEM_TAG \<Rightarrow> external_lock_wrapper \<Rightarrow> nat \<Rightarrow> world \<Rightarrow> (nat res \<times> world) option" where
  "mem_get ok t e p w =
     (case (if elw_have e then elw_lock ok e (w_shm w (shm_of p w)) else Some (Inr (w_shm w (shm_of p w)))) of
        None \<Rightarrow> None
      | Some (Inl x) \<Rightarrow> Some (Inl x, w)
      | Some (Inr s) \<Rightarrow>
          (let w1 = upd_shm (shm_of p w) (\<lambda>_. s) w
           in case accquire_shmem (\<not> elw_have e) p w1 of
                None \<Rightarrow> None
              | Some (Inl x) \<Rightarrow> Some (Inl x, w1)
              | Some (Inr (_, w2)) \<Rightarrow> Some (Inr (summary_prefix_off t), w2)))"

definition mem_put :: "bool \<Rightarrow> external_lock_wrapper \<Rightarrow> nat \<Rightarrow> world \<Rightarrow> world res" where
  "mem_put ok e p w =
     (if elw_have e
      then (case elw_unlock ok e (w_shm w (shm_of p w)) of Inl x \<Rightarrow> Inl x | Inr s \<Rightarrow> Inr (upd_shm (shm_of p w) (\<lambda>_. s) w))
      else if ok then Inr (put_internal_lock p w) else Inl (Fuck ''sock unlock err ''))"

text \<open>\<open>mem_ctl\<close>: the lock and the area; \<open>call\<close> runs \<open>f\<close> with the lock released.\<close>

record mem_ctl =
  ctl_lock :: external_lock_wrapper
  ctl_area :: nat

definition mem_ctl_ctor :: "bool \<Rightarrow> MEM_TAG \<Rightarrow> external_lock_wrapper \<Rightarrow> nat \<Rightarrow> world \<Rightarrow> (mem_ctl res \<times> world) option" where
  "mem_ctl_ctor ok t e p w =
     (case mem_get ok t e p w of
        None \<Rightarrow> None
      | Some (Inl x, w1) \<Rightarrow> Some (Inl x, w1)
      | Some (Inr a, w1) \<Rightarrow> Some (Inr \<lparr>ctl_lock = e, ctl_area = a\<rparr>, w1))"

definition mem_ctl_dtor :: "bool \<Rightarrow> mem_ctl \<Rightarrow> nat \<Rightarrow> world \<Rightarrow> world res" where
  "mem_ctl_dtor ok c = mem_put ok (ctl_lock c)"

definition ctl_release :: "bool \<Rightarrow> mem_ctl \<Rightarrow> nat \<Rightarrow> world \<Rightarrow> world res" where
  "ctl_release ok c p w =
     (case elw_unlock ok (ctl_lock c) (w_shm w (shm_of p w)) of Inl x \<Rightarrow> Inl x | Inr s \<Rightarrow> Inr (upd_shm (shm_of p w) (\<lambda>_. s) w))"

definition ctl_acquire :: "bool \<Rightarrow> mem_ctl \<Rightarrow> nat \<Rightarrow> world \<Rightarrow> world res option" where
  "ctl_acquire ok c p w =
     (case elw_lock ok (ctl_lock c) (w_shm w (shm_of p w)) of
        None \<Rightarrow> None
      | Some (Inl x) \<Rightarrow> Some (Inl x)
      | Some (Inr s) \<Rightarrow> Some (Inr (upd_shm (shm_of p w) (\<lambda>_. s) w)))"

definition ctl_call :: "mem_ctl \<Rightarrow> nat \<Rightarrow> (world \<Rightarrow> world res option) \<Rightarrow> world \<Rightarrow> world res option" where
  "ctl_call c p f w =
     (case ctl_release True c p w of
        Inl x \<Rightarrow> Some (Inl x)
      | Inr w1 \<Rightarrow> (case f w1 of None \<Rightarrow> None | Some (Inl x) \<Rightarrow> Some (Inl x) | Some (Inr w2) \<Rightarrow> ctl_acquire True c p w2))"

text \<open>\<open>send_protected_area\<close>, \<open>recv_protected_area\<close> and \<open>no_lock_area\<close> of the guard.\<close>

definition send_protected_area :: "sock_mem_guard \<Rightarrow> bool \<Rightarrow> MEM_TAG \<Rightarrow> nat \<Rightarrow> world \<Rightarrow> (mem_ctl res \<times> world) option" where
  "send_protected_area g ok t = mem_ctl_ctor ok t (send_lock g)"

definition recv_protected_area :: "sock_mem_guard \<Rightarrow> bool \<Rightarrow> MEM_TAG \<Rightarrow> nat \<Rightarrow> world \<Rightarrow> (mem_ctl res \<times> world) option" where
  "recv_protected_area g ok t = mem_ctl_ctor ok t (recv_lock g)"

definition no_lock_area :: "sock_mem_guard \<Rightarrow> bool \<Rightarrow> MEM_TAG \<Rightarrow> nat \<Rightarrow> world \<Rightarrow> (mem_ctl res \<times> world) option" where
  "no_lock_area g ok t = mem_ctl_ctor ok t (no_lock g)"

section \<open>Lemmas\<close>

text \<open>The eight calls of \<open>__init_all\<close> give the counts that \<open>guard_init\<close> of \<open>Sock_Shm\<close> has.\<close>

lemma guard_init_all_eq: "guard_init_all (guard_load g) s = Inr (s\<lparr>so_locks := guard_locks (so_locks s)\<rparr>)"
  by (simp add: guard_init_all_def guard_load_def bind_res_def elw_init_def nw_init_def elw_def guard_locks_def)

text \<open>What a wrapper locks: a semaphore of the shared object, the semaphore of the label, or nothing.\<close>

datatype lkey = Inner nat nat | Label nat

definition lkey_of :: "external_lock_wrapper \<Rightarrow> nat \<Rightarrow> world \<Rightarrow> lkey option" where
  "lkey_of e p w =
     (if elw_ignored e then None
      else Some (case elw_sem e of Some k \<Rightarrow> Inner (shm_of p w) k | None \<Rightarrow> Label (the (pr_lock (w_proc w p)))))"

definition count :: "lkey \<Rightarrow> world \<Rightarrow> nat" where
  "count x w = (case x of Inner j k \<Rightarrow> so_locks (w_shm w j) k | Label i \<Rightarrow> w_sem w i)"

text \<open>What no operation on locks changes.\<close>

definition lock_frame :: "world \<Rightarrow> world \<Rightarrow> bool" where
  "lock_frame w w' \<longleftrightarrow> w_proc w' = w_proc w \<and> (\<forall>j. so_state (w_shm w' j) = so_state (w_shm w j) \<and> so_client (w_shm w' j) = so_client (w_shm w j))"

definition bump :: "(nat \<Rightarrow> nat) \<Rightarrow> lkey option \<Rightarrow> world \<Rightarrow> world \<Rightarrow> bool" where
  "bump f x w w' \<longleftrightarrow> lock_frame w w' \<and> (\<forall>y. count y w' = (if x = Some y then f (count y w) else count y w))"

lemmas ctl_defs = mem_get_def mem_put_def ctl_release_def ctl_acquire_def elw_lock_def elw_unlock_def elw_have_def accquire_shmem_def
  put_internal_lock_def sem_wait_def sem_post_def upd_shm_def shm_of_def

lemma mem_get_bump:
  assumes "mem_get ok t e p w = Some (Inr a, w')"
  shows "bump (\<lambda>n. n - 1) (lkey_of e p w) w w'" "lkey_of e p w = Some x \<Longrightarrow> 0 < count x w" "a = summary_prefix_off t"
  using assms
  by (auto simp: ctl_defs bump_def lock_frame_def lkey_of_def count_def Let_def split: if_splits option.splits lkey.splits)

lemma mem_put_bump: "mem_put ok e p w = Inr w' \<Longrightarrow> bump (\<lambda>n. n + 1) (lkey_of e p w) w w'"
  by (auto simp: ctl_defs bump_def lock_frame_def lkey_of_def count_def Let_def split: if_splits option.splits lkey.splits)

text \<open>\<open>call\<close> works on the semaphore of the wrapper only: with the label's semaphore it releases nothing.\<close>

definition inner_key :: "external_lock_wrapper \<Rightarrow> nat \<Rightarrow> world \<Rightarrow> lkey option" where
  "inner_key e p w = (if elw_sem e = None then None else lkey_of e p w)"

lemma ctl_release_bump: "ctl_release ok c p w = Inr w' \<Longrightarrow> bump (\<lambda>n. n + 1) (inner_key (ctl_lock c) p w) w w'"
  by (auto simp: ctl_defs bump_def lock_frame_def lkey_of_def inner_key_def count_def Let_def split: if_splits option.splits lkey.splits)

lemma ctl_acquire_bump:
  assumes "ctl_acquire ok c p w = Some (Inr w')"
  shows "bump (\<lambda>n. n - 1) (inner_key (ctl_lock c) p w) w w'" "inner_key (ctl_lock c) p w = Some x \<Longrightarrow> 0 < count x w"
  using assms
  by (auto simp: ctl_defs bump_def lock_frame_def lkey_of_def inner_key_def count_def Let_def split: if_splits option.splits lkey.splits)

section \<open>Exclusion\<close>

text \<open>
  A semaphore as a lock, in any system: a step takes it for a new holder, gives it back for a holder,
  loses it, or leaves it alone. When it starts at most at one and without holders, there is never more
  than one holder.
\<close>

definition lock_move :: "nat \<Rightarrow> 't set \<Rightarrow> nat \<Rightarrow> 't set \<Rightarrow> bool" where
  "lock_move n H n' H' \<longleftrightarrow> n' \<le> n \<and> H' = H \<or> (\<exists>t. n = Suc n' \<and> H' = insert t H) \<or> (\<exists>t \<in> H. n' = Suc n \<and> H' = H - {t})"

locale mutex =
  fixes start :: "'s \<Rightarrow> bool"
    and step :: "'s \<Rightarrow> 's \<Rightarrow> bool"
    and free :: "'s \<Rightarrow> nat"
    and holders :: "'s \<Rightarrow> 't set"
  assumes start_free: "start s \<Longrightarrow> free s \<le> 1 \<and> holders s = {}"
    and step_move: "step s t \<Longrightarrow> lock_move (free s) (holders s) (free t) (holders t)"
begin

lemma start_held: "start s \<Longrightarrow> finite (holders s) \<and> free s + card (holders s) \<le> 1"
  using start_free [of s] by simp

lemma move_inv:
  assumes "finite (holders s) \<and> free s + card (holders s) \<le> 1" and "step s t"
  shows "finite (holders t) \<and> free t + card (holders t) \<le> 1"
proof -
  from step_move [OF assms(2)] consider "free t \<le> free s" "holders t = holders s"
    | u where "free s = Suc (free t)" "holders t = insert u (holders s)"
    | u where "u \<in> holders s" "free t = Suc (free s)" "holders t = holders s - {u}"
    by (auto simp: lock_move_def)
  then show ?thesis
  proof cases
    case 2
    then show ?thesis using assms(1) by (simp add: card_insert_if)
  next
    case 3
    have "Suc (card (holders s - {u})) = card (holders s)" using assms(1) 3(1) by (intro card_Suc_Diff1) simp_all
    with 3(2) assms(1) show ?thesis unfolding 3(3) by (intro conjI) (simp, linarith)
  qed (use assms(1) in auto)
qed

lemma exclusive:
  assumes "start s" and "step\<^sup>*\<^sup>* s t" and "a \<in> holders t"
  shows "holders t = {a} \<and> free t = 0"
proof -
  from assms(2) start_held [OF assms(1)] have inv: "finite (holders t) \<and> free t + card (holders t) \<le> 1"
    by (induction rule: rtranclp_induct) (use move_inv in blast)+
  moreover have "0 < card (holders t)" using inv assms(3) by (auto simp: card_gt_0_iff)
  ultimately have "card (holders t) = 1" "free t = 0" by linarith+
  then show ?thesis using assms(3) by (metis card_1_singletonE singletonD)
qed

end

sublocale mutex \<subseteq> inv_system start step "\<lambda>s. finite (holders s) \<and> free s + card (holders s) \<le> 1"
  by unfold_locales (rule start_held, assumption, rule move_inv)

text \<open>
  Threads of processes \<open>pr\<close> that use areas of the shared memory: outside, inside with a \<open>mem_ctl\<close>, or
  inside a \<open>call\<close>. \<open>refused\<close>: the constructor throws and the thread stays outside.
\<close>

datatype tpc = T_Out | T_In mem_ctl | T_Calling mem_ctl

inductive ctl_step :: "(nat \<Rightarrow> nat) \<Rightarrow> world \<times> (nat \<Rightarrow> tpc) \<Rightarrow> world \<times> (nat \<Rightarrow> tpc) \<Rightarrow> bool" for pr where
  enter: "th t = T_Out \<Longrightarrow> mem_ctl_ctor ok tag e (pr t) w = Some (Inr c, w') \<Longrightarrow> ctl_step pr (w, th) (w', th(t := T_In c))"
| refused: "th t = T_Out \<Longrightarrow> mem_ctl_ctor ok tag e (pr t) w = Some (Inl x, w') \<Longrightarrow> ctl_step pr (w, th) (w', th)"
| leave: "th t = T_In c \<Longrightarrow> mem_ctl_dtor ok c (pr t) w = Inr w' \<Longrightarrow> ctl_step pr (w, th) (w', th(t := T_Out))"
| release: "th t = T_In c \<Longrightarrow> ctl_release ok c (pr t) w = Inr w' \<Longrightarrow> ctl_step pr (w, th) (w', th(t := T_Calling c))"
| acquire: "th t = T_Calling c \<Longrightarrow> ctl_acquire ok c (pr t) w = Some (Inr w') \<Longrightarrow> ctl_step pr (w, th) (w', th(t := T_In c))"

definition key_in :: "lkey \<Rightarrow> nat \<Rightarrow> world \<Rightarrow> tpc \<Rightarrow> bool" where
  "key_in x p w pc =
     (case pc of
        T_Out \<Rightarrow> False
      | T_In c \<Rightarrow> lkey_of (ctl_lock c) p w = Some x
      | T_Calling c \<Rightarrow> elw_sem (ctl_lock c) = None \<and> lkey_of (ctl_lock c) p w = Some x)"

definition ctl_holders :: "lkey \<Rightarrow> (nat \<Rightarrow> nat) \<Rightarrow> world \<times> (nat \<Rightarrow> tpc) \<Rightarrow> nat set" where
  "ctl_holders x pr s = {t. key_in x (pr t) (fst s) (snd s t)}"

lemma lkey_of_frame: "lock_frame w w' \<Longrightarrow> lkey_of e p w' = lkey_of e p w"
  by (cases "elw_sem e") (simp_all add: lock_frame_def lkey_of_def shm_of_def)

lemma key_in_frame: "lock_frame w w' \<Longrightarrow> key_in x p w' pc = key_in x p w pc"
  by (cases pc) (simp_all add: key_in_def lkey_of_frame)

lemma holders_upd:
  assumes "lock_frame w w'"
  shows "ctl_holders x pr (w', th(t := pc)) =
    (if key_in x (pr t) w pc then insert t (ctl_holders x pr (w, th)) else ctl_holders x pr (w, th) - {t})"
  using key_in_frame [OF assms, of x] by (auto simp: ctl_holders_def)

lemma holders_mem: "t \<in> ctl_holders x pr (w, th) \<longleftrightarrow> key_in x (pr t) w (th t)"
  by (simp add: ctl_holders_def)

lemma mem_get_refused:
  assumes "mem_get ok t e p w = Some (Inl x, w')"
  shows "lock_frame w w' \<and> count y w' \<le> count y w"
  using assms
  by (auto simp: ctl_defs lock_frame_def count_def Let_def split: if_splits option.splits lkey.splits)

lemma ctl_ctor_get:
  "mem_ctl_ctor ok t e p w = Some (Inr c, w') \<Longrightarrow> ctl_lock c = e \<and> mem_get ok t e p w = Some (Inr (ctl_area c), w')"
  "mem_ctl_ctor ok t e p w = Some (Inl x, w') \<Longrightarrow> mem_get ok t e p w = Some (Inl x, w')"
  by (auto simp: mem_ctl_ctor_def split: option.splits sum.splits)

lemma ctl_step_move:
  assumes "ctl_step pr s s'"
  shows "lock_move (count x (fst s)) (ctl_holders x pr s) (count x (fst s')) (ctl_holders x pr s')"
  using assms
proof cases
  case (enter th t ok tag e w c w')
  from ctl_ctor_get(1) [OF enter(4)] have c: "ctl_lock c = e" "mem_get ok tag e (pr t) w = Some (Inr (ctl_area c), w')" by auto
  note b = mem_get_bump [OF c(2)]
  have "t \<notin> ctl_holders x pr (w, th)" using enter(3) by (simp add: holders_mem key_in_def)
  then show ?thesis
    using b c(1) enter(1,2) holders_upd [of w w' x pr th t "T_In c"] by (auto simp: bump_def lock_move_def key_in_def split: if_splits)
next
  case (refused th t ok tag e w y w')
  from mem_get_refused [OF ctl_ctor_get(2) [OF refused(4)], of x] have "lock_frame w w'" "count x w' \<le> count x w" by auto
  moreover from this have "ctl_holders x pr (w', th) = ctl_holders x pr (w, th)" by (simp add: ctl_holders_def key_in_frame)
  ultimately show ?thesis using refused(1,2) by (simp add: lock_move_def)
next
  case (leave th t c ok w w')
  have b: "bump (\<lambda>n. n + 1) (lkey_of (ctl_lock c) (pr t) w) w w'" using leave(4) by (intro mem_put_bump) (simp add: mem_ctl_dtor_def)
  have "t \<in> ctl_holders x pr (w, th) \<longleftrightarrow> lkey_of (ctl_lock c) (pr t) w = Some x" using leave(3) by (simp add: holders_mem key_in_def)
  then show ?thesis
    using b leave(1,2) holders_upd [of w w' x pr th t T_Out] by (auto simp: bump_def lock_move_def key_in_def)
next
  case (release th t c ok w w')
  note b = ctl_release_bump [OF release(4)]
  have "t \<in> ctl_holders x pr (w, th) \<longleftrightarrow> lkey_of (ctl_lock c) (pr t) w = Some x" using release(3) by (simp add: holders_mem key_in_def)
  then show ?thesis
    using b release(1,2) holders_upd [of w w' x pr th t "T_Calling c"]
    by (auto simp: bump_def lock_move_def key_in_def inner_key_def insert_absorb)
next
  case (acquire th t c ok w w')
  note b = ctl_acquire_bump [OF acquire(4)]
  have "t \<in> ctl_holders x pr (w, th) \<longleftrightarrow> elw_sem (ctl_lock c) = None \<and> lkey_of (ctl_lock c) (pr t) w = Some x"
    using acquire(3) by (simp add: holders_mem key_in_def)
  then show ?thesis
    using b acquire(1,2) holders_upd [of w w' x pr th t "T_In c"]
    by (auto simp: bump_def lock_move_def key_in_def inner_key_def insert_absorb split: if_splits)
qed

definition ctl_start :: "lkey \<Rightarrow> world \<times> (nat \<Rightarrow> tpc) \<Rightarrow> bool" where
  "ctl_start x s \<longleftrightarrow> count x (fst s) \<le> 1 \<and> (\<forall>t. snd s t = T_Out)"

lemma ctl_start_holders: "ctl_start x s \<Longrightarrow> ctl_holders x pr s = {}"
  by (simp add: ctl_start_def ctl_holders_def key_in_def)

interpretation mx: mutex "ctl_start x" "ctl_step pr" "\<lambda>s. count x (fst s)" "ctl_holders x pr" for x pr
proof
  show "count x (fst s) \<le> 1 \<and> ctl_holders x pr s = {}" if "ctl_start x s" for s
    using that ctl_start_holders [OF that] by (simp add: ctl_start_def)
qed (rule ctl_step_move)

section \<open>Properties\<close>


text \<open>An open socket in every process, attached to object 0.\<close>

definition ctl_world :: world where
  "ctl_world = (empty_world small_mq_os)\<lparr>w_shm := (\<lambda>_. (guard_init zero_shm)\<lparr>so_state := OK\<rparr>),
     w_proc := (\<lambda>_. no_proc\<lparr>pr_shd := Some 0, pr_lock := Some 0\<rparr>)\<rparr>"

lemmas ctl_eval = mem_ctl_ctor_def mem_ctl_dtor_def ctl_defs recv_protected_area_def send_protected_area_def guard_load_def elw_def
  ctl_world_def guard_init_def guard_locks_def lkey_of_def count_def Let_def


text \<open>
  C27: The scope of a \<open>mem_ctl\<close>: its destructor restores the semaphores that its constructor found, whether
  the lock is one of the shared object, the semaphore of the label or none, and the area lies inside
  the client memory.
\<close>

lemma upd_shm_restore: "upd_shm j (\<lambda>_. w_shm w j) w = w"
  by (simp add: upd_shm_def)

theorem area_scope_restores:
  assumes "mem_ctl_ctor True t e p w = Some (Inr c, w1)" and "t < MEM_TAG_END"
  shows "mem_ctl_dtor True c p w1 = Inr w \<and> ctl_area c + area_sz t \<le> mem_full_sz"
proof -
  from ctl_ctor_get(1) [OF assms(1)] have c: "ctl_lock c = e" "mem_get True t e p w = Some (Inr (ctl_area c), w1)" by auto
  have "mem_put True e p w1 = Inr w"
    using c(2) by (cases w) (auto simp: ctl_defs fun_upd_idem_iff Let_def split: if_splits option.splits)
  moreover have "ctl_area c + area_sz t \<le> mem_full_sz"
    using mem_get_bump(3) [OF c(2)] prefix_off_next [of "tag_val t" "tag_val MEM_TAG_END"] assms(2)
    by (simp add: summary_prefix_off_def mem_full_sz_def less_MEM_TAG_def)
  ultimately show ?thesis using c(1) by (simp add: mem_ctl_dtor_def)
qed

theorem area_scope_restores_witness:
  "\<exists>c w1. send_protected_area (guard_load guard_ctor) True INTERNAL_STATE 0 ctl_world = Some (Inr c, w1) \<and>
     mem_ctl_dtor True c 0 w1 = Inr ctl_world"
proof -
  obtain c w1 where "mem_ctl_ctor True INTERNAL_STATE (elw (Some 0)) 0 ctl_world = Some (Inr c, w1)" by (simp add: ctl_eval)
  with area_scope_restores [OF this] show ?thesis by (auto simp: send_protected_area_def guard_load_def less_MEM_TAG_def)
qed

text \<open>
  Access to a socket that another process has closed: the constructor throws after it has taken the
  lock and nobody gives the lock back. The first access reports the closed socket; every later one
  under the same lock, in any process, waits for ever.
\<close>

theorem closed_socket_keeps_lock:
  assumes "so_state (w_shm w (shm_of p w)) = UNLINKED" and "elw_sem e = Some k" and "\<not> elw_ignored e"
    and "so_locks (w_shm w (shm_of p w)) k = 1"
  shows "\<exists>w'. mem_ctl_ctor True t e p w = Some (Inl (Fuck ''socket has been already closed''), w') \<and>
    (\<forall>q t'. shm_of q w = shm_of p w \<longrightarrow> mem_ctl_ctor True t' e q w' = None)"
  using assms by (simp add: mem_ctl_ctor_def ctl_defs Let_def)

theorem closed_socket_keeps_lock_witness:
  "\<exists>w'. recv_protected_area (guard_load guard_ctor) True INPUT_RECEIVER_WINDOW_PROCESSING 0 (upd_shm 0 (\<lambda>s. s\<lparr>so_state := UNLINKED\<rparr>) ctl_world) =
      Some (Inl (Fuck ''socket has been already closed''), w') \<and>
    recv_protected_area (guard_load guard_ctor) True INPUT_RECEIVER_WINDOW_PROCESSING 0 w' = None"
proof -
  let ?w = "upd_shm 0 (\<lambda>s. s\<lparr>so_state := UNLINKED\<rparr>) ctl_world"
  have "shm_of 0 ?w = 0" "so_state (w_shm ?w 0) = UNLINKED" "so_locks (w_shm ?w 0) 1 = 1" by (simp_all add: ctl_eval)
  with closed_socket_keeps_lock [of ?w 0 "elw (Some 1)" 1 INPUT_RECEIVER_WINDOW_PROCESSING] show ?thesis
    by (auto simp: recv_protected_area_def guard_load_def elw_def)
qed

end
