(* ===== verification/Unit_Tests.thy ===== *)
theory Unit_Tests
  imports Congestion Sock_Mq
begin

text \<open>
  The unit tests of \<open>src/tcp_test_boost.cpp\<close> that run on single components, replayed on the model: each
  \<open>BOOST_REQUIRE\<close> is a conjunct, or a guard of a step that returns \<open>None\<close> when the requirement fails. That
  the model passes the program's own tests is evidence that it does what the program does.
\<close>

section \<open>Windows\<close>

definition receiver_window_test :: bool where
  "receiver_window_test =
     (let limit = (- 1) + 1 :: tcp_seq; w = (\<lambda>a b. receiver_window2 (seq_to_size a) b) in
      contains (w 0 100) (w 10 50) \<and>
      \<not> contains (w 0 100) (w 10 110) \<and>
      \<not> contains (w 50 100) (w 40 60) \<and>
      \<not> contains (w 50 100) (w 40 110) \<and>
      contains (w (limit - 100) 200) (w (limit - 50) 60) \<and>
      contains (w (limit - 100) 200) (w 50 40) \<and>
      \<not> contains (w (limit - 100) 200) (w (limit - 50) 600) \<and>
      \<not> contains (w (limit - 100) 200) (w (limit - 110) 40) \<and>
      \<not> contains (w (limit - 100) 200) (w (limit - 110) 120) \<and>
      \<not> contains (w (limit - 100) 200) (w (limit - 110) 600) \<and>
      \<not> contains (w (limit - 100) 200) (w 110 600))"

definition send_window_test :: bool where
  "send_window_test =
     (let limit = size_to_seq seq_modulo;
          v = set_off_from_seq 1 (send_window4 1 0 0 100);
          w = set_off_from_seq 1 (send_window4 (seq_to_size (limit - 1)) 0 0 100)
      in rw_off v = 1 \<and> get_sz v = 99 \<and> sw_sent_off v = 0 \<and> rw_start v = 1 \<and>
         rw_off w = 3 \<and> get_sz w = 97 \<and> sw_sent_off w = 0 \<and> rw_start w = seq_to_size (limit - 1))"

section \<open>Checksum\<close>

definition chsum_test :: bool where
  "chsum_test =
     (let input_buf = map word_of_nat [0..<97] :: u8 list
      in list_all (\<lambda>i. chsum (take (i + 1) input_buf) \<noteq> chsum (take (i + 1) (input_buf[i := input_buf ! i + 1]))) [0..<97])"

section \<open>fast_retransmit\<close>

text \<open>The test's controller: \<open>output_on_retry\<close> is allowed only when \<open>retry\<close> is set, and resets it.\<close>

definition fr_test_ack :: "tcp_seq \<Rightarrow> fr_area \<times> bool \<Rightarrow> (fr_area \<times> bool) option" where
  "fr_test_ack seq s =
     (case fr_on_ack (set_seq seq (set_ack (msg_new None 0))) (fst s) of
        (a, called) \<Rightarrow> if called then (if snd s then Some (a, False) else None) else Some (a, snd s))"

fun fr_test_acks :: "tcp_seq list \<Rightarrow> fr_area \<times> bool \<Rightarrow> (fr_area \<times> bool) option" where
  "fr_test_acks [] s = Some s"
| "fr_test_acks (q # qs) s = (case fr_test_ack q s of None \<Rightarrow> None | Some t \<Rightarrow> fr_test_acks qs t)"

definition fr_test_round :: "tcp_seq \<Rightarrow> fr_area \<Rightarrow> fr_area option" where
  "fr_test_round j a =
     (case fr_test_acks (replicate (nat TCP_FAST_RETRANSMIT_BOUND - 1) j) (a, False) of
        None \<Rightarrow> None
      | Some (a1, _) \<Rightarrow>
          (case fr_test_ack j (a1, True) of
             None \<Rightarrow> None
           | Some (a2, retry) \<Rightarrow> if \<not> retry then Some a2 else None))"

definition fast_retransmit_test :: bool where
  "fast_retransmit_test =
     (case fr_test_round 0 (fr (on_init zero_mem)) of
        None \<Rightarrow> False
      | Some a \<Rightarrow>
          (case fr_test_round 1 a of
             None \<Rightarrow> False
           | Some b \<Rightarrow> fr_test_acks (map word_of_nat [0..<nat TCP_FAST_RETRANSMIT_BOUND * 3]) (b, False) \<noteq> None))"

section \<open>output_control_flow_persist_timer\<close>

text \<open>
  The test's controller: \<open>ping\<close>, \<open>ping_ready\<close> and the window size of its message. \<open>output_set_ping_only\<close>
  with \<open>True\<close> starts the thread \<open>t1\<close>, and \<open>output_wait_win_sz_not_zero\<close> lasts until \<open>t1\<close> has set the
  window size; so \<open>t1\<close> has run when the wait is over.
\<close>

record persist_fake =
  pf_ping :: bool
  pf_ready :: bool
  pf_ack :: msg

definition pf_set_ping_only :: "bool \<Rightarrow> persist_fake \<Rightarrow> persist_fake option" where
  "pf_set_ping_only enable s =
     (if pf_ping s \<noteq> enable \<and> pf_ready s then Some (s\<lparr>pf_ping := enable, pf_ready := False\<rparr>) else None)"

fun pf_calls :: "(persist_fake \<Rightarrow> persist_fake option) \<Rightarrow> persist_call list \<Rightarrow> persist_fake \<Rightarrow> persist_fake option" where
  "pf_calls t1 [] s = Some s"
| "pf_calls t1 (Set_ping_only b # cs) s = (case pf_set_ping_only b s of None \<Rightarrow> None | Some t \<Rightarrow> pf_calls t1 cs t)"
| "pf_calls t1 (Wait_win_sz_not_zero # cs) s =
     (case t1 s of None \<Rightarrow> None | Some t \<Rightarrow> if get_window_sz (pf_ack t) = 0 then None else pf_calls t1 cs t)"
| "pf_calls t1 (Signal_win_sz_not_zero # cs) s = pf_calls t1 cs s"

definition pf_on_ack :: "(persist_fake \<Rightarrow> persist_fake option) \<Rightarrow> bool \<Rightarrow> persist_fake \<Rightarrow> persist_fake option" where
  "pf_on_ack t1 ping_only s = pf_calls t1 (persist_on_ack (pf_ack s) ping_only) s"

definition pf_t1 :: "persist_fake \<Rightarrow> persist_fake option" where
  "pf_t1 s =
     (if \<not> pf_ping s then None
      else case foldr (\<lambda>_ r. Option.bind r (pf_on_ack Some True)) [0..<100] (Some s) of
             None \<Rightarrow> None
           | Some s1 \<Rightarrow>
               (case pf_on_ack Some True (s1\<lparr>pf_ready := True, pf_ack := set_window_sz 1 (pf_ack s1)\<rparr>) of
                  None \<Rightarrow> None
                | Some s2 \<Rightarrow> if \<not> pf_ready s2 \<and> \<not> pf_ping s2 then Some s2 else None))"

definition persist_timer_test :: bool where
  "persist_timer_test =
     (case pf_on_ack pf_t1 False \<lparr>pf_ping = False, pf_ready = True, pf_ack = msg_new None 0\<rparr> of
        None \<Rightarrow> False
      | Some s \<Rightarrow> \<not> pf_ready s \<and> \<not> pf_ping s)"

section \<open>timeout_computing\<close>

text \<open>The timeouts after each \<open>refresh\<close>, for the time stamps that the controller returns.\<close>

fun tc_test_loop :: "msg \<Rightarrow> msg \<Rightarrow> size_t list \<Rightarrow> tc_area \<Rightarrow> tc_area \<times> size_t list" where
  "tc_test_loop sender ack [] a = (a, [])"
| "tc_test_loop sender ack (ts # tss) a =
     (let a1 = tc_refresh ts sender ack a; (a2, ns) = tc_test_loop sender ack tss a1 in (a2, get_timeout a1 # ns))"

definition timeout_computing_test :: bool where
  "timeout_computing_test =
     (let a = 1000000; b = 3000000;
          ack = set_sender_timestamp (a + 2000) (set_recv_timestamp a (msg_new None 0));
          up = set_recv_timestamp (get_recv_timestamp ack - 1000) (set_sender_timestamp b (msg_new None 0));
          down = set_recv_timestamp (get_recv_timestamp ack + 1000) up;
          ups = map (\<lambda>i. b + 2000 + word_of_nat (1000 * Suc i)) [0..<10];
          downs = map (\<lambda>i. b + 12000 - word_of_nat (1000 * Suc i)) [0..<10];
          (s1, ns) = tc_test_loop up ack ups (tc (on_init zero_mem));
          (s2, ks) = tc_test_loop down ack downs s1
      in sorted (0 # ns) \<and> last ks \<le> last ns)"

section \<open>Message queues\<close>

definition mq_test_data :: "u8 list list" where
  "mq_test_data = map (\<lambda>i. nat_to_le 4 (i + 1)) [0..<100]"

fun test_mq_get :: "sock_mq \<Rightarrow> u8 list list \<Rightarrow> mq_os \<Rightarrow> bool" where
  "test_mq_get q [] os = True"
| "test_mq_get q (d # ds) os =
     (case get_msg q 4 os of
        Some (Inr ((pr, rec), os')) \<Rightarrow> d = rec \<and> pr = 1 \<and> test_mq_get q ds os'
      | _ \<Rightarrow> False)"

definition test_mq_data :: "sock_mq \<Rightarrow> mq_os \<Rightarrow> bool" where
  "test_mq_data q os =
     (case put_msgs q mq_test_data os of Some (Inr os') \<Rightarrow> test_mq_get q mq_test_data os' | _ \<Rightarrow> False)"

text \<open>Both queues of one round are closed at its end, the later one first.\<close>

definition mq_test_round :: "bool \<Rightarrow> mq_param \<Rightarrow> mq_os \<Rightarrow> mq_os option" where
  "mq_test_round granted param os =
     (case sock_mq_open granted param os of
        (Inl _, _) \<Rightarrow> None
      | (Inr q, os1) \<Rightarrow>
          (case sock_mq_open granted (param\<lparr>mp_create := False\<rparr>) os1 of
             (Inl _, _) \<Rightarrow> None
           | (Inr q2, os2) \<Rightarrow> Some (sock_mq_close q (sock_mq_close q2 os2))))"

fun mq_test_rounds :: "nat \<Rightarrow> bool \<Rightarrow> mq_param \<Rightarrow> mq_os \<Rightarrow> mq_os option" where
  "mq_test_rounds 0 granted param os = Some os"
| "mq_test_rounds (Suc n) granted param os =
     (case mq_test_round granted param os of None \<Rightarrow> None | Some os' \<Rightarrow> mq_test_rounds n granted param os')"

definition mq_test :: "(string \<Rightarrow> u32) \<Rightarrow> bool \<Rightarrow> mq_os \<Rightarrow> bool" where
  "mq_test inet_addr granted os =
     (let a = fill_param inet_addr ''127.0.0.1'' 0;
          param = \<lparr>mp_id = \<lparr>in_addr = a, out_addr = a\<rparr>, mp_create = True, mp_attr = default_mq_attr\<rparr>
      in case mq_test_rounds 10 granted param os of
           None \<Rightarrow> False
         | Some os1 \<Rightarrow>
             (case sock_mq_open granted (param\<lparr>mp_create := False\<rparr>) os1 of
                (Inl (Fuck _), os2) \<Rightarrow>
                  (case sock_mq_open granted (param\<lparr>mp_attr := default_mq_attr\<lparr>mq_msgsize := 4\<rparr>\<rparr>) os2 of
                     (Inl _, _) \<Rightarrow> False
                   | (Inr q, os3) \<Rightarrow> test_mq_data q os3)
              | _ \<Rightarrow> False))"

text \<open>The bytes that \<open>malloc\<close> returns are an argument; there are as many as the queue takes in a message.\<close>

text \<open>A message of the full size, whose contents \<open>malloc\<close> leaves open, and two queues with swapped addresses. The
  queues live until the test has ended.\<close>

definition mq_test_long_msg :: "(string \<Rightarrow> u32) \<Rightarrow> bool \<Rightarrow> u8 list \<Rightarrow> mq_os \<Rightarrow> bool" where
  "mq_test_long_msg inet_addr granted data os =
     (let a = fill_param inet_addr ''127.0.0.1'' 0;
          param = \<lparr>mp_id = \<lparr>in_addr = a, out_addr = a\<rparr>, mp_create = True, mp_attr = default_tcp_mq_attr\<rparr>
      in case sock_mq_open granted param os of
           (Inl _, _) \<Rightarrow> False
         | (Inr mq, os1) \<Rightarrow>
             (case put_msg mq data 1 os1 of
                Some (Inr os2) \<Rightarrow> (case get_msg mq (length data) os2 of Some (Inr _) \<Rightarrow> True | _ \<Rightarrow> False)
              | _ \<Rightarrow> False))"

definition several_mq_test :: "(string \<Rightarrow> u32) \<Rightarrow> bool \<Rightarrow> mq_os \<Rightarrow> bool" where
  "several_mq_test inet_addr granted os =
     (let a = fill_param inet_addr ''127.0.0.1'' 0; b = fill_param inet_addr ''127.0.0.1'' 80;
          param = \<lparr>mp_id = \<lparr>in_addr = a, out_addr = b\<rparr>, mp_create = True, mp_attr = default_tcp_mq_attr\<rparr>
      in case sock_mq_open granted param os of
           (Inl _, _) \<Rightarrow> False
         | (Inr mq, os1) \<Rightarrow>
             (case sock_mq_open granted (param\<lparr>mp_id := \<lparr>in_addr = b, out_addr = a\<rparr>\<rparr>) os1 of
                (Inl _, _) \<Rightarrow> False
              | (Inr mq2, _) \<Rightarrow> True))"

section \<open>The tests pass\<close>

lemma receiver_window_test_passes: "receiver_window_test"
  by code_simp

lemma send_window_test_passes: "send_window_test"
  by code_simp

lemma fast_retransmit_test_passes: "fast_retransmit_test"
  by code_simp

lemma persist_timer_test_passes: "persist_timer_test"
  by code_simp

lemma chsum_test_passes: "chsum_test"
proof -
  let ?buf = "map word_of_nat [0..<97] :: u8 list"
  have "chsum (take (i + 1) ?buf) \<noteq> chsum (take (i + 1) (?buf[i := ?buf ! i + 1]))" if "i < 97" for i
    using chsum_update_neq [of "take (i + 1) ?buf" i "?buf ! i + 1"] that by (simp add: take_update_swap)
  then show ?thesis by (simp add: chsum_test_def list_all_iff)
qed

lemma tc_test_step:
  "compute_timeout R \<lparr>SRTT = s, RTTVAR = v, nm = n\<rparr> =
     (if n = 0 then \<lparr>SRTT = R, RTTVAR = R div 2, nm = 1\<rparr>
      else \<lparr>SRTT = eighths_to_size (dbl_round (dbl_round (7 * dbl_round (unat s)) + dbl_round (dbl_round (unat R)))),
             RTTVAR = eighths_to_size (dbl_round (dbl_round (6 * dbl_round (unat v)) + dbl_round (2 * dbl_round (nat \<bar>sint (s - R)\<bar>)))),
             nm = n + 1\<rparr>)"
  by (simp add: compute_timeout_def clean_compute_def noclean_compute_def Let_def)

lemma tc_test_refresh:
  "tc_refresh ts (set_recv_timestamp x (set_sender_timestamp 3000000 (msg_new None 0)))
     (set_sender_timestamp 1002000 (set_recv_timestamp 1000000 (msg_new None 0))) a = compute_timeout (ts - 3002000) a"
  by (simp add: tc_refresh_def msg_access_defs Let_def)

lemma set_recv_twice: "set_recv_timestamp x (set_recv_timestamp y m) = set_recv_timestamp x m"
  by (simp add: msg_access_defs)

lemma tc_test_start: "tc (on_init zero_mem) = \<lparr>SRTT = 0, RTTVAR = 0, nm = 0\<rparr>"
  by (simp add: on_init_def init_below_numeral mem_tags_def zero_mem_def)

lemma timeout_computing_test_passes: "timeout_computing_test"
proof -
  let ?ups = "[3003000, 3004000, 3005000, 3006000, 3007000, 3008000, 3009000, 3010000, 3011000, 3012000] :: size_t list"
  let ?downs = "[3011000, 3010000, 3009000, 3008000, 3007000, 3006000, 3005000, 3004000, 3003000, 3002000] :: size_t list"
  have l: "map (\<lambda>i. 3000000 + 2000 + word_of_nat (1000 * Suc i)) [0..<10] = ?ups" "map (\<lambda>i. 3000000 + 12000 - word_of_nat (1000 * Suc i)) [0..<10] = ?downs"
    by (simp_all add: upt_rec)
  show ?thesis
    unfolding timeout_computing_test_def Let_def l tc_test_start
    by (simp add: set_recv_twice tc_test_refresh tc_test_step get_timeout_def get_rto_def eighths_to_size_def)
qed

text \<open>A privileged process in which the queue of the label does not exist.\<close>

definition mq_room :: "string \<Rightarrow> mq_os \<Rightarrow> bool" where
  "mq_room l os \<longleftrightarrow> mo_priv os \<and> mo_rlim os \<noteq> None \<and> mo_names os l = None"

lemma raise_privileged:
  assumes "mo_priv os" and "mo_rlim os \<noteq> None"
  shows "\<exists>r. raise_mq_rlimit a os = Inr (os\<lparr>mo_rlim := Some r\<rparr>)"
proof -
  obtain y where y: "mo_rlim os = Some y" using assms(2) by blast
  then have "os = os\<lparr>mo_rlim := Some y\<rparr>" by simp
  moreover have "raise_mq_rlimit a os = Inr os \<or>
      raise_mq_rlimit a os = Inr (os\<lparr>mo_rlim := Some \<lparr>rlim_cur = mq_required a y, rlim_max = mq_required a y\<rparr>\<rparr>)"
    using y assms(1) by (simp add: raise_mq_rlimit_def get_mq_rlimit_def set_mq_rlimit_def Let_def)
  ultimately show ?thesis by metis
qed

lemma open_room:
  assumes "mq_room (sock_label (mp_id param)) os" and "mp_create param"
  shows "\<exists>r. sock_mq_open True param os = (Inr \<lparr>smq_create = True, smq_label = sock_label (mp_id param), smq_mq = mo_next os\<rparr>,
    os\<lparr>mo_rlim := Some r, mo_names := (mo_names os)(sock_label (mp_id param) \<mapsto> mo_next os), mo_next := mo_next os + 1,
      mo_obj := (mo_obj os)(mo_next os := \<lparr>mqu_attr = mp_attr param, mqu_msgs = []\<rparr>)\<rparr>)"
proof -
  obtain r where "raise_mq_rlimit (mp_attr param) os = Inr (os\<lparr>mo_rlim := Some r\<rparr>)" using raise_privileged assms(1) by (auto simp: mq_room_def)
  then show ?thesis using assms by (intro exI [of _ r]) (simp add: sock_mq_open_def mq_open_def mq_room_def)
qed

lemma mq_test_round_ok:
  assumes "mq_room (sock_label (mp_id param)) os" and "mp_create param"
  shows "\<exists>os'. mq_test_round True param os = Some os' \<and> mq_room (sock_label (mp_id param)) os'"
proof -
  let ?l = "sock_label (mp_id param)"
  obtain r where o: "sock_mq_open True param os = (Inr \<lparr>smq_create = True, smq_label = ?l, smq_mq = mo_next os\<rparr>,
      os\<lparr>mo_rlim := Some r, mo_names := (mo_names os)(?l \<mapsto> mo_next os), mo_next := mo_next os + 1,
        mo_obj := (mo_obj os)(mo_next os := \<lparr>mqu_attr = mp_attr param, mqu_msgs = []\<rparr>)\<rparr>)" (is "_ = (_, ?os1)")
    using open_room [OF assms] by blast
  obtain r' where "raise_mq_rlimit (mp_attr param) ?os1 = Inr (?os1\<lparr>mo_rlim := Some r'\<rparr>)"
    using raise_privileged [of ?os1] assms(1) by (auto simp: mq_room_def)
  then have "sock_mq_open True (param\<lparr>mp_create := False\<rparr>) ?os1 =
      (Inr \<lparr>smq_create = False, smq_label = ?l, smq_mq = mo_next os\<rparr>, ?os1\<lparr>mo_rlim := Some r'\<rparr>)"
    by (simp add: sock_mq_open_def mq_open_def)
  with o show ?thesis using assms(1) by (simp add: mq_test_round_def sock_mq_close_def mq_room_def)
qed

lemma mq_test_rounds_ok:
  "mq_room (sock_label (mp_id param)) os \<Longrightarrow> mp_create param \<Longrightarrow>
     \<exists>os'. mq_test_rounds n True param os = Some os' \<and> mq_room (sock_label (mp_id param)) os'"
proof (induction n arbitrary: os)
  case (Suc n)
  from mq_test_round_ok [OF Suc.prems] obtain os' where "mq_test_round True param os = Some os'" "mq_room (sock_label (mp_id param)) os'" by blast
  with Suc show ?case by simp
qed simp

lemma test_mq_get_ok:
  "mqu_msgs (mo_obj os (smq_mq q)) = map (Pair 1) ds \<Longrightarrow> mq_msgsize (mqu_attr (mo_obj os (smq_mq q))) \<le> 4 \<Longrightarrow> test_mq_get q ds os"
  by (induction ds arbitrary: os) (simp_all add: get_msg_def mq_receive_def)

lemma test_mq_data_ok:
  assumes "mo_obj os (smq_mq q) = \<lparr>mqu_attr = default_mq_attr\<lparr>mq_msgsize := 4\<rparr>, mqu_msgs = []\<rparr>"
  shows "test_mq_data q os"
proof -
  let ?x = "mo_obj os (smq_mq q)"
  have "length (nat_to_le 4 i) = 4" for i by simp
  then have "list_all (\<lambda>m. int (length m) \<le> mq_msgsize (mqu_attr ?x)) mq_test_data" "int (length (mqu_msgs ?x) + length mq_test_data) \<le> mq_maxmsg (mqu_attr ?x)"
    using assms by (simp_all add: mq_test_data_def list_all_iff default_mq_attr_def)
  then obtain y where y: "mb.puts mq_test_data ?x = Some y" "mqu_attr y = mqu_attr ?x" using puts_fit by blast
  have "mbox_ok ?x" "mbox_contents ?x = []" using assms by (simp_all add: mbox_ok_def mbox_contents_def)
  then have "mbox_ok y" "mbox_contents y = mq_test_data" using mb.puts_contents [OF _ y(1)] by simp_all
  then have "mqu_msgs y = map (Pair 1) mq_test_data"
    using map_idI [of "mqu_msgs y" "Pair 1 \<circ> snd"] by (auto simp: mbox_ok_def mbox_contents_def list_all_iff prod_eq_iff simp flip: map_map)
  then show ?thesis
    using put_msgs_puts [OF y(1)] y(2) assms by (auto simp: test_mq_data_def intro!: test_mq_get_ok)
qed

lemma mq_test_passes:
  assumes "mq_room (sock_label \<lparr>in_addr = fill_param inet ''127.0.0.1'' 0, out_addr = fill_param inet ''127.0.0.1'' 0\<rparr>) os"
  shows "mq_test inet True os"
proof -
  let ?sid = "\<lparr>in_addr = fill_param inet ''127.0.0.1'' 0, out_addr = fill_param inet ''127.0.0.1'' 0\<rparr>"
  let ?p = "\<lparr>mp_id = ?sid, mp_create = True, mp_attr = default_mq_attr\<rparr>"
  obtain os1 where os1: "mq_test_rounds 10 True ?p os = Some os1" "mq_room (sock_label ?sid) os1"
    using mq_test_rounds_ok [of ?p os 10] assms by auto
  obtain r where r: "raise_mq_rlimit default_mq_attr os1 = Inr (os1\<lparr>mo_rlim := Some r\<rparr>)"
    using raise_privileged os1(2) by (auto simp: mq_room_def)
  let ?os2 = "os1\<lparr>mo_rlim := Some r\<rparr>"
  have o2: "sock_mq_open True (?p\<lparr>mp_create := False\<rparr>) os1 = (Inl (Fuck ''sock mq open failed ''), ?os2)"
    using os1(2) r by (simp add: sock_mq_open_def mq_open_def mq_room_def)
  obtain r' where "raise_mq_rlimit (default_mq_attr\<lparr>mq_msgsize := 4\<rparr>) ?os2 = Inr (?os2\<lparr>mo_rlim := Some r'\<rparr>)"
    using raise_privileged [of ?os2] os1(2) by (auto simp: mq_room_def)
  then obtain q os3 where o3: "sock_mq_open True (?p\<lparr>mp_attr := default_mq_attr\<lparr>mq_msgsize := 4\<rparr>\<rparr>) ?os2 = (Inr q, os3)"
      "mo_obj os3 (smq_mq q) = \<lparr>mqu_attr = default_mq_attr\<lparr>mq_msgsize := 4\<rparr>, mqu_msgs = []\<rparr>"
    using os1(2) by (simp add: sock_mq_open_def mq_open_def mq_room_def)
  then show ?thesis using os1(1) o2 test_mq_data_ok [OF o3(2)] by (simp add: mq_test_def Let_def)
qed

lemma mq_test_long_msg_passes:
  assumes "mq_room (sock_label \<lparr>in_addr = fill_param inet ''127.0.0.1'' 0, out_addr = fill_param inet ''127.0.0.1'' 0\<rparr>) os"
    and "int (length data) = mq_msgsize default_tcp_mq_attr"
  shows "mq_test_long_msg inet True data os"
proof -
  let ?a = "fill_param inet ''127.0.0.1'' 0"
  let ?p = "\<lparr>mp_id = \<lparr>in_addr = ?a, out_addr = ?a\<rparr>, mp_create = True, mp_attr = default_tcp_mq_attr\<rparr>"
  obtain r where "sock_mq_open True ?p os = (Inr \<lparr>smq_create = True, smq_label = sock_label (mp_id ?p), smq_mq = mo_next os\<rparr>,
      os\<lparr>mo_rlim := Some r, mo_names := (mo_names os)(sock_label (mp_id ?p) \<mapsto> mo_next os), mo_next := mo_next os + 1,
        mo_obj := (mo_obj os)(mo_next os := \<lparr>mqu_attr = mp_attr ?p, mqu_msgs = []\<rparr>)\<rparr>)"
    using open_room [of ?p os] assms(1) by auto
  then show ?thesis
    using assms(2) by (simp add: mq_test_long_msg_def put_msg_def get_msg_def mq_send_def mq_receive_def MQ_PRIO_MAX_def default_tcp_mq_attr_def Let_def)
qed

lemma several_mq_test_passes:
  fixes inet :: "string \<Rightarrow> u32"
  defines "a \<equiv> fill_param inet ''127.0.0.1'' 0" and "b \<equiv> fill_param inet ''127.0.0.1'' 80"
  assumes "mq_room (sock_label \<lparr>in_addr = a, out_addr = b\<rparr>) os" and "mq_room (sock_label \<lparr>in_addr = b, out_addr = a\<rparr>) os"
  shows "several_mq_test inet True os"
proof -
  let ?p = "\<lparr>mp_id = \<lparr>in_addr = a, out_addr = b\<rparr>, mp_create = True, mp_attr = default_tcp_mq_attr\<rparr>"
  let ?q = "\<lparr>mp_id = \<lparr>in_addr = b, out_addr = a\<rparr>, mp_create = True, mp_attr = default_tcp_mq_attr\<rparr>"
  have "sin_port a \<noteq> sin_port b" by (simp add: a_def b_def fill_param_def htons_def)
  then have l: "sock_label (mp_id ?p) \<noteq> sock_label (mp_id ?q)" by (auto simp: sock_label_injective addr_comparable_def)
  obtain r where o: "sock_mq_open True ?p os = (Inr \<lparr>smq_create = True, smq_label = sock_label (mp_id ?p), smq_mq = mo_next os\<rparr>,
      os\<lparr>mo_rlim := Some r, mo_names := (mo_names os)(sock_label (mp_id ?p) \<mapsto> mo_next os), mo_next := mo_next os + 1,
        mo_obj := (mo_obj os)(mo_next os := \<lparr>mqu_attr = mp_attr ?p, mqu_msgs = []\<rparr>)\<rparr>)" (is "_ = (_, ?os)")
    using open_room [of ?p os] assms(3) by auto
  have "mq_room (sock_label (mp_id ?q)) ?os" using assms(4) l by (simp add: mq_room_def)
  from open_room [OF this] o show ?thesis by (auto simp: several_mq_test_def Let_def a_def b_def)
qed

section \<open>Property\<close>



end
