(* ===== verification/Templates.thy ===== *)
theory Templates
  imports Send_Window
begin

text \<open>
  The class templates \<open>send_output_buffer\<close> and \<open>send_cumulative_window_processing\<close> of
  \<open>src/tcp_proto_output.h\<close>, for an arbitrary controller. The socket instantiates them with itself:
  \<open>Send_Buffer\<close> and \<open>Send_Window\<close> are these instances, which is proved here. The unit tests of
  \<open>src/tcp_test_boost.cpp\<close> instantiate them with controllers of their own.
\<close>

section \<open>send_output_buffer\<close>

text \<open>The controller's state is what the record of the area is extended with; \<open>'v\<close> and \<open>'e\<close> are the
  template's types of a message in the buffer and of a future.\<close>

record ('c, 'v, 'e) buf_ctl =
  c_put_msg_inplace :: "nat \<Rightarrow> msg \<Rightarrow> 'c sob_area_scheme \<Rightarrow> (size_t \<times> 'c sob_area_scheme) res"
  c_get_msg_inplace :: "nat \<Rightarrow> 'c sob_area_scheme \<Rightarrow> 'v res"
  c_get_msg_inplace_future :: "nat \<Rightarrow> 'c sob_area_scheme \<Rightarrow> 'e res"
  c_release_inplace_msg :: "nat \<Rightarrow> 'c sob_area_scheme \<Rightarrow> (size_t \<times> 'c sob_area_scheme) res"

definition t_refresh :: "'c sob_area_scheme \<Rightarrow> 'c sob_area_scheme res" where
  "t_refresh s = put_real_off 0 0 (s\<lparr>sob_end := 0\<rparr>)"

definition t_get_msg_at :: "('c, 'v, 'e) buf_ctl \<Rightarrow> off_t \<Rightarrow> 'c sob_area_scheme \<Rightarrow> 'v res" where
  "t_get_msg_at C off s = (case real_off off s of Inl e \<Rightarrow> Inl e | Inr r \<Rightarrow> c_get_msg_inplace C (unat r) s)"

definition t_put_msg_at :: "('c, 'v, 'e) buf_ctl \<Rightarrow> off_t \<Rightarrow> msg \<Rightarrow> 'c sob_area_scheme \<Rightarrow> ('e \<times> 'c sob_area_scheme) res" where
  "t_put_msg_at C off m s =
     (case real_off off s of
        Inl e \<Rightarrow> Inl e
      | Inr r \<Rightarrow>
          (case c_put_msg_inplace C (unat r) m s of
             Inl e \<Rightarrow> Inl e
           | Inr (final_sz, s1) \<Rightarrow>
               (let s2 = s1\<lparr>sob_end := sob_end s1 + final_sz\<rparr>
                in case put_real_off (off + data_len m) (sob_end s2) s2 of
                     Inl e \<Rightarrow> Inl e
                   | Inr s3 \<Rightarrow>
                       (case real_off off s3 of
                          Inl e \<Rightarrow> Inl e
                        | Inr r' \<Rightarrow>
                            (case c_get_msg_inplace_future C (unat r') s3 of Inl e \<Rightarrow> Inl e | Inr f \<Rightarrow> Inr (f, s3))))))"

partial_function (option) t_release_loop ::
  "('c, 'v, 'e) buf_ctl \<Rightarrow> size_t \<Rightarrow> size_t \<Rightarrow> 'c sob_area_scheme \<Rightarrow> 'c sob_area_scheme res option" where
  "t_release_loop C off real_end s =
     (if off < real_end
      then (case c_release_inplace_msg C (unat off) s of
              Inl e \<Rightarrow> Some (Inl e)
            | Inr (sz, s') \<Rightarrow> t_release_loop C (off + sz) real_end s')
      else Some (Inr s))"

definition t_release_range :: "('c, 'v, 'e) buf_ctl \<Rightarrow> off_t \<Rightarrow> off_t \<Rightarrow> 'c sob_area_scheme \<Rightarrow> 'c sob_area_scheme res option" where
  "t_release_range C first last' s =
     (case real_off first s of
        Inl e \<Rightarrow> Some (Inl e)
      | Inr off \<Rightarrow>
          (case real_off (last' + 1) s of
             Inl e \<Rightarrow> Some (Inl e)
           | Inr real_end \<Rightarrow> t_release_loop C off real_end s))"

section \<open>send_cumulative_window_processing\<close>

text \<open>\<open>'c\<close> is the state of the controller together with the area of the window. The member \<open>win\<close> is loaded
  from the area at the start of every operation; a controller that waits calls \<open>is_sent_buf_empty\<close>, which
  loads it again, or leaves the area as it is.\<close>

record ('c, 'v, 'e) win_ctl =
  w_area :: "'c \<Rightarrow> cwp_area"
  w_set_area :: "cwp_area \<Rightarrow> 'c \<Rightarrow> 'c"
  w_signal_not_empty :: "'c \<Rightarrow> 'c res"
  w_put_msg_at :: "off_t \<Rightarrow> msg \<Rightarrow> 'c \<Rightarrow> ('e \<times> 'c) res"
  w_get_msg_at :: "off_t \<Rightarrow> 'c \<Rightarrow> 'v res"
  w_mark_msg_used :: "'v \<Rightarrow> bool \<Rightarrow> 'c \<Rightarrow> 'c"
  w_is_msg_used :: "'v \<Rightarrow> 'c \<Rightarrow> bool"
  w_get_msg_data_sz :: "'v \<Rightarrow> 'c \<Rightarrow> size_t"
  w_refresh_pair :: "'v \<Rightarrow> msg \<Rightarrow> 'c \<Rightarrow> 'c res"
  w_refresh_pair_prev :: "'v \<Rightarrow> msg \<Rightarrow> 'c \<Rightarrow> 'c res"
  w_release_range :: "off_t \<Rightarrow> off_t \<Rightarrow> 'c \<Rightarrow> 'c res option"
  w_on_sent_buf_empty :: "'c \<Rightarrow> 'c res"
  w_refresh_contents :: "'c \<Rightarrow> 'c res"
  w_wait_not_empty :: "'c \<Rightarrow> 'c res option"

definition t_setup :: "('c, 'v, 'e) win_ctl \<Rightarrow> 'c \<Rightarrow> send_window" where
  "t_setup C s = cwp_setup (w_area C s)"

definition t_flush :: "('c, 'v, 'e) win_ctl \<Rightarrow> send_window \<Rightarrow> 'c \<Rightarrow> 'c" where
  "t_flush C w s = w_set_area C (cwp_flush w (w_area C s)) s"

definition t_force_move_start :: "('c, 'v, 'e) win_ctl \<Rightarrow> tcp_seq \<Rightarrow> 'c \<Rightarrow> 'c" where
  "t_force_move_start C start_seq s =
     t_flush C ((t_setup C s)\<lparr>rw_start := seq_to_size start_seq, rw_off := 0, sw_sent_off := 0\<rparr>) s"

text \<open>The message is passed by reference: its number is set.\<close>

definition t_send :: "('c, 'v, 'e) win_ctl \<Rightarrow> msg \<Rightarrow> 'c \<Rightarrow> ('e \<times> msg \<times> 'c) res" where
  "t_send C m s =
     (let w = t_setup C s
      in if sent_sz w < data_len m then Inl Drop
         else let m' = set_seq (size_to_seq (sent_begin w)) m
              in case (if sent_buf_empty w then w_signal_not_empty C s else Inr s) of
                   Inl e \<Rightarrow> Inl e
                 | Inr s1 \<Rightarrow>
                     (case w_put_msg_at C (sw_sent_off w) m' s1 of
                        Inl e \<Rightarrow> Inl e
                      | Inr (ret, s2) \<Rightarrow> Inr (ret, m', t_flush C (inc_sent_off (data_len m) w) s2)))"

definition t_retry :: "('c, 'v, 'e) win_ctl \<Rightarrow> msg \<Rightarrow> 'c \<Rightarrow> 'c res" where
  "t_retry C m s =
     (let w = t_setup C s; msg_off = get_in_msg_off w (get_seq m) + rw_off w
      in case w_get_msg_at C msg_off s of
           Inl e \<Rightarrow> Inl e
         | Inr ret \<Rightarrow> Inr (t_flush C w (w_mark_msg_used C ret False s)))"

definition t_on_ack :: "('c, 'v, 'e) win_ctl \<Rightarrow> msg \<Rightarrow> 'c \<Rightarrow> 'c res option" where
  "t_on_ack C m s =
     (let w = t_setup C s
      in if msg_in_win w m
         then let old_off = rw_off w; w' = set_off_from_seq (get_seq m) w; new_off = rw_off w'
              in case w_get_msg_at C old_off s of
                   Inl e \<Rightarrow> Some (Inl e)
                 | Inr ret \<Rightarrow>
                     (case w_refresh_pair C ret m s of
                        Inl e \<Rightarrow> Some (Inl e)
                      | Inr s1 \<Rightarrow>
                          (case w_release_range C old_off (new_off - 1) s1 of
                             None \<Rightarrow> None
                           | Some (Inl e) \<Rightarrow> Some (Inl e)
                           | Some (Inr s2) \<Rightarrow>
                               (case (if sent_buf_empty w' then w_on_sent_buf_empty C s2 else Inr s2) of
                                  Inl e \<Rightarrow> Some (Inl e)
                                | Inr s3 \<Rightarrow>
                                    (if get_sz w' = 0
                                     then case w_refresh_contents C s3 of
                                            Inl e \<Rightarrow> Some (Inl e)
                                          | Inr s4 \<Rightarrow> Some (Inr (t_flush C (send_next_window w') s4))
                                     else Some (Inr (t_flush C w' s3))))))
         else if msg_in_prev_win w m
         then case w_get_msg_at C (rw_off w) s of
                Inl e \<Rightarrow> Some (Inl e)
              | Inr first_msg \<Rightarrow>
                  (case w_refresh_pair_prev C first_msg m s of
                     Inl e \<Rightarrow> Some (Inl e)
                   | Inr s1 \<Rightarrow> Some (Inr (t_flush C w s1)))
         else Some (Inr (t_flush C w s)))"

partial_function (option) t_next_loop :: "('c, 'v, 'e) win_ctl \<Rightarrow> send_window \<Rightarrow> off_t \<Rightarrow> 'c \<Rightarrow> ('v \<times> 'c) res option" where
  "t_next_loop C w off s =
     (if sint off < sint (sw_sent_off w)
      then (case w_get_msg_at C off s of
              Inl e \<Rightarrow> Some (Inl e)
            | Inr ret \<Rightarrow>
                (if w_is_msg_used C ret s
                 then t_next_loop C w (off + w_get_msg_data_sz C ret s) s
                 else Some (Inr (ret, t_flush C w (w_mark_msg_used C ret True s)))))
      else Some (Inl Timeout))"

definition t_next_msg :: "('c, 'v, 'e) win_ctl \<Rightarrow> 'c \<Rightarrow> ('v \<times> 'c) res option" where
  "t_next_msg C s =
     (let w = t_setup C s
      in if sent_buf_empty w
         then case w_wait_not_empty C s of
                None \<Rightarrow> None
              | Some (Inl e) \<Rightarrow> Some (Inl e)
              | Some (Inr s1) \<Rightarrow> (let w1 = t_setup C s1 in t_next_loop C w1 (rw_off w1) s1)
         else t_next_loop C w (rw_off w) s)"

section \<open>The instances of the socket\<close>

definition sock_buf_ctl :: "(unit send_buf_ext, nat, nat) buf_ctl" where
  "sock_buf_ctl = \<lparr>c_put_msg_inplace = put_msg_inplace,
     c_get_msg_inplace = (\<lambda>a s. if hdr_in_buf a then Inr (get_msg_inplace a) else Inl Fault),
     c_get_msg_inplace_future = (\<lambda>a s. Inr (get_msg_inplace_future a)),
     c_release_inplace_msg = release_inplace_msg\<rparr>"

definition in_buf :: "(send_buf \<Rightarrow> send_buf res) \<Rightarrow> out_st \<Rightarrow> out_st res" where
  "in_buf f s = (case f (o_buf s) of Inl e \<Rightarrow> Inl e | Inr b \<Rightarrow> Inr (s\<lparr>o_buf := b\<rparr>))"

definition sock_win_ctl :: "bool \<Rightarrow> size_t \<Rightarrow> (out_st, nat, nat) win_ctl" where
  "sock_win_ctl worker_active now = \<lparr>w_area = o_cwp, w_set_area = (\<lambda>a s. s\<lparr>o_cwp := a\<rparr>),
     w_signal_not_empty = (\<lambda>s. Inr (s\<lparr>buf_not_empty := buf_not_empty s + 1\<rparr>)),
     w_put_msg_at = (\<lambda>off m s. case put_msg_at off m (o_buf s) of Inl e \<Rightarrow> Inl e | Inr (f, b) \<Rightarrow> Inr (f, s\<lparr>o_buf := b\<rparr>)),
     w_get_msg_at = (\<lambda>off s. get_msg_at off (o_buf s)),
     w_mark_msg_used = (\<lambda>p used s. s\<lparr>o_buf := (o_buf s)\<lparr>sob_buf := mark_msg_used p used (sob_buf (o_buf s))\<rparr>\<rparr>),
     w_is_msg_used = (\<lambda>p s. is_msg_used p (sob_buf (o_buf s))),
     w_get_msg_data_sz = (\<lambda>p s. get_msg_data_sz p (sob_buf (o_buf s))),
     w_refresh_pair = (\<lambda>p ack s. Inr (output_refresh_on_msg_pair now p ack s)),
     w_refresh_pair_prev = output_refresh_on_msg_pair_prev_window_matched,
     w_release_range = (\<lambda>a b s. case release_range a b (o_buf s) of
        None \<Rightarrow> None | Some (Inl e) \<Rightarrow> Some (Inl e) | Some (Inr x) \<Rightarrow> Some (Inr (s\<lparr>o_buf := x\<rparr>))),
     w_on_sent_buf_empty = (\<lambda>s. Inr (on_sent_buf_empty s)),
     w_refresh_contents = in_buf sob_refresh,
     w_wait_not_empty = (\<lambda>s. if worker_active then None else Some (Inl Timeout))\<rparr>"

lemma option_eqI: "(\<And>r. x = Some r \<Longrightarrow> y = Some r) \<Longrightarrow> (\<And>r. y = Some r \<Longrightarrow> x = Some r) \<Longrightarrow> x = y"
  by (cases x; cases y) auto

lemma release_loop_template: "t_release_loop C off e s = Some r \<Longrightarrow> C = sock_buf_ctl \<longrightarrow> release_loop off e s = Some r"
proof (induction C off e s r rule: t_release_loop.raw_induct [rotated, consumes 1, case_names step])
  case (step loop C off e s r)
  show ?case
    using step(2) by (subst release_loop.simps) (auto simp: sock_buf_ctl_def dest: step(1) split: if_splits sum.splits prod.splits)
qed

lemma template_release_loop: "release_loop off e s = Some r \<Longrightarrow> t_release_loop sock_buf_ctl off e s = Some r"
proof (induction off e s r rule: release_loop.raw_induct [rotated, consumes 1, case_names step])
  case (step loop off e s r)
  show ?case
    using step(2) by (subst t_release_loop.simps) (auto simp: sock_buf_ctl_def dest: step(1) split: if_splits sum.splits prod.splits)
qed

lemma release_loop_instance: "t_release_loop sock_buf_ctl off e s = release_loop off e s"
  by (rule option_eqI) (rule release_loop_template [rule_format, OF _ refl], assumption, rule template_release_loop, assumption)

lemma buffer_instance:
  "sob_refresh = t_refresh" "get_msg_at off s = t_get_msg_at sock_buf_ctl off s" "put_msg_at off m s = t_put_msg_at sock_buf_ctl off m s"
  "release_range a b s = t_release_range sock_buf_ctl a b s"
proof -
  show "release_range a b s = t_release_range sock_buf_ctl a b s"
    by (simp add: release_range_def t_release_range_def release_loop_instance split: sum.splits)
qed (auto simp: sob_refresh_def t_refresh_def get_msg_at_def t_get_msg_at_def put_msg_at_def t_put_msg_at_def sock_buf_ctl_def Let_def split: sum.splits)

lemma send_instance:
  "scw_send m s = (case t_send (sock_win_ctl act now) m s of Inl e \<Rightarrow> Inl e | Inr (f, _, t) \<Rightarrow> Inr (f, t))"
  by (auto simp: scw_send_def t_send_def sock_win_ctl_def t_setup_def t_flush_def Let_def split: sum.splits)

lemma retry_instance: "scw_retry m s = t_retry (sock_win_ctl act now) m s"
  by (simp add: scw_retry_def t_retry_def sock_win_ctl_def t_setup_def t_flush_def Let_def split: sum.splits)

lemma on_ack_instance: "scw_on_ack now m s = t_on_ack (sock_win_ctl act now) m s"
  by (auto simp: scw_on_ack_def t_on_ack_def sock_win_ctl_def t_setup_def t_flush_def on_ack_tail_def in_buf_def output_refresh_on_msg_pair_def Let_def
      split: sum.splits option.splits)

lemma next_loop_template:
  "t_next_loop C w off s = Some r \<Longrightarrow> C = sock_win_ctl act now \<and> w = cwp_setup (o_cwp s) \<longrightarrow> next_msg_loop off s = Some r"
proof (induction C w off s r rule: t_next_loop.raw_induct [rotated, consumes 1, case_names step])
  case (step loop C w off s r)
  show ?case
    using step(2) by (subst next_msg_loop.simps) (auto simp: sock_win_ctl_def t_flush_def cwp_setup_def send_window4_def cwp_flush_def dest: step(1) split: if_splits sum.splits)
qed

lemma template_next_loop:
  "next_msg_loop off s = Some r \<Longrightarrow> t_next_loop (sock_win_ctl act now) (cwp_setup (o_cwp s)) off s = Some r"
proof (induction off s r rule: next_msg_loop.raw_induct [rotated, consumes 1, case_names step])
  case (step loop off s r)
  show ?case
    using step(2) by (subst t_next_loop.simps) (auto simp: sock_win_ctl_def t_flush_def cwp_setup_def send_window4_def cwp_flush_def dest: step(1) split: if_splits sum.splits)
qed

lemma next_msg_instance: "next_msg act s = t_next_msg (sock_win_ctl act now) s"
proof -
  have sel: "w_area (sock_win_ctl act now) = o_cwp" "w_wait_not_empty (sock_win_ctl act now) s = (if act then None else Some (Inl Timeout))"
    by (simp_all add: sock_win_ctl_def)
  have "t_next_loop (sock_win_ctl act now) (cwp_setup (o_cwp s)) off s = next_msg_loop off s" for off
    by (rule option_eqI) (rule next_loop_template [rule_format], assumption, simp, rule template_next_loop, assumption)
  then show ?thesis by (simp add: next_msg_def t_next_msg_def t_setup_def sel Let_def)
qed

section \<open>Property\<close>


end
