(* ===== verification/Template_Tests.thy ===== *)
theory Template_Tests
  imports Templates
begin

text \<open>
  The unit tests \<open>send_output_buffer_test\<close> and \<open>send_cumulative_window_test\<close> of
  \<open>src/tcp_test_boost.cpp\<close>, which run the class templates with controllers of their own, on the model
  of the templates. A requirement that does not hold ends the test with \<open>None\<close> or \<open>False\<close>.
\<close>

section \<open>send_output_buffer_test\<close>

text \<open>The controller: a message in the buffer is \<open>struct my_msg\<close>, 8 bytes that hold the number; \<open>rel\<close> are
  the addresses that were released.\<close>

record sob_fake = sob_area +
  rel :: "nat list"

definition fake_buf_ctl :: "(unit sob_fake_ext, nat, nat) buf_ctl" where
  "fake_buf_ctl = \<lparr>c_put_msg_inplace = (\<lambda>a m s.
       if a + 8 \<le> OUTPUT_SEND_BUF_SZ then Inr (8, s\<lparr>sob_buf := mem_write (sob_buf s) a (le64 (seq_to_size (get_seq m)))\<rparr>) else Inl Fault),
     c_get_msg_inplace = (\<lambda>a s. Inr a), c_get_msg_inplace_future = (\<lambda>a s. Inr a),
     c_release_inplace_msg = (\<lambda>a s. Inr (8, s\<lparr>rel := rel s @ [a]\<rparr>))\<rparr>"

text \<open>The loop that puts the messages; \<open>n\<close> is the data length of a message, which is 0 in the test.\<close>

definition sob_test_msg :: "size_t \<Rightarrow> nat \<Rightarrow> msg" where
  "sob_test_msg n i = set_seq (word_of_nat i) (set_data_len n (msg_new None 0))"

fun sob_test_puts :: "size_t \<Rightarrow> nat list \<Rightarrow> nat option \<Rightarrow> sob_fake \<Rightarrow> (nat list \<times> sob_fake) option" where
  "sob_test_puts n [] prev s = Some ([], s)"
| "sob_test_puts n (i # is) prev s =
     (case t_put_msg_at fake_buf_ctl (word_of_nat i) (sob_test_msg n i) s of
        Inl e \<Rightarrow> None
      | Inr (now, s1) \<Rightarrow>
          (if ld64 (sob_buf s1) now = seq_to_size (get_seq (sob_test_msg n i)) \<and> (case prev of None \<Rightarrow> True | Some p \<Rightarrow> p + 8 = now)
           then case sob_test_puts n is (Some now) s1 of None \<Rightarrow> None | Some (ptrs, s2) \<Rightarrow> Some (now # ptrs, s2)
           else None))"

definition send_output_buffer_test :: "size_t \<Rightarrow> bool" where
  "send_output_buffer_test n =
     (case sob_test_puts n [0..<10] None \<lparr>sob_buf = (\<lambda>_. 0), off_map = (\<lambda>_. 0), sob_end = 0, rel = []\<rparr> of
        None \<Rightarrow> False
      | Some (ptrs, s) \<Rightarrow>
          list_all (\<lambda>i. t_get_msg_at fake_buf_ctl (word_of_nat i) s = Inr (ptrs ! i)) [0..<10] \<and>
          (case t_release_range fake_buf_ctl 5 9 s of
             Some (Inr s1) \<Rightarrow>
               (case t_release_range fake_buf_ctl 0 4 s1 of
                  Some (Inr s2) \<Rightarrow>
                    drop 5 ptrs @ take 5 ptrs = rel s2 \<and>
                    (case t_refresh s2 of
                       Inr s3 \<Rightarrow>
                         (case t_put_msg_at fake_buf_ctl 0 (sob_test_msg n 0) s3 of
                            Inr (now, _) \<Rightarrow> hd ptrs = now
                          | Inl _ \<Rightarrow> False)
                     | Inl _ \<Rightarrow> False)
                | _ \<Rightarrow> False)
           | _ \<Rightarrow> False))"

section \<open>send_cumulative_window_test\<close>

text \<open>The controller: \<open>mp\<close> holds the messages by their offset, and a call of a controller function is only
  allowed when the test has set its flag, which it resets. \<open>mp[off]\<close> of an offset without a message is
  \<open>Fault\<close>: the program gets a null pointer, and keeps it in the map. The pointer to a message is its offset.\<close>

record my_msg =
  mm_cnt :: size_t
  mm_used :: bool
  mm_released :: bool
  mm_msg :: msg

record scw_fake =
  sf_area :: cwp_area
  sf_mp :: "(off_t \<times> my_msg) list"
  signal_not_empty :: bool
  signal_a :: bool
  signal_b :: bool
  signal_c :: bool
  signal_d :: bool

fun mp_put :: "off_t \<Rightarrow> my_msg \<Rightarrow> (off_t \<times> my_msg) list \<Rightarrow> (off_t \<times> my_msg) list" where
  "mp_put k v [] = [(k, v)]"
| "mp_put k v ((j, x) # xs) = (if j = k then (k, v) # xs else (j, x) # mp_put k v xs)"

definition mp_at :: "off_t \<Rightarrow> scw_fake \<Rightarrow> my_msg" where
  "mp_at k s = the (map_of (sf_mp s) k)"

abbreviation REQUIRE :: tcp_exn where
  "REQUIRE \<equiv> Runtime_error ''BOOST_REQUIRE''"

definition fake_win_ctl :: "(scw_fake, off_t, off_t) win_ctl" where
  "fake_win_ctl = \<lparr>w_area = sf_area, w_set_area = (\<lambda>a s. s\<lparr>sf_area := a\<rparr>),
     w_signal_not_empty = (\<lambda>s. if signal_not_empty s then Inr (s\<lparr>signal_not_empty := False\<rparr>) else Inl REQUIRE),
     w_put_msg_at = (\<lambda>off m s. Inr (off, s\<lparr>sf_mp := mp_put off \<lparr>mm_cnt = seq_to_size (get_seq m), mm_used = False, mm_released = False, mm_msg = m\<rparr> (sf_mp s)\<rparr>)),
     w_get_msg_at = (\<lambda>off s. if map_of (sf_mp s) off = None then Inl Fault else Inr off),
     w_mark_msg_used = (\<lambda>k flag s. s\<lparr>sf_mp := mp_put k ((mp_at k s)\<lparr>mm_used := flag\<rparr>) (sf_mp s)\<rparr>),
     w_is_msg_used = (\<lambda>k s. mm_used (mp_at k s) \<or> mm_released (mp_at k s)),
     w_get_msg_data_sz = (\<lambda>k s. data_len (mm_msg (mp_at k s))),
     w_refresh_pair = (\<lambda>k ack s. if signal_a s then Inr (s\<lparr>signal_a := False\<rparr>) else Inl REQUIRE),
     w_refresh_pair_prev = (\<lambda>k ack s. if signal_a s then Inr (s\<lparr>signal_a := False\<rparr>) else Inl REQUIRE),
     w_release_range = (\<lambda>a b s.
        if list_ex (\<lambda>(k, v). a \<le>s k \<and> k \<le>s b \<and> mm_released v) (sf_mp s) then Some (Inl REQUIRE)
        else Some (Inr (s\<lparr>sf_mp := map (\<lambda>(k, v). if a \<le>s k \<and> k \<le>s b then (k, v\<lparr>mm_released := True\<rparr>) else (k, v)) (sf_mp s)\<rparr>))),
     w_on_sent_buf_empty = (\<lambda>s. if signal_b s then Inr (s\<lparr>signal_b := False\<rparr>) else Inl REQUIRE),
     w_refresh_contents = (\<lambda>s. if signal_d s then Inr (s\<lparr>signal_d := False\<rparr>) else Inl REQUIRE),
     w_wait_not_empty = (\<lambda>s. if signal_c s then Some (Inr (s\<lparr>signal_c := False\<rparr>)) else Some (Inl REQUIRE))\<rparr>"

text \<open>The first window is filled by one message and acknowledged.\<close>

definition scw_test_exceed :: "tcp_seq \<Rightarrow> scw_fake \<Rightarrow> scw_fake option" where
  "scw_test_exceed start s =
     (case t_send fake_win_ctl (set_data_len OUTPUT_WINDOW_SZ (msg_new None 0)) (s\<lparr>signal_not_empty := True\<rparr>) of
        Inl e \<Rightarrow> None
      | Inr (_, _, s1) \<Rightarrow>
          (case t_on_ack fake_win_ctl (set_seq (size_to_seq OUTPUT_WINDOW_SZ + start - 1) (set_ack (msg_new None 0)))
                  (s1\<lparr>signal_d := True, signal_b := True, signal_a := True\<rparr>) of
             Some (Inr s2) \<Rightarrow> if \<not> signal_a s2 \<and> \<not> signal_b s2 \<and> \<not> signal_d s2 \<and> \<not> signal_not_empty s2 then Some s2 else None
           | _ \<Rightarrow> None))"

definition scw_test_drop :: "scw_fake \<Rightarrow> bool" where
  "scw_test_drop s = (t_send fake_win_ctl (set_data_len (OUTPUT_WINDOW_SZ + 1) (msg_new None 0)) s = Inl Drop)"

text \<open>Four messages of the lengths 1 to 4.\<close>

fun scw_test_sends :: "nat list \<Rightarrow> scw_fake \<Rightarrow> (msg list \<times> scw_fake) option" where
  "scw_test_sends [] s = Some ([], s)"
| "scw_test_sends (i # is) s =
     (case t_send fake_win_ctl (set_data_len (word_of_nat (i + 1)) (msg_new None 0)) (s\<lparr>signal_not_empty := (i = 0)\<rparr>) of
        Inl e \<Rightarrow> None
      | Inr (_, m, s1) \<Rightarrow>
          (if i = 0 \<and> signal_not_empty s1 then None
           else case scw_test_sends is s1 of None \<Rightarrow> None | Some (ms, s2) \<Rightarrow> Some (m # ms, s2)))"

fun scw_test_nexts :: "msg list \<Rightarrow> scw_fake \<Rightarrow> scw_fake option" where
  "scw_test_nexts [] s = Some s"
| "scw_test_nexts (m # ms) s =
     (case t_next_msg fake_win_ctl s of
        Some (Inr (k, s1)) \<Rightarrow> if seq_to_size (get_seq m) = mm_cnt (mp_at k s1) then scw_test_nexts ms s1 else None
      | _ \<Rightarrow> None)"

fun scw_test_retries :: "msg list \<Rightarrow> scw_fake \<Rightarrow> scw_fake option" where
  "scw_test_retries [] s = Some s"
| "scw_test_retries (m # ms) s = (case t_retry fake_win_ctl m s of Inl e \<Rightarrow> None | Inr s1 \<Rightarrow> scw_test_retries ms s1)"

definition scw_test_resend :: "msg list \<Rightarrow> scw_fake \<Rightarrow> scw_fake option" where
  "scw_test_resend ms s =
     (case scw_test_nexts ms s of
        None \<Rightarrow> None
      | Some s1 \<Rightarrow> if t_next_msg fake_win_ctl s1 = Some (Inl Timeout) then scw_test_retries ms s1 else None)"

fun repeat_test :: "nat \<Rightarrow> ('s \<Rightarrow> 's option) \<Rightarrow> 's \<Rightarrow> 's option" where
  "repeat_test 0 f s = Some s"
| "repeat_test (Suc n) f s = (case f s of None \<Rightarrow> None | Some t \<Rightarrow> repeat_test n f t)"

text \<open>An acknowledgement with the number \<open>seq\<close>; \<open>b\<close> is set when it must report the buffer as empty.\<close>

definition scw_test_ack :: "bool \<Rightarrow> tcp_seq \<Rightarrow> scw_fake \<Rightarrow> scw_fake option" where
  "scw_test_ack b seq s =
     (case t_on_ack fake_win_ctl (set_seq seq (set_ack (msg_new None 0))) (s\<lparr>signal_a := True, signal_b := (b \<or> signal_b s)\<rparr>) of
        Some (Inr s1) \<Rightarrow> if signal_a s1 \<or> b \<and> signal_b s1 then None else Some s1
      | _ \<Rightarrow> None)"

fun scw_test_acks :: "tcp_seq \<Rightarrow> size_t \<Rightarrow> msg list \<Rightarrow> scw_fake \<Rightarrow> (size_t \<times> scw_fake) option" where
  "scw_test_acks start acked [] s = Some (acked, s)"
| "scw_test_acks start acked (m # ms) s =
     (let acked' = acked + data_len m
      in case scw_test_ack (ms = []) (size_to_seq (seq_to_size start + acked' - 1)) s of
           None \<Rightarrow> None
         | Some s1 \<Rightarrow> scw_test_acks start acked' ms s1)"

definition scw_test_iter :: "tcp_seq \<times> scw_fake \<Rightarrow> (tcp_seq \<times> scw_fake) option" where
  "scw_test_iter p =
     (let (start, s) = p
      in case scw_test_sends [0..<4] s of
           None \<Rightarrow> None
         | Some (ms, s1) \<Rightarrow>
             (case repeat_test 10 (scw_test_resend ms) s1 of
                None \<Rightarrow> None
              | Some s2 \<Rightarrow>
                  (case scw_test_ack False (start - 1) s2 of
                     None \<Rightarrow> None
                   | Some s3 \<Rightarrow>
                       (case scw_test_acks start 0 ms s3 of
                          None \<Rightarrow> None
                        | Some (acked, s4) \<Rightarrow> Some (start + size_to_seq acked, s4)))))"

definition send_cumulative_window_test :: bool where
  "send_cumulative_window_test =
     (let start = 100500;
          s = t_force_move_start fake_win_ctl start
            \<lparr>sf_area = cwp (on_init zero_mem), sf_mp = [], signal_not_empty = False, signal_a = False, signal_b = False, signal_c = False, signal_d = False\<rparr>
      in case scw_test_exceed start s of
           None \<Rightarrow> False
         | Some s1 \<Rightarrow> scw_test_drop s1 \<and> repeat_test 2 scw_test_iter (start + size_to_seq OUTPUT_WINDOW_SZ, s1) \<noteq> None)"

section \<open>The tests on the model\<close>

lemma ld64_write [simp]: "ld64 (mem_write m a (le64 w)) a = w"
  by (rule ld64_holds) (rule mem_holds_write)

lemma ld64_zero: "b + 8 \<le> a \<or> a + 8 \<le> b \<Longrightarrow> ld64 (mem_write m a (le64 w)) b = ld64 m b"
  by (simp add: ld64_def mem_read_write_disjoint)

lemma ld64_zeros [simp]: "ld64 (\<lambda>_. 0) a = 0"
proof -
  have "mem_read (\<lambda>_. 0) a 8 = replicate 8 0" by (rule nth_equalityI) simp_all
  then show ?thesis by (simp add: ld64_def numeral_eq_Suc)
qed

lemma sob_test_msg_sel [simp]: "data_len (sob_test_msg n i) = n" "get_seq (sob_test_msg n i) = word_of_nat i"
  by (simp_all add: sob_test_msg_def msg_access_defs set_data_len_def)

lemma fake_put:
  assumes "unat off < 10000" and "unat (off + n) < 10000" and "unat (off_map s (unat off)) < 1000"
  shows "t_put_msg_at fake_buf_ctl off (sob_test_msg n i) s =
     (let e = sob_end s + 8; s1 = s\<lparr>sob_buf := mem_write (sob_buf s) (unat (off_map s (unat off))) (le64 (seq_to_size (word_of_nat i))),
        sob_end := e, off_map := (off_map s)(unat (off + n) := e)\<rparr>
      in Inr (unat (off_map s1 (unat off)), s1))"
  using assms by (simp add: t_put_msg_at_def fake_buf_ctl_def real_off_def put_real_off_def OUTPUT_SEND_BUF_SZ_def Let_def)

lemma fake_release:
  "t_release_loop fake_buf_ctl off e s =
     (if off < e then t_release_loop fake_buf_ctl (off + 8) e (s\<lparr>rel := rel s @ [unat off]\<rparr>) else Some (Inr s))"
  by (subst t_release_loop.simps) (simp add: fake_buf_ctl_def)

lemma buffer_test_fails: "\<not> send_output_buffer_test 0"
  by (simp add: send_output_buffer_test_def upt_rec fake_put Let_def ld64_zero seq_to_size_def)

lemma buffer_test_passes: "send_output_buffer_test 1"
proof -
  have real: "real_off off s = Inr (off_map s (unat off))" if "unat off < 10000" for off and s :: sob_fake
    using that by (simp add: real_off_def OUTPUT_SEND_BUF_SZ_def)
  have get: "t_get_msg_at fake_buf_ctl off s = Inr (unat (off_map s (unat off)))" if "unat off < 10000" for off and s :: sob_fake
    using real [OF that] by (simp add: t_get_msg_at_def fake_buf_ctl_def)
  show ?thesis
    by (simp add: send_output_buffer_test_def upt_rec fake_put Let_def seq_to_size_def get real t_release_range_def fake_release
        t_refresh_def put_real_off_def OUTPUT_SEND_BUF_SZ_def)
qed

declare t_next_loop.simps [code]

lemma repeat_test_same: "f s = Some s \<Longrightarrow> repeat_test n f s = Some s"
  by (induction n) simp_all

text \<open>The messages and states of the two rounds.\<close>

definition wt_msg :: "size_t \<Rightarrow> tcp_seq \<Rightarrow> msg" where
  "wt_msg n q = set_seq q (set_data_len n (msg_new None 0))"

definition wt_entry :: "off_t \<Rightarrow> bool \<Rightarrow> size_t \<Rightarrow> tcp_seq \<Rightarrow> off_t \<times> my_msg" where
  "wt_entry k released n q = (k, \<lparr>mm_cnt = seq_to_size q, mm_used = False, mm_released = released, mm_msg = wt_msg n q\<rparr>)"

definition wt_state :: "off_t \<Rightarrow> off_t \<Rightarrow> (off_t \<times> my_msg) list \<Rightarrow> scw_fake" where
  "wt_state off sent mp = \<lparr>sf_area = \<lparr>cwp_start = 101500, cwp_off = off, cwp_send_off = sent, cwp_sz = 1000\<rparr>, sf_mp = mp,
     signal_not_empty = False, signal_a = False, signal_b = False, signal_c = False, signal_d = False\<rparr>"

definition wt_msgs :: "tcp_seq \<Rightarrow> msg list" where
  "wt_msgs q = [wt_msg 1 q, wt_msg 2 (q + 1), wt_msg 3 (q + 3), wt_msg 4 (q + 6)]"

definition wt_mp :: "bool \<Rightarrow> off_t \<Rightarrow> (off_t \<times> my_msg) list" where
  "wt_mp released k = [wt_entry k released 1 (size_to_seq (101500 + k)), wt_entry (k + 1) released 2 (size_to_seq (101501 + k)),
     wt_entry (k + 3) released 3 (size_to_seq (101503 + k)), wt_entry (k + 6) released 4 (size_to_seq (101506 + k))]"

lemma wt_start:
  "scw_test_exceed 100500 (t_force_move_start fake_win_ctl 100500
     \<lparr>sf_area = cwp (on_init zero_mem), sf_mp = [], signal_not_empty = False, signal_a = False, signal_b = False, signal_c = False, signal_d = False\<rparr>) =
   Some (wt_state 0 0 [wt_entry 0 True 1000 100500])"
  by code_simp

lemma wt_drop: "scw_test_drop (wt_state 0 0 [wt_entry 0 True 1000 100500])"
  by code_simp

lemma wt_sends:
  "scw_test_sends [0..<4] (wt_state 0 0 [wt_entry 0 True 1000 100500]) = Some (wt_msgs 101500, wt_state 0 10 (wt_mp False 0))"
  "scw_test_sends [0..<4] (wt_state 10 10 (wt_mp True 0)) = Some (wt_msgs 101510, wt_state 10 20 (wt_mp True 0 @ wt_mp False 10))"
  by code_simp+

lemma wt_resend:
  "scw_test_resend (wt_msgs 101500) (wt_state 0 10 (wt_mp False 0)) = Some (wt_state 0 10 (wt_mp False 0))"
  "scw_test_resend (wt_msgs 101510) (wt_state 10 20 (wt_mp True 0 @ wt_mp False 10)) = Some (wt_state 10 20 (wt_mp True 0 @ wt_mp False 10))"
  by code_simp+

lemma wt_acks:
  "scw_test_ack False (101500 - 1) (wt_state 0 10 (wt_mp False 0)) = Some (wt_state 0 10 (wt_mp False 0))"
  "scw_test_acks 101500 0 (wt_msgs 101500) (wt_state 0 10 (wt_mp False 0)) = Some (10, wt_state 10 10 (wt_mp True 0))"
  "scw_test_ack False (101510 - 1) (wt_state 10 20 (wt_mp True 0 @ wt_mp False 10)) = Some (wt_state 10 20 (wt_mp True 0 @ wt_mp False 10))"
  "scw_test_acks 101510 0 (wt_msgs 101510) (wt_state 10 20 (wt_mp True 0 @ wt_mp False 10)) = Some (10, wt_state 20 20 (wt_mp True 0 @ wt_mp True 10))"
  by code_simp+

lemma window_test_passes: "send_cumulative_window_test"
proof -
  note steps = wt_sends wt_acks repeat_test_same [where f = "scw_test_resend (wt_msgs 101500)", OF wt_resend(1)]
    repeat_test_same [where f = "scw_test_resend (wt_msgs 101510)", OF wt_resend(2)] option.case prod.case Let_def
  have add: "101500 + size_to_seq 10 = 101510" "101510 + size_to_seq 10 = 101520" "100500 + size_to_seq OUTPUT_WINDOW_SZ = 101500"
    by (simp_all add: size_to_seq_def OUTPUT_WINDOW_SZ_def)
  have one: "scw_test_iter (101500, wt_state 0 0 [wt_entry 0 True 1000 100500]) = Some (101510, wt_state 10 10 (wt_mp True 0))"
    by (simp only: scw_test_iter_def steps add)
  have two: "scw_test_iter (101510, wt_state 10 10 (wt_mp True 0)) = Some (101520, wt_state 20 20 (wt_mp True 0 @ wt_mp True 10))"
    by (simp only: scw_test_iter_def steps add)
  have "repeat_test 2 scw_test_iter (101500, wt_state 0 0 [wt_entry 0 True 1000 100500]) \<noteq> None"
    by (simp only: numeral_2_eq_2 repeat_test.simps one two option.case) simp
  then show ?thesis by (simp only: send_cumulative_window_test_def Let_def wt_start option.case wt_drop add simp_thms)
qed

section \<open>Property\<close>


end
